(* ===== verification/Prelude.thy ===== *)
theory Prelude
  imports Complex_Main "HOL-Library.Product_Lexorder" "HOL-Library.Sublist"
begin

text \<open>
  What every component shares: the types of the model (identifiers, moments, text), the
  panel's error value, the statements of SQL the stores are written in, and the string
  operations of the Rust standard library the code calls.

  Text is the list of its Unicode scalar values, which is what \<open>chars()\<close> walks over; the
  length in bytes is computed by \<open>byte_len\<close> from the UTF-8 encoding. Messages that are only
  read by a person are not kept in an error value; its status, its code and its
  \<open>retry_after\<close> are.
\<close>

named_theorems sql \<open>rules about the rows a statement reads and writes\<close>
named_theorems str \<open>rules about text, pieces and lines\<close>

subsection \<open>Types\<close>

type_synonym id = nat
type_synonym moment = int \<comment> \<open>a \<open>Timestamp\<close>: whole seconds since the epoch, UTC\<close>
type_synonym instant = nat \<comment> \<open>an \<open>Instant\<close> or a \<open>Duration\<close>: nanoseconds\<close>
type_synonym ustr = "nat list"

definition lit :: "string \<Rightarrow> ustr" where
  "lit s = map of_char s"

definition secs :: "nat \<Rightarrow> instant" where
  "secs n = n * 1000000000"

text \<open>\<open>left.as_secs() + u64::from(left.subsec_nanos() > 0)\<close>: whole seconds, rounded up.\<close>

definition secs_up :: "instant \<Rightarrow> nat" where
  "secs_up d = d div 1000000000 + (if 0 < d mod 1000000000 then 1 else 0)"

lemma secs_up_covers: "d \<le> secs (secs_up d)"
proof -
  have "d = d div 1000000000 * 1000000000 + d mod 1000000000" by simp
  moreover have "d mod 1000000000 < 1000000000" by simp
  ultimately show ?thesis unfolding secs_up_def secs_def by (cases "d mod 1000000000 = 0") auto
qed

lemma secs_up_least:
  assumes "d \<le> secs n"
  shows "secs_up d \<le> n"
proof (cases "d mod 1000000000 = 0")
  case True
  have "d div 1000000000 \<le> n * 1000000000 div 1000000000"
    using assms by (intro div_le_mono) (simp add: secs_def)
  with True show ?thesis by (simp add: secs_up_def)
next
  case False
  then have "d \<noteq> n * 1000000000" by auto
  with assms have "d div 1000000000 < n"
    by (intro less_mult_imp_div_less) (simp add: secs_def)
  with False show ?thesis by (simp add: secs_up_def)
qed

lemma secs_up_pos: "0 < d \<Longrightarrow> 0 < secs_up d"
  unfolding secs_up_def by (cases "d mod 1000000000 = 0") auto

subsection \<open>Options\<close>

text \<open>\<open>Option::is_some_and\<close>.\<close>

definition is_some_and :: "('a \<Rightarrow> bool) \<Rightarrow> 'a option \<Rightarrow> bool" where
  "is_some_and P x = (case x of None \<Rightarrow> False | Some a \<Rightarrow> P a)"

lemma is_some_and_iff [simp]: "is_some_and P x \<longleftrightarrow> (\<exists>a. x = Some a \<and> P a)"
  by (simp add: is_some_and_def split: option.split)

subsection \<open>The error value of the panel (\<open>auth/error.rs\<close>)\<close>

record failure =
  status :: nat
  code :: string
  retry_after :: "nat option"

type_synonym 'a result = "failure + 'a"

definition failure_new :: "nat \<Rightarrow> string \<Rightarrow> failure" where
  "failure_new s c = \<lparr>status = s, code = c, retry_after = None\<rparr>"

definition rate_limited :: "nat \<Rightarrow> failure" where
  "rate_limited seconds = (failure_new 429 ''rate_limited'')\<lparr>retry_after := Some seconds\<rparr>"

definition unauthenticated :: failure where
  "unauthenticated = failure_new 401 ''unauthenticated''"

definition forbidden :: failure where
  "forbidden = failure_new 403 ''forbidden''"

definition bad_request :: "string \<Rightarrow> failure" where
  "bad_request c = failure_new 400 c"

definition invalid_request :: failure where
  "invalid_request = bad_request ''invalid_request''"

definition not_found :: "string \<Rightarrow> failure" where
  "not_found c = failure_new 404 c"

definition conflict :: "string \<Rightarrow> failure" where
  "conflict c = failure_new 409 c"

definition internal :: failure where
  "internal = failure_new 500 ''internal''"

lemmas failure_defs = rate_limited_def unauthenticated_def forbidden_def bad_request_def
  invalid_request_def not_found_def conflict_def internal_def failure_new_def

text \<open>The \<open>?\<close> operator: the first error ends the function.\<close>

definition and_then :: "'e + 'a \<Rightarrow> ('a \<Rightarrow> 'e + 'b) \<Rightarrow> 'e + 'b" where
  "and_then r f = (case r of Inl e \<Rightarrow> Inl e | Inr a \<Rightarrow> f a)"

lemma and_then_simps [simp]:
  "and_then (Inl e) f = Inl e" "and_then (Inr a) f = f a"
  by (simp_all add: and_then_def)

lemma and_then_Inr: "and_then r f = Inr b \<longleftrightarrow> (\<exists>a. r = Inr a \<and> f a = Inr b)"
  by (cases r) auto

lemma case_Inr: "(case r of Inl e \<Rightarrow> Inl (f e) | Inr a \<Rightarrow> Inr (g a)) = Inr b \<longleftrightarrow> (\<exists>a. r = Inr a \<and> g a = b)"
  by (cases r) simp_all

subsection \<open>SQL statements over a table of rows\<close>

definition fetch_optional :: "('r \<Rightarrow> bool) \<Rightarrow> 'r list \<Rightarrow> 'r option" where
  "fetch_optional p t = find p t"

definition count_where :: "('r \<Rightarrow> bool) \<Rightarrow> 'r list \<Rightarrow> nat" where
  "count_where p t = length (filter p t)"

definition update_where :: "('r \<Rightarrow> bool) \<Rightarrow> ('r \<Rightarrow> 'r) \<Rightarrow> 'r list \<Rightarrow> 'r list" where
  "update_where p f t = map (\<lambda>r. if p r then f r else r) t"

definition delete_where :: "('r \<Rightarrow> bool) \<Rightarrow> 'r list \<Rightarrow> 'r list" where
  "delete_where p t = filter (\<lambda>r. \<not> p r) t"

text \<open>\<open>ORDER BY \<dots>\<close> and \<open>ORDER BY \<dots> DESC\<close>; the keys used are unique in their tables.\<close>

definition order_by :: "('r \<Rightarrow> 'k::linorder) \<Rightarrow> 'r list \<Rightarrow> 'r list" where
  "order_by k t = sort_key k t"

definition order_by_desc :: "('r \<Rightarrow> 'k::linorder) \<Rightarrow> 'r list \<Rightarrow> 'r list" where
  "order_by_desc k t = rev (sort_key k t)"

lemma fetch_Some_iff [sql]: "distinct (map k t) \<Longrightarrow> r \<in> set t \<Longrightarrow>
    fetch_optional (\<lambda>x. k x = k r) t = Some r"
  by (induction t) (auto simp: fetch_optional_def)

lemma fetch_SomeD: "fetch_optional p t = Some r \<Longrightarrow> p r \<and> r \<in> set t"
  by (auto simp: fetch_optional_def find_Some_iff)

lemma fetch_None [sql]: "fetch_optional p t = None \<longleftrightarrow> (\<forall>r \<in> set t. \<not> p r)"
  by (auto simp: fetch_optional_def find_None_iff)

lemma fetch_update [sql]:
  assumes "\<And>r. p (f r) = p r" "\<And>r. q r \<Longrightarrow> p r"
  shows "fetch_optional p (update_where q f t) =
    map_option (\<lambda>r. if q r then f r else r) (fetch_optional p t)"
  using assms by (induction t) (auto simp: fetch_optional_def update_where_def)

lemma fetch_update_kept:
  "(\<And>r. p (f r) = p r) \<Longrightarrow> fetch_optional p (update_where q f t) =
    map_option (\<lambda>r. if q r then f r else r) (fetch_optional p t)"
  by (induction t) (auto simp: fetch_optional_def update_where_def)

lemma fetch_append: "fetch_optional p (t @ u) =
    (case fetch_optional p t of Some r \<Rightarrow> Some r | None \<Rightarrow> fetch_optional p u)"
  by (induction t) (auto simp: fetch_optional_def)

lemma set_update [sql]: "set (update_where p f t) = (\<lambda>r. if p r then f r else r) ` set t"
  by (simp add: update_where_def)

lemma in_update: "r \<in> set (update_where p f t) \<longleftrightarrow> (\<exists>r0 \<in> set t. r = (if p r0 then f r0 else r0))"
  by (auto simp: set_update)

lemma update_all:
  assumes "\<And>r. r \<in> set t \<Longrightarrow> p r \<Longrightarrow> q (f r)" "\<And>r. r \<in> set t \<Longrightarrow> \<not> p r \<Longrightarrow> q r"
  shows "\<forall>r \<in> set (update_where p f t). q r"
  using assms unfolding update_where_def by auto

lemma length_update [simp]: "length (update_where p f t) = length t"
  by (simp add: update_where_def)

lemma map_update [sql]: "(\<And>r. k (f r) = k r) \<Longrightarrow> map k (update_where p f t) = map k t"
  by (simp add: update_where_def comp_def if_distrib cong: if_cong)

lemma count_update [sql]:
  "(\<And>r. q (f r) = q r) \<Longrightarrow> count_where q (update_where p f t) = count_where q t"
  by (induction t) (auto simp: count_where_def update_where_def)

lemma set_delete [sql]: "set (delete_where p t) = {r \<in> set t. \<not> p r}"
  by (simp add: delete_where_def)

lemma distinct_delete [sql]: "distinct (map k t) \<Longrightarrow> distinct (map k (delete_where p t))"
  by (simp add: delete_where_def distinct_map_filter)

lemma set_order [sql]: "set (order_by k t) = set t" "set (order_by_desc k t) = set t"
  by (simp_all add: order_by_def order_by_desc_def)

lemma length_order [simp]: "length (order_by k t) = length t" "length (order_by_desc k t) = length t"
  by (simp_all add: order_by_def order_by_desc_def)

lemma count_where_le: "(\<And>r. p r \<Longrightarrow> q r) \<Longrightarrow> count_where p t \<le> count_where q t"
  by (induction t) (auto simp: count_where_def)

lemma count_le_filter: "count_where p (filter q xs) \<le> count_where p xs"
  by (induction xs) (auto simp: count_where_def)

text \<open>The first rows in descending order are those with few rows above them.\<close>

lemma in_take_desc:
  assumes "distinct (map k xs)" "r \<in> set xs"
  shows "r \<in> set (take n (order_by_desc k xs)) \<longleftrightarrow> card {x \<in> set xs. k r < k x} < n"
proof -
  let ?ys = "order_by_desc k xs"
  have dist: "distinct (map k (sort_key k xs))" using assms(1) by (simp add: distinct_map)
  have wrt: "sorted_wrt (\<lambda>x y. k y < k x) ?ys"
  proof -
    have "sorted_wrt (<) (map k (sort_key k xs))" using dist by (simp add: strict_sorted_iff)
    then show ?thesis by (simp add: order_by_desc_def sorted_wrt_rev sorted_wrt_map)
  qed
  obtain i where i: "i < length ?ys" "?ys ! i = r"
    using assms(2) by (metis in_set_conv_nth set_order(2))
  have order: "j < l \<Longrightarrow> l < length ?ys \<Longrightarrow> k (?ys ! l) < k (?ys ! j)" for j l
    using wrt by (simp add: sorted_wrt_iff_nth_less)
  have "{x \<in> set xs. k r < k x} = set (take i ?ys)"
  proof -
    have "x \<in> set (take i ?ys)" if "x \<in> set xs" "k r < k x" for x
    proof -
      obtain j where j: "j < length ?ys" "?ys ! j = x" using \<open>x \<in> set xs\<close> by (metis in_set_conv_nth set_order(2))
      have "j < i"
      proof (rule ccontr)
        assume "\<not> j < i"
        then have "j = i \<or> i < j" by auto
        with order [of i j] i j that(2) show False by auto
      qed
      with i j show ?thesis by (auto simp: in_set_conv_nth)
    qed
    moreover have "x \<in> set xs \<and> k r < k x" if tk: "x \<in> set (take i ?ys)" for x
    proof -
      have "x \<in> set ?ys" using tk by (rule in_set_takeD)
      then have "x \<in> set xs" by (simp add: set_order)
      moreover obtain j where "j < length (take i ?ys)" "take i ?ys ! j = x"
        using tk by (meson in_set_conv_nth)
      ultimately show ?thesis using order [of j i] i by auto
    qed
    ultimately show ?thesis by blast
  qed
  moreover have "distinct ?ys" using dist by (simp add: order_by_desc_def distinct_map)
  ultimately have "card {x \<in> set xs. k r < k x} = i" using i(1) by (simp add: distinct_card)
  moreover have "r \<in> set (take n ?ys) \<longleftrightarrow> i < n"
  proof
    assume "r \<in> set (take n ?ys)"
    then obtain j where "j < n" "j < length ?ys" "?ys ! j = r" by (auto simp: in_set_conv_nth)
    moreover from this have "j = i" using i \<open>distinct ?ys\<close> nth_eq_iff_index_eq by blast
    ultimately show "i < n" by simp
  next
    assume "i < n"
    with i show "r \<in> set (take n ?ys)" by (auto simp: in_set_conv_nth)
  qed
  ultimately show ?thesis by simp
qed

lemma count_pos_iff [sql]: "0 < count_where p t \<longleftrightarrow> (\<exists>r \<in> set t. p r)"
  by (auto simp: count_where_def filter_empty_conv)

lemma count_snoc [sql]: "count_where p (t @ [r]) = count_where p t + (if p r then 1 else 0)"
  by (simp add: count_where_def)

lemma count_zero_iff [sql]: "count_where p t = 0 \<longleftrightarrow> (\<forall>r \<in> set t. \<not> p r)"
  by (auto simp: count_where_def filter_empty_conv)

lemma count_distinct_le [sql]: "distinct (map k t) \<Longrightarrow> count_where (\<lambda>r. k r = i \<and> q r) t \<le> 1"
proof (induction t)
  case (Cons x t)
  show ?case
  proof (cases "k x = i")
    case True
    with Cons.prems have "k r \<noteq> i" if "r \<in> set t" for r
      using that by auto (metis image_eqI)
    then have "\<forall>r \<in> set t. \<not> (k r = i \<and> q r)" by blast
    then have "count_where (\<lambda>r. k r = i \<and> q r) t = 0" by (simp only: count_zero_iff simp_thms)
    then show ?thesis by (simp add: count_where_def)
  qed (use Cons in \<open>simp add: count_where_def\<close>)
qed (simp add: count_where_def)

text \<open>A single row with a given key changes: the count of a predicate moves by at most one.\<close>

lemma count_update_one [sql]:
  assumes "distinct (map k t)" "\<And>r. k (f r) = k r"
  shows "count_where q (update_where (\<lambda>r. k r = i \<and> p r) f t) \<le> count_where q t + 1"
  using assms
proof (induction t)
  case Nil
  then show ?case by (simp add: count_where_def update_where_def)
next
  case (Cons a t)
  show ?case
  proof (cases "k a = i")
    case True
    with Cons.prems(1) have "k r \<noteq> i" if "r \<in> set t" for r
      using that by auto (metis image_eqI)
    then have "update_where (\<lambda>r. k r = i \<and> p r) f t = t"
      by (simp add: update_where_def map_idI)
    then show ?thesis by (auto simp: count_where_def update_where_def)
  next
    case False
    with Cons show ?thesis by (auto simp: count_where_def update_where_def)
  qed
qed

subsection \<open>Text\<close>

definition utf8_len :: "nat \<Rightarrow> nat" where
  "utf8_len c = (if c < 128 then 1 else if c < 2048 then 2 else if c < 65536 then 3 else 4)"

definition byte_len :: "ustr \<Rightarrow> nat" where
  "byte_len s = sum_list (map utf8_len s)"

lemma utf8_len_pos [simp]: "0 < utf8_len c"
  by (simp add: utf8_len_def)

lemma byte_len_simps [simp]:
  "byte_len [] = 0" "byte_len (c # s) = utf8_len c + byte_len s"
  "byte_len (s @ t) = byte_len s + byte_len t"
  by (simp_all add: byte_len_def)

lemma length_le_byte_len: "length s \<le> byte_len s"
proof (induction s)
  case (Cons c s)
  then show ?case using utf8_len_pos [of c] by (simp del: utf8_len_pos)
qed simp

text \<open>\<open>char::is_control\<close> and \<open>char::is_whitespace\<close> (the \<open>White_Space\<close> property).\<close>

definition is_control :: "nat \<Rightarrow> bool" where
  "is_control c = (c < 32 \<or> 127 \<le> c \<and> c < 160)"

definition is_whitespace :: "nat \<Rightarrow> bool" where
  "is_whitespace c = (9 \<le> c \<and> c \<le> 13 \<or> c = 32 \<or> c = 133 \<or> c = 160 \<or> c = 5760 \<or>
     8192 \<le> c \<and> c \<le> 8202 \<or> c = 8232 \<or> c = 8233 \<or> c = 8239 \<or> c = 8287 \<or> c = 12288)"

definition trim_start :: "ustr \<Rightarrow> ustr" where
  "trim_start s = dropWhile is_whitespace s"

definition trim :: "ustr \<Rightarrow> ustr" where
  "trim s = rev (dropWhile is_whitespace (rev (trim_start s)))"

lemma set_trim: "set (trim s) \<subseteq> set s"
  unfolding trim_def trim_start_def
  by (metis dropWhile_eq_drop set_drop_subset set_rev subset_trans)

lemma trim_id:
  "s = [] \<or> \<not> is_whitespace (hd s) \<and> \<not> is_whitespace (last s) \<Longrightarrow> trim s = s"
  by (metis trim_def trim_start_def dropWhile_eq_self_iff hd_rev rev_rev_ident rev.simps(1)
      dropWhile.simps(1))

text \<open>\<open>split(c)\<close>: always at least one piece.\<close>

fun split_on :: "'a \<Rightarrow> 'a list \<Rightarrow> 'a list list" where
  "split_on c [] = [[]]"
| "split_on c (x # xs) =
     (if x = c then [] # split_on c xs
      else case split_on c xs of [] \<Rightarrow> [[x]] | p # ps \<Rightarrow> (x # p) # ps)"

fun join_with :: "'a list \<Rightarrow> 'a list list \<Rightarrow> 'a list" where
  "join_with sep [] = []"
| "join_with sep [p] = p"
| "join_with sep (p # q # ps) = p @ sep @ join_with sep (q # ps)"

lemma split_on_not_Nil [simp]: "split_on c xs \<noteq> []"
  by (induction xs) (auto split: list.splits)

lemma split_on_pieces [str]: "p \<in> set (split_on c xs) \<Longrightarrow> c \<notin> set p"
  by (induction xs arbitrary: p) (auto split: list.splits if_splits)

lemma split_on_subset [str]: "p \<in> set (split_on c xs) \<Longrightarrow> set p \<subseteq> set xs"
proof (induction xs arbitrary: p)
  case (Cons x xs)
  obtain q qs where q: "split_on c xs = q # qs" by (cases "split_on c xs") auto
  have "\<forall>r \<in> set (q # qs). set r \<subseteq> set xs" using Cons.IH unfolding q by blast
  with Cons.prems q show ?case by (auto split: if_splits)
qed simp

lemma split_on_plain [str]: "c \<notin> set p \<Longrightarrow> split_on c p = [p]"
  by (induction p) auto

lemma split_on_append [str]: "c \<notin> set p \<Longrightarrow> split_on c (p @ c # xs) = p # split_on c xs"
  by (induction p) auto

lemma join_split [str]: "join_with [c] (split_on c xs) = xs"
proof (induction xs)
  case (Cons x xs)
  obtain p ps where ps: "split_on c xs = p # ps" by (cases "split_on c xs") auto
  with Cons show ?case by (cases ps) auto
qed simp

lemma split_join [str]:
  "ps \<noteq> [] \<Longrightarrow> \<forall>p \<in> set ps. c \<notin> set p \<Longrightarrow> split_on c (join_with [c] ps) = ps"
proof (induction ps rule: induct_list012)
  case (3 p q ps)
  then show ?case using split_on_append [of c p] by simp
qed (auto simp: split_on_plain)

lemma join_with_Cons: "ps \<noteq> [] \<Longrightarrow> join_with sep (p # ps) = p @ sep @ join_with sep ps"
  by (cases ps) auto

text \<open>\<open>str::contains\<close>, \<open>str::starts_with\<close>, \<open>str::ends_with\<close>.\<close>

fun has_prefix :: "'a list \<Rightarrow> 'a list \<Rightarrow> bool" where
  "has_prefix [] _ = True"
| "has_prefix (p # ps) (x # xs) = (p = x \<and> has_prefix ps xs)"
| "has_prefix (p # ps) [] = False"

definition has_suffix :: "'a list \<Rightarrow> 'a list \<Rightarrow> bool" where
  "has_suffix p xs = has_prefix (rev p) (rev xs)"

fun contains :: "'a list \<Rightarrow> 'a list \<Rightarrow> bool" where
  "contains p [] = (p = [])"
| "contains p (x # xs) = (has_prefix p (x # xs) \<or> contains p xs)"

lemma has_prefix_iff [str]: "has_prefix p xs \<longleftrightarrow> prefix p xs"
  by (induction p xs rule: has_prefix.induct) auto

lemma contains_iff [str]: "contains p xs \<longleftrightarrow> (\<exists>a b. xs = a @ p @ b)"
proof (induction xs)
  case (Cons x xs)
  show ?case
  proof
    assume "contains p (x # xs)"
    then consider "prefix p (x # xs)" | "contains p xs" by (auto simp: has_prefix_iff)
    then show "\<exists>a b. x # xs = a @ p @ b"
    proof cases
      case 1
      then show ?thesis by (metis append_Nil prefixE)
    next
      case 2
      then show ?thesis using Cons.IH by (metis append_Cons)
    qed
  next
    assume "\<exists>a b. x # xs = a @ p @ b"
    then obtain a b where ab: "x # xs = a @ p @ b" by blast
    show "contains p (x # xs)"
    proof (cases a)
      case Nil
      with ab have "x # xs = p @ b" by simp
      then have "prefix p (x # xs)" by (rule prefixI)
      then show ?thesis by (simp only: contains.simps has_prefix_iff simp_thms)
    next
      case (Cons y a')
      with ab have "xs = a' @ p @ b" by simp
      with Cons.IH show ?thesis by auto
    qed
  qed
qed auto

text \<open>Whole numbers: \<open>to_string\<close> writes decimal digits, \<open>parse\<close> reads a sign and at least one
  digit and refuses what does not fit its type.\<close>

fun digits_of :: "nat \<Rightarrow> ustr" where
  "digits_of n = (if n < 10 then [48 + n] else digits_of (n div 10) @ [48 + n mod 10])"

declare digits_of.simps [simp del]

fun parse_digits :: "nat \<Rightarrow> ustr \<Rightarrow> nat option" where
  "parse_digits acc [] = Some acc"
| "parse_digits acc (c # cs) =
     (if 48 \<le> c \<and> c \<le> 57 then parse_digits (10 * acc + (c - 48)) cs else None)"

definition parse_magnitude :: "ustr \<Rightarrow> nat option" where
  "parse_magnitude s = (if s = [] then None else parse_digits 0 s)"

definition parse_u32 :: "ustr \<Rightarrow> nat option" where
  "parse_u32 s =
     (case parse_magnitude (case s of c # cs \<Rightarrow> if c = 43 then cs else s | [] \<Rightarrow> []) of
        None \<Rightarrow> None
      | Some n \<Rightarrow> if n < 2 ^ 32 then Some n else None)"

definition parse_i64 :: "ustr \<Rightarrow> int option" where
  "parse_i64 s =
     (case s of
        [] \<Rightarrow> None
      | c # cs \<Rightarrow>
          (case parse_magnitude (if c = 43 \<or> c = 45 then cs else s) of
             None \<Rightarrow> None
           | Some n \<Rightarrow> let v = (if c = 45 then - int n else int n)
                       in if - (2 ^ 63) \<le> v \<and> v < 2 ^ 63 then Some v else None))"

lemma parse_digits_append: "parse_digits acc (s @ t) = (case parse_digits acc s of None \<Rightarrow> None | Some a \<Rightarrow> parse_digits a t)"
  by (induction s arbitrary: acc) auto

lemma digits_ascii: "c \<in> set (digits_of n) \<Longrightarrow> 48 \<le> c \<and> c \<le> 57"
proof (induction n rule: digits_of.induct)
  case (1 n)
  then show ?case
    by (subst (asm) (2) digits_of.simps) (auto split: if_splits, linarith?)
qed

lemma parse_digits_of: "parse_digits 0 (digits_of n) = Some n"
proof (induction n rule: digits_of.induct)
  case (1 n)
  show ?case
  proof (cases "n < 10")
    case True
    then show ?thesis by (simp add: digits_of.simps)
  next
    case False
    moreover have "n mod 10 \<le> 9" by simp
    ultimately show ?thesis using 1 by (subst digits_of.simps) (simp add: parse_digits_append)
  qed
qed

lemma digits_of_not_Nil [simp]: "digits_of n \<noteq> []"
  by (subst digits_of.simps) simp

subsection \<open>The last elements of a list\<close>

definition last_n :: "nat \<Rightarrow> 'a list \<Rightarrow> 'a list" where
  "last_n n xs = drop (length xs - n) xs"

lemma last_n_simps [simp]:
  "last_n n [] = []" "length (last_n n xs) = min n (length xs)"
  by (auto simp: last_n_def)

lemma last_n_all: "length xs \<le> n \<Longrightarrow> last_n n xs = xs"
  by (simp add: last_n_def)

lemma last_n_append_last_n: "last_n n (last_n n xs @ ys) = last_n n (xs @ ys)"
  by (cases "length xs \<le> n") (auto simp: last_n_def add.commute)

end
