(* ===== verification/Proto.thy ===== *)
theory Proto
  imports Prelude
begin

text \<open>
  The two protocols of the program (\<open>craftpanel-proto/src/lib.rs\<close>): what the panel asks
  of the privileged helper, and what a supervisor and the panel say to each other, with the
  three functions that decide which names either side accepts. The lemmas show that an
  accepted account identifier is one path step, that it names exactly one system account, and
  that the account's name fits the limit Linux puts on user names.
\<close>

record resource_limits =
  memory_high_bytes :: "nat option"
  memory_max_bytes :: "nat option"
  cpu_quota_percent :: "nat option"
  rl_pids_max :: "nat option"

record spawn_request =
  sr_user_id :: ustr
  sr_server_id :: ustr
  sr_working_dir :: "ustr list"
  sr_program :: ustr
  sr_args :: "ustr list"
  sr_env :: "(ustr \<times> ustr) list"
  sr_supervisor_socket :: ustr
  sr_token :: ustr

datatype helper_request =
    Ping
  | CreateUser (cu_user_id: ustr)
  | DeleteUser (du_user_id: ustr) (remove_home: bool)
  | ApplyLimits (al_user_id: ustr) (al_limits: resource_limits)
  | Spawn (spawn_of: spawn_request)
  | ChownTree (ct_user_id: ustr) (ct_steps: "ustr list")

datatype helper_ok =
    Pong nat
  | UserCreated nat nat "ustr list"
  | UserDeleted
  | LimitsApplied
  | Spawned nat
  | TreeChowned nat

datatype helper_error_code =
    MalformedRequest | InvalidUserId | UnknownUser | UserExists | PathOutsideRoot
  | SpawnFailed | CgroupFailed | Internal

datatype helper_response = HOk helper_ok | HError helper_error_code

datatype output_stream = Stdout | Stderr

datatype supervisor_message =
    Hello (hello_server: ustr) (hello_token: ustr) (hello_pid: nat) (hello_protocol: nat)
  | Started nat
  | Output (out_seq: nat) (out_line: ustr) (out_stream: output_stream)
  | Exited (ex_code: "int option") (ex_signal: "int option") (ex_oom: bool)

datatype panel_message =
    Accepted
  | Rejected ustr
  | Stdin ustr
  | Stop "ustr option" nat
  | Kill

definition HELPER_PROTOCOL_VERSION :: nat where
  "HELPER_PROTOCOL_VERSION = 2"

definition SERVERS :: ustr where
  "SERVERS = lit ''servers''"

definition ascii_digit :: "nat \<Rightarrow> bool" where
  "ascii_digit c = (48 \<le> c \<and> c \<le> 57)"

definition ascii_upper :: "nat \<Rightarrow> bool" where
  "ascii_upper c = (65 \<le> c \<and> c \<le> 90)"

definition ascii_lower :: "nat \<Rightarrow> bool" where
  "ascii_lower c = (97 \<le> c \<and> c \<le> 122)"

definition to_ascii_lowercase :: "ustr \<Rightarrow> ustr" where
  "to_ascii_lowercase s = map (\<lambda>c. if ascii_upper c then c + 32 else c) s"

definition is_valid_user_id :: "ustr \<Rightarrow> bool" where
  "is_valid_user_id i = (byte_len i = 26 \<and> (\<forall>b \<in> set i. ascii_digit b \<or> ascii_upper b))"

definition system_username :: "ustr \<Rightarrow> ustr" where
  "system_username user_id = lit ''craft-'' @ to_ascii_lowercase user_id"

definition is_valid_step :: "ustr \<Rightarrow> bool" where
  "is_valid_step step = (step \<noteq> [] \<and> step \<noteq> lit ''.'' \<and> step \<noteq> lit ''..'' \<and>
     byte_len step \<le> 255 \<and> 47 \<notin> set step \<and> 0 \<notin> set step)"

subsection \<open>Names\<close>

lemma ascii_byte_len: "\<forall>c \<in> set s. c < 128 \<Longrightarrow> byte_len s = length s"
  by (induction s) (auto simp: utf8_len_def)

lemma valid_user_id_ascii: "is_valid_user_id i \<Longrightarrow> \<forall>c \<in> set i. c < 128"
  by (auto simp: is_valid_user_id_def ascii_digit_def ascii_upper_def)

lemma valid_user_id_length: "is_valid_user_id i \<Longrightarrow> length i = 26"
  using valid_user_id_ascii ascii_byte_len by (fastforce simp: is_valid_user_id_def)

lemma lowercase_inj:
  "\<forall>c \<in> set s. ascii_digit c \<or> ascii_upper c \<Longrightarrow> \<forall>c \<in> set t. ascii_digit c \<or> ascii_upper c \<Longrightarrow>
   to_ascii_lowercase s = to_ascii_lowercase t \<Longrightarrow> s = t"
proof (induction s arbitrary: t)
  case (Cons c s)
  then obtain d u where t: "t = d # u" by (cases t) (auto simp: to_ascii_lowercase_def)
  have "(if ascii_upper c then c + 32 else c) = (if ascii_upper d then d + 32 else d)"
    using Cons.prems(3) by (simp add: t to_ascii_lowercase_def)
  moreover have "ascii_digit c \<or> ascii_upper c" "ascii_digit d \<or> ascii_upper d"
    using Cons.prems(1,2) by (simp_all add: t)
  ultimately have "c = d"
    by (auto simp: ascii_digit_def ascii_upper_def split: if_splits)
  moreover have "s = u"
    using Cons.prems by (intro Cons.IH) (simp_all add: t to_ascii_lowercase_def)
  ultimately show ?case by (simp add: t)
qed (simp add: to_ascii_lowercase_def)

lemma lowercase_ascii:
  "\<forall>c \<in> set s. ascii_digit c \<or> ascii_upper c \<Longrightarrow>
   \<forall>c \<in> set (to_ascii_lowercase s). ascii_digit c \<or> ascii_lower c"
  by (auto simp: to_ascii_lowercase_def ascii_digit_def ascii_upper_def ascii_lower_def)

lemma valid_user_id_step: "is_valid_user_id i \<Longrightarrow> is_valid_step i"
  using valid_user_id_length [of i]
  by (auto simp: is_valid_user_id_def is_valid_step_def lit_def ascii_digit_def ascii_upper_def)

lemma system_username_length: "is_valid_user_id i \<Longrightarrow> byte_len (system_username i) = 32"
proof -
  assume i: "is_valid_user_id i"
  then have "\<forall>c \<in> set (to_ascii_lowercase i). c < 128"
    using lowercase_ascii [of i]
    by (auto simp: is_valid_user_id_def ascii_digit_def ascii_lower_def)
  moreover have "length (to_ascii_lowercase i) = 26"
    using valid_user_id_length [OF i] by (simp add: to_ascii_lowercase_def)
  ultimately show ?thesis
    by (simp add: system_username_def ascii_byte_len lit_def utf8_len_def)
qed

lemma system_username_inj:
  "is_valid_user_id i \<Longrightarrow> is_valid_user_id j \<Longrightarrow> system_username i = system_username j \<Longrightarrow> i = j"
  using lowercase_inj [of i j] by (simp add: system_username_def is_valid_user_id_def)

end
