(* ===== verification/Paths.thy ===== *)
theory Paths
  imports Proto
begin

text \<open>
  The paths a caller may name inside a server's directory (\<open>files/path.rs\<close>). A
  \<open>RelPath\<close> is the list of its segments; \<open>parse\<close> is the only way in for text that
  came over the wire, \<open>child\<close> the only one for a single new name. The invariant is
  \<open>valid_path\<close>: every segment is one step, and the bounds on depth and length hold. The
  lemmas show that the constructors establish it, that \<open>join\<close> and \<open>parent\<close> keep
  it, and that a valid path survives the way over the wire and back.
\<close>

definition MAX_SEGMENT_BYTES :: nat where "MAX_SEGMENT_BYTES = 255"
definition MAX_PATH_BYTES :: nat where "MAX_PATH_BYTES = 4096"
definition MAX_DEPTH :: nat where "MAX_DEPTH = 64"

datatype path_fault = InvalidPath | TooLong | BadName

fun fault_code :: "path_fault \<Rightarrow> string" where
  "fault_code InvalidPath = ''invalid_path''"
| "fault_code TooLong = ''path_too_long''"
| "fault_code BadName = ''invalid_name''"

type_synonym rel_path = "ustr list"

definition root :: rel_path where
  "root = []"

text \<open>The loop over the pieces of \<open>raw.split('/')\<close>.\<close>

fun parse_pieces :: "ustr list \<Rightarrow> path_fault + ustr list" where
  "parse_pieces [] = Inr []"
| "parse_pieces (piece # rest) =
     (if piece = [] \<or> piece = lit ''.'' then parse_pieces rest
      else if piece = lit ''..'' then Inl InvalidPath
      else if byte_len piece > MAX_SEGMENT_BYTES then Inl TooLong
      else and_then (parse_pieces rest) (\<lambda>segments. Inr (piece # segments)))"

definition joined_len :: "ustr list \<Rightarrow> nat" where
  "joined_len segments = sum_list (map (\<lambda>s. byte_len s + 1) segments)"

definition parse :: "ustr \<Rightarrow> path_fault + rel_path" where
  "parse raw =
     (if 0 \<in> set raw then Inl InvalidPath
      else if byte_len raw > MAX_PATH_BYTES then Inl TooLong
      else and_then (parse_pieces (split_on 47 raw)) (\<lambda>segments.
        if length segments > MAX_DEPTH then Inl TooLong
        else if joined_len segments > MAX_PATH_BYTES then Inl TooLong
        else Inr segments))"

definition is_root :: "rel_path \<Rightarrow> bool" where
  "is_root p = (p = [])"

definition depth :: "rel_path \<Rightarrow> nat" where
  "depth p = length p"

definition path_name :: "rel_path \<Rightarrow> ustr option" where
  "path_name p = (if p = [] then None else Some (last p))"

definition parent :: "rel_path \<Rightarrow> rel_path" where
  "parent p = butlast p"

definition join :: "rel_path \<Rightarrow> rel_path \<Rightarrow> path_fault + rel_path" where
  "join p q =
     (let segments = p @ q in
      if length segments > MAX_DEPTH then Inl TooLong
      else if joined_len segments > MAX_PATH_BYTES then Inl TooLong
      else Inr segments)"

definition check_name :: "ustr \<Rightarrow> path_fault + unit" where
  "check_name name =
     (if name = [] \<or> name = lit ''.'' \<or> name = lit ''..'' then Inl BadName
      else if 47 \<in> set name \<or> 0 \<in> set name \<or> (\<exists>c \<in> set name. is_control c) then Inl BadName
      else if byte_len name > MAX_SEGMENT_BYTES then Inl TooLong
      else Inr ())"

definition child :: "rel_path \<Rightarrow> ustr \<Rightarrow> path_fault + rel_path" where
  "child p name = and_then (check_name name) (\<lambda>_. join p [name])"

definition with_name :: "rel_path \<Rightarrow> ustr \<Rightarrow> rel_path" where
  "with_name p name = p @ [name]"

definition starts_with :: "rel_path \<Rightarrow> rel_path \<Rightarrow> bool" where
  "starts_with p other =
     (length other \<le> length p \<and> list_all (\<lambda>(a, b). a = b) (zip other p))"

definition on_the_wire :: "rel_path \<Rightarrow> ustr" where
  "on_the_wire p = 47 # join_with [47] p"

definition beneath_root :: "rel_path \<Rightarrow> ustr" where
  "beneath_root p = (if p = [] then lit ''.'' else join_with [47] p)"

subsection \<open>The invariant\<close>

definition valid_path :: "rel_path \<Rightarrow> bool" where
  "valid_path p = ((\<forall>s \<in> set p. is_valid_step s) \<and> length p \<le> MAX_DEPTH \<and>
     joined_len p \<le> MAX_PATH_BYTES)"

lemma joined_len_append [simp]: "joined_len (p @ q) = joined_len p + joined_len q"
  by (simp add: joined_len_def)

lemma joined_len_simps [simp]:
  "joined_len [] = 0" "joined_len (s # p) = byte_len s + 1 + joined_len p"
  by (simp_all add: joined_len_def)

lemma parse_pieces_steps:
  assumes "parse_pieces ps = Inr segments"
    "\<forall>p \<in> set ps. 47 \<notin> set p \<and> 0 \<notin> set p"
  shows "\<forall>s \<in> set segments. is_valid_step s \<and> s \<in> set ps"
  using assms
proof (induction ps arbitrary: segments)
  case (Cons p ps)
  then show ?case
    by (fastforce simp: and_then_Inr is_valid_step_def MAX_SEGMENT_BYTES_def split: if_splits)
qed simp

lemma parse_pieces_id:
  "\<forall>s \<in> set p. is_valid_step s \<Longrightarrow> parse_pieces p = Inr p"
  by (induction p) (auto simp: is_valid_step_def MAX_SEGMENT_BYTES_def)

lemma parse_valid: "parse raw = Inr p \<Longrightarrow> valid_path p"
proof -
  assume p: "parse raw = Inr p"
  then have "0 \<notin> set raw" and pieces: "parse_pieces (split_on 47 raw) = Inr p"
    and bounds: "length p \<le> MAX_DEPTH" "joined_len p \<le> MAX_PATH_BYTES"
    by (auto simp: parse_def and_then_Inr split: if_splits)
  have "\<forall>q \<in> set (split_on 47 raw). 47 \<notin> set q \<and> 0 \<notin> set q"
    using split_on_pieces [of _ 47 raw] split_on_subset [of _ 47 raw] \<open>0 \<notin> set raw\<close> by blast
  from parse_pieces_steps [OF pieces this] have "\<forall>s \<in> set p. is_valid_step s" by blast
  with bounds show ?thesis by (simp only: valid_path_def simp_thms)
qed

lemma byte_len_join: "byte_len (join_with [47] p) + 1 \<le> joined_len p \<or> p = []"
  by (induction p rule: induct_list012) (auto simp: utf8_len_def)

lemma parse_on_the_wire: "valid_path p \<Longrightarrow> parse (on_the_wire p) = Inr p"
proof -
  assume v: "valid_path p"
  have "set (join_with [47] p) \<subseteq> {47} \<union> \<Union> (set ` set p)"
    by (induction p rule: induct_list012) auto
  with v have "0 \<notin> set (on_the_wire p)"
    by (auto simp: on_the_wire_def valid_path_def is_valid_step_def)
  moreover have "byte_len (on_the_wire p) \<le> MAX_PATH_BYTES"
    using byte_len_join [of p] v
    by (auto simp: on_the_wire_def valid_path_def utf8_len_def MAX_PATH_BYTES_def)
  moreover have "parse_pieces (split_on 47 (on_the_wire p)) = Inr p"
  proof (cases "p = []")
    case False
    with v show ?thesis
      by (simp add: on_the_wire_def split_join parse_pieces_id valid_path_def is_valid_step_def)
  qed (simp add: on_the_wire_def)
  ultimately show ?thesis using v by (simp add: parse_def valid_path_def)
qed

lemma join_valid: "valid_path p \<Longrightarrow> valid_path q \<Longrightarrow> join p q = Inr r \<Longrightarrow> valid_path r"
  by (auto simp: join_def valid_path_def Let_def split: if_splits)

lemma starts_with_prefix: "starts_with p q \<longleftrightarrow> prefix q p"
proof (induction q arbitrary: p)
  case (Cons a q)
  then show ?case by (cases p) (auto simp: starts_with_def)
qed (simp add: starts_with_def)

lemma join_starts_with: "join p q = Inr r \<Longrightarrow> starts_with r p \<and> drop (depth p) r = q"
  by (auto simp: join_def starts_with_prefix depth_def Let_def split: if_splits)

lemma check_name_step: "check_name name = Inr () \<longleftrightarrow>
    is_valid_step name \<and> (\<forall>c \<in> set name. \<not> is_control c)"
  by (auto simp: check_name_def is_valid_step_def MAX_SEGMENT_BYTES_def)

lemma joined_len_one: "is_valid_step s \<Longrightarrow> valid_path [s]"
  by (simp add: valid_path_def MAX_DEPTH_def MAX_PATH_BYTES_def is_valid_step_def)

lemma child_valid:
  "valid_path p \<Longrightarrow> child p name = Inr r \<Longrightarrow>
   valid_path r \<and> path_name r = Some name \<and> parent r = p"
  using join_valid [OF _ joined_len_one]
  by (auto simp: child_def and_then_Inr check_name_step join_def path_name_def parent_def Let_def
      split: if_splits)

lemma parent_valid: "valid_path p \<Longrightarrow> valid_path (parent p)"
  unfolding parent_def
  by (cases p rule: rev_cases) (auto simp: valid_path_def)

end
