(* ===== verification/Model.thy ===== *)
theory Model
  imports Prelude "HOL-Library.Word"
begin

unbundle bit_operations_syntax

text \<open>
  The wire vocabulary of the panel (\<open>model.rs\<close>): the enumerations that the macro
  \<open>wire_enum!\<close> declares, each with its variants, \<open>ALL\<close> and \<open>as_str\<close>; the tables over
  them (which operations make a server busy, may be cancelled, retried or run beside a live
  server); and the permission masks, 64-bit words with one bit per permission.

  \<open>from_str\<close> is the same code for every enumeration, so it is one definition here and its
  round trip is proved once, in the locale \<open>wire_enum\<close>, for every enumeration it is
  interpreted on.
\<close>

subsection \<open>\<open>wire_enum!\<close>\<close>

definition from_str :: "'v list \<Rightarrow> ('v \<Rightarrow> ustr) \<Rightarrow> ustr \<Rightarrow> 'v option" where
  "from_str all as_str t = find (\<lambda>v. as_str v = t) all"

locale wire_enum =
  fixes all :: "'v list" and as_str :: "'v \<Rightarrow> ustr"
  assumes all_complete: "v \<in> set all"
    and texts_distinct: "distinct (map as_str all)"
begin

lemma as_str_inj: "as_str v = as_str w \<Longrightarrow> v = w"
  using texts_distinct all_complete by (auto simp: distinct_map dest: inj_onD)

lemma from_as_str: "from_str all as_str (as_str v) = Some v"
proof (cases "from_str all as_str (as_str v)")
  case None
  then show ?thesis using all_complete [of v] by (auto simp: from_str_def find_None_iff)
next
  case (Some w)
  then have "as_str w = as_str v" by (auto simp: from_str_def find_Some_iff)
  with Some as_str_inj show ?thesis by blast
qed

lemma from_str_Some: "from_str all as_str t = Some v \<longleftrightarrow> t = as_str v"
  using from_as_str by (auto simp: from_str_def find_Some_iff)

end

datatype panel_role = Admin | User

definition panel_role_all :: "panel_role list" where
  "panel_role_all = [Admin, User]"

fun panel_role_str :: "panel_role \<Rightarrow> ustr" where
  "panel_role_str Admin = lit ''admin''"
| "panel_role_str User = lit ''user''"

interpretation panel_role: wire_enum panel_role_all panel_role_str
proof
  show "v \<in> set panel_role_all" for v by (cases v) (simp_all add: panel_role_all_def)
qed (simp add: panel_role_all_def lit_def)

datatype server_role = Owner | Editor | Viewer

definition server_role_all :: "server_role list" where
  "server_role_all = [Owner, Editor, Viewer]"

fun server_role_str :: "server_role \<Rightarrow> ustr" where
  "server_role_str Owner = lit ''owner''"
| "server_role_str Editor = lit ''editor''"
| "server_role_str Viewer = lit ''viewer''"

interpretation server_role: wire_enum server_role_all server_role_str
proof
  show "v \<in> set server_role_all" for v by (cases v) (simp_all add: server_role_all_def)
qed (simp add: server_role_all_def lit_def)

datatype permission =
    BaseRead | PowerActions | ExecCommands | FilesWrite | Setup | Backups | Advanced
  | ResetServer | ManageUsers | ServerAdmin

definition permission_all :: "permission list" where
  "permission_all = [BaseRead, PowerActions, ExecCommands, FilesWrite, Setup, Backups, Advanced,
     ResetServer, ManageUsers, ServerAdmin]"

fun permission_str :: "permission \<Rightarrow> ustr" where
  "permission_str BaseRead = lit ''BASE_READ''"
| "permission_str PowerActions = lit ''POWER_ACTIONS''"
| "permission_str ExecCommands = lit ''EXEC_COMMANDS''"
| "permission_str FilesWrite = lit ''FILES_WRITE''"
| "permission_str Setup = lit ''SETUP''"
| "permission_str Backups = lit ''BACKUPS''"
| "permission_str Advanced = lit ''ADVANCED''"
| "permission_str ResetServer = lit ''RESET_SERVER''"
| "permission_str ManageUsers = lit ''MANAGE_USERS''"
| "permission_str ServerAdmin = lit ''SERVER_ADMIN''"

interpretation permission: wire_enum permission_all permission_str
proof
  show "v \<in> set permission_all" for v by (cases v) (simp_all add: permission_all_def)
qed (simp add: permission_all_def lit_def)

datatype operation_kind =
    OpServerCreate | OpServerDelete | OpInstallLoader | OpRepairContent | OpResetServer
  | OpInstallModpack | OpInstallContent | OpUpdateContent | OpChangeGameVersion
  | OpInstallJava | OpBackupCreate | OpBackupRestore | OpUnarchive

definition operation_kind_all :: "operation_kind list" where
  "operation_kind_all = [OpServerCreate, OpServerDelete, OpInstallLoader, OpRepairContent,
     OpResetServer, OpInstallModpack, OpInstallContent, OpUpdateContent, OpChangeGameVersion,
     OpInstallJava, OpBackupCreate, OpBackupRestore, OpUnarchive]"

fun operation_kind_str :: "operation_kind \<Rightarrow> ustr" where
  "operation_kind_str OpServerCreate = lit ''server_create''"
| "operation_kind_str OpServerDelete = lit ''server_delete''"
| "operation_kind_str OpInstallLoader = lit ''install_loader''"
| "operation_kind_str OpRepairContent = lit ''repair_content''"
| "operation_kind_str OpResetServer = lit ''reset_server''"
| "operation_kind_str OpInstallModpack = lit ''install_modpack''"
| "operation_kind_str OpInstallContent = lit ''install_content''"
| "operation_kind_str OpUpdateContent = lit ''update_content''"
| "operation_kind_str OpChangeGameVersion = lit ''change_game_version''"
| "operation_kind_str OpInstallJava = lit ''install_java''"
| "operation_kind_str OpBackupCreate = lit ''backup_create''"
| "operation_kind_str OpBackupRestore = lit ''backup_restore''"
| "operation_kind_str OpUnarchive = lit ''unarchive''"

interpretation operation_kind: wire_enum operation_kind_all operation_kind_str
proof
  show "v \<in> set operation_kind_all" for v by (cases v) (simp_all add: operation_kind_all_def)
qed (simp add: operation_kind_all_def lit_def)

datatype operation_state = Queued | Ongoing | Done | Failed | Cancelled

definition operation_state_all :: "operation_state list" where
  "operation_state_all = [Queued, Ongoing, Done, Failed, Cancelled]"

fun operation_state_str :: "operation_state \<Rightarrow> ustr" where
  "operation_state_str Queued = lit ''queued''"
| "operation_state_str Ongoing = lit ''ongoing''"
| "operation_state_str Done = lit ''done''"
| "operation_state_str Failed = lit ''failed''"
| "operation_state_str Cancelled = lit ''cancelled''"

interpretation operation_state: wire_enum operation_state_all operation_state_str
proof
  show "v \<in> set operation_state_all" for v by (cases v) (simp_all add: operation_state_all_def)
qed (simp add: operation_state_all_def lit_def)

datatype operation_phase =
    Analyzing | InstallingLoader | Verifying | RunningInstaller | InstallingJava
  | InstallingPack | Addons | WritingConfig

datatype operation_error_step = StepModloader | StepModpack | StepDownload | StepFilesystem | StepInternal

datatype busy_reason =
    BusyInstalling | BusySyncingContent | BusyBackupCreating | BusyBackupRestoring | BusyDeleting

definition busy_reason_all :: "busy_reason list" where
  "busy_reason_all = [BusyInstalling, BusySyncingContent, BusyBackupCreating,
     BusyBackupRestoring, BusyDeleting]"

fun busy_reason_str :: "busy_reason \<Rightarrow> ustr" where
  "busy_reason_str BusyInstalling = lit ''installing''"
| "busy_reason_str BusySyncingContent = lit ''syncing_content''"
| "busy_reason_str BusyBackupCreating = lit ''backup_creating''"
| "busy_reason_str BusyBackupRestoring = lit ''backup_restoring''"
| "busy_reason_str BusyDeleting = lit ''deleting''"

interpretation busy_reason: wire_enum busy_reason_all busy_reason_str
proof
  show "v \<in> set busy_reason_all" for v by (cases v) (simp_all add: busy_reason_all_def)
qed (simp add: busy_reason_all_def lit_def)

text \<open>\<open>#[derive(PartialOrd, Ord)]\<close>: the order of the declaration.\<close>

fun busy_rank :: "busy_reason \<Rightarrow> nat" where
  "busy_rank BusyInstalling = 0"
| "busy_rank BusySyncingContent = 1"
| "busy_rank BusyBackupCreating = 2"
| "busy_rank BusyBackupRestoring = 3"
| "busy_rank BusyDeleting = 4"

lemma busy_rank_inj: "busy_rank a = busy_rank b \<Longrightarrow> a = b"
  by (cases a; cases b) simp_all

instantiation busy_reason :: linorder
begin

definition less_eq_busy_reason :: "busy_reason \<Rightarrow> busy_reason \<Rightarrow> bool" where
  "less_eq_busy_reason a b = (busy_rank a \<le> busy_rank b)"

definition less_busy_reason :: "busy_reason \<Rightarrow> busy_reason \<Rightarrow> bool" where
  "less_busy_reason a b = (busy_rank a < busy_rank b)"

instance
  by standard (auto simp: less_eq_busy_reason_def less_busy_reason_def dest: busy_rank_inj)

end

datatype server_status = ServerInstalling | ServerAvailable | ServerBroken | ServerDeleting

datatype loader_id =
    Vanilla | Paper | Folia | Purpur | Leaf | Fabric | Velocity | NeoForge | Quilt | Forge

definition loader_id_all :: "loader_id list" where
  "loader_id_all = [Vanilla, Paper, Folia, Purpur, Leaf, Fabric, Velocity, NeoForge, Quilt, Forge]"

fun loader_id_str :: "loader_id \<Rightarrow> ustr" where
  "loader_id_str Vanilla = lit ''vanilla''"
| "loader_id_str Paper = lit ''paper''"
| "loader_id_str Folia = lit ''folia''"
| "loader_id_str Purpur = lit ''purpur''"
| "loader_id_str Leaf = lit ''leaf''"
| "loader_id_str Fabric = lit ''fabric''"
| "loader_id_str Velocity = lit ''velocity''"
| "loader_id_str NeoForge = lit ''neoforge''"
| "loader_id_str Quilt = lit ''quilt''"
| "loader_id_str Forge = lit ''forge''"

interpretation loader_id: wire_enum loader_id_all loader_id_str
proof
  show "v \<in> set loader_id_all" for v by (cases v) (simp_all add: loader_id_all_def)
qed (simp add: loader_id_all_def lit_def)

datatype backup_status = BPending | BInProgress | BTimedOut | BError | BDone

datatype backup_operation_type = RunCreate | RunRestore

datatype backup_operation_state =
    RunPending | RunOngoing | RunCompleted | RunCancelled | RunFailed | RunTimedOut

datatype backup_schedule_status =
    ScheduleCompleted | ScheduleFailed | ScheduleTimedOut | SkippedUnchanged | SkippedLimit

datatype backup_location = Local | Drive

datatype drive_file_state = DrivePresent | DriveMissing | DriveTrashed | DriveUnreachable

datatype registration_state = EmailUnverified | AwaitingApproval

definition registration_state_all :: "registration_state list" where
  "registration_state_all = [EmailUnverified, AwaitingApproval]"

fun registration_state_str :: "registration_state \<Rightarrow> ustr" where
  "registration_state_str EmailUnverified = lit ''email_unverified''"
| "registration_state_str AwaitingApproval = lit ''awaiting_approval''"

interpretation registration_state: wire_enum registration_state_all registration_state_str
proof
  show "v \<in> set registration_state_all" for v
    by (cases v) (simp_all add: registration_state_all_def)
qed (simp add: registration_state_all_def lit_def)

datatype system_user_state = Provisioning | Ready | SystemError

datatype account_origin = ByAdmin | ByRegistration

subsection \<open>Tables over the operations\<close>

fun kind_busy_reason :: "operation_kind \<Rightarrow> busy_reason option" where
  "kind_busy_reason OpServerDelete = Some BusyDeleting"
| "kind_busy_reason OpInstallContent = Some BusySyncingContent"
| "kind_busy_reason OpUpdateContent = Some BusySyncingContent"
| "kind_busy_reason OpBackupCreate = Some BusyBackupCreating"
| "kind_busy_reason OpBackupRestore = Some BusyBackupRestoring"
| "kind_busy_reason OpUnarchive = None"
| "kind_busy_reason _ = Some BusyInstalling"

definition is_cancellable :: "operation_kind \<Rightarrow> bool" where
  "is_cancellable k = (k \<in> {OpServerCreate, OpBackupCreate, OpBackupRestore, OpUnarchive})"

definition is_retryable :: "operation_kind \<Rightarrow> bool" where
  "is_retryable k = (k \<notin> {OpUnarchive, OpServerDelete, OpBackupCreate, OpBackupRestore})"

definition allows_running_server :: "operation_kind \<Rightarrow> bool" where
  "allows_running_server k =
     (k \<in> {OpInstallJava, OpInstallContent, OpUpdateContent, OpBackupCreate, OpUnarchive})"

definition is_terminal :: "operation_state \<Rightarrow> bool" where
  "is_terminal s = (s \<in> {Done, Failed, Cancelled})"

definition is_open :: "operation_state \<Rightarrow> bool" where
  "is_open s = (\<not> is_terminal s)"

lemma is_open_iff: "is_open s \<longleftrightarrow> s = Queued \<or> s = Ongoing"
  by (cases s) (simp_all add: is_open_def is_terminal_def)

fun run_kind :: "backup_operation_type \<Rightarrow> operation_kind" where
  "run_kind RunCreate = OpBackupCreate"
| "run_kind RunRestore = OpBackupRestore"

fun run_type_of :: "operation_kind \<Rightarrow> backup_operation_type option" where
  "run_type_of OpBackupCreate = Some RunCreate"
| "run_type_of OpBackupRestore = Some RunRestore"
| "run_type_of _ = None"

fun run_state_of :: "operation_state \<Rightarrow> string option \<Rightarrow> backup_operation_state" where
  "run_state_of Queued _ = RunPending"
| "run_state_of Ongoing _ = RunOngoing"
| "run_state_of Done _ = RunCompleted"
| "run_state_of Cancelled _ = RunCancelled"
| "run_state_of Failed error_code =
     (if error_code = Some ''timeout'' then RunTimedOut else RunFailed)"

fun backup_status_of :: "backup_operation_state \<Rightarrow> backup_status" where
  "backup_status_of RunPending = BPending"
| "backup_status_of RunOngoing = BInProgress"
| "backup_status_of RunCompleted = BDone"
| "backup_status_of RunFailed = BError"
| "backup_status_of RunTimedOut = BTimedOut"
| "backup_status_of RunCancelled = BDone"

datatype loader_family = FamilyVanilla | FamilyBukkit | FamilyModloader | FamilyProxy

fun family_of :: "loader_id \<Rightarrow> loader_family" where
  "family_of Vanilla = FamilyVanilla"
| "family_of Paper = FamilyBukkit"
| "family_of Folia = FamilyBukkit"
| "family_of Purpur = FamilyBukkit"
| "family_of Leaf = FamilyBukkit"
| "family_of Velocity = FamilyProxy"
| "family_of _ = FamilyModloader"

subsection \<open>Permission masks\<close>

type_synonym permissions = "64 word"

fun permission_bits :: "permission \<Rightarrow> permissions" where
  "permission_bits BaseRead = push_bit 63 1"
| "permission_bits PowerActions = push_bit 62 1"
| "permission_bits ExecCommands = push_bit 61 1"
| "permission_bits FilesWrite = push_bit 60 1"
| "permission_bits Setup = push_bit 59 1"
| "permission_bits Backups = push_bit 58 1"
| "permission_bits Advanced = push_bit 57 1"
| "permission_bits ResetServer = push_bit 56 1"
| "permission_bits ManageUsers = push_bit 55 1"
| "permission_bits ServerAdmin = (- 1) XOR (push_bit 15 1 - 1)"

definition perm_none :: permissions where
  "perm_none = 0"

definition perm_of :: "permission \<Rightarrow> permissions" where
  "perm_of p = permission_bits p"

definition perm_union :: "permissions \<Rightarrow> permissions \<Rightarrow> permissions" where
  "perm_union a b = a OR b"

definition allows :: "permissions \<Rightarrow> permission \<Rightarrow> bool" where
  "allows m p = (let wanted = permission_bits p in m AND wanted = wanted)"

fun perm_from_role :: "server_role \<Rightarrow> permissions" where
  "perm_from_role Owner = permission_bits ServerAdmin"
| "perm_from_role Editor = permission_bits BaseRead OR permission_bits PowerActions
     OR permission_bits ExecCommands OR permission_bits FilesWrite OR permission_bits Setup
     OR permission_bits Backups OR permission_bits Advanced"
| "perm_from_role Viewer = permission_bits BaseRead OR permission_bits PowerActions"

definition perm_role :: "permissions \<Rightarrow> server_role" where
  "perm_role m =
     (if allows m ServerAdmin then Owner
      else if allows m ExecCommands \<or> allows m FilesWrite \<or> allows m Setup \<or> allows m Backups
        \<or> allows m Advanced \<or> allows m ResetServer then Editor
      else Viewer)"

text \<open>\<open>Display\<close> and \<open>FromStr\<close> of a mask.\<close>

definition perm_display :: "permissions \<Rightarrow> ustr" where
  "perm_display m =
     (if allows m ServerAdmin then permission_str ServerAdmin
      else join_with (lit '' | '')
        (map permission_str (filter (\<lambda>p. m AND permission_bits p = permission_bits p)
          permission_all)))"

fun perm_parse_names :: "permissions \<Rightarrow> ustr list \<Rightarrow> permissions option" where
  "perm_parse_names granted [] = Some granted"
| "perm_parse_names granted (name # names) =
     (case from_str permission_all permission_str name of
        None \<Rightarrow> None
      | Some p \<Rightarrow> perm_parse_names (perm_union granted (perm_of p)) names)"

definition perm_parse :: "ustr \<Rightarrow> permissions option" where
  "perm_parse t = perm_parse_names perm_none
     (filter (\<lambda>name. name \<noteq> []) (map trim (split_on 124 t)))"

lemma server_admin_covers: "permission_bits p AND permission_bits ServerAdmin = permission_bits p"
  by (cases p) simp_all

lemma allows_of: "allows m p \<longleftrightarrow> (\<forall>n. bit (permission_bits p) n \<longrightarrow> bit m n)"
proof
  assume "allows m p"
  then have "bit (m AND permission_bits p) n = bit (permission_bits p) n" for n
    by (simp only: allows_def Let_def)
  then show "\<forall>n. bit (permission_bits p) n \<longrightarrow> bit m n" by (simp only: bit_and_iff) blast
next
  assume "\<forall>n. bit (permission_bits p) n \<longrightarrow> bit m n"
  then have "m AND permission_bits p = permission_bits p"
    by (intro bit_eqI) (auto simp: bit_and_iff)
  then show "allows m p" by (simp only: allows_def Let_def)
qed

lemma allows_union: "allows m p \<Longrightarrow> allows (perm_union m n) p"
  by (auto simp: allows_of perm_union_def bit_or_iff)

lemma server_admin_allows: "allows (permission_bits ServerAdmin) p"
  using server_admin_covers [of p] by (simp add: allows_def Let_def and.commute)

lemma role_of_from_role: "perm_role (perm_from_role r) = r"
  by (cases r) (simp_all add: perm_role_def allows_def Let_def)

lemma from_role_reads: "allows (perm_from_role r) BaseRead"
  by (cases r) (simp_all add: allows_def Let_def)

text \<open>The mask a list of named permissions makes, and the bits it has.\<close>

definition mask_of :: "permission list \<Rightarrow> permissions" where
  "mask_of ps = fold (\<lambda>p m. perm_union m (perm_of p)) ps perm_none"

lemma bit_fold_union:
  "bit (fold (\<lambda>p m. perm_union m (perm_of p)) ps m) n \<longleftrightarrow>
     bit m n \<or> (\<exists>p \<in> set ps. bit (permission_bits p) n)"
  by (induction ps arbitrary: m) (auto simp: perm_union_def perm_of_def bit_or_iff)

lemma bit_mask_of: "bit (mask_of ps) n \<longleftrightarrow> (\<exists>p \<in> set ps. bit (permission_bits p) n)"
  by (simp add: mask_of_def perm_none_def bit_fold_union)

lemma mask_of_granted: "mask_of (filter (allows (mask_of ps)) permission_all) = mask_of ps"
proof (rule bit_eqI)
  fix n
  have "allows (mask_of ps) p" if "p \<in> set ps" for p
    using that by (auto simp: allows_of bit_mask_of)
  then show "bit (mask_of (filter (allows (mask_of ps)) permission_all)) n = bit (mask_of ps) n"
    using permission.all_complete by (auto simp: bit_mask_of allows_of)
qed

lemma mask_of_admin: "allows (mask_of ps) ServerAdmin \<Longrightarrow> mask_of ps = permission_bits ServerAdmin"
proof (rule bit_eqI)
  fix n
  assume a: "allows (mask_of ps) ServerAdmin"
  have "bit (permission_bits p) n \<Longrightarrow> bit (permission_bits ServerAdmin) n" for p
    using server_admin_allows by (simp add: allows_of)
  with a show "bit (mask_of ps) n = bit (permission_bits ServerAdmin) n"
    by (auto simp: allows_of bit_mask_of)
qed

lemma parse_names_strs:
  "perm_parse_names m (map permission_str ps) = Some (fold (\<lambda>p m. perm_union m (perm_of p)) ps m)"
  by (induction ps arbitrary: m) (simp_all add: permission.from_as_str)

text \<open>No name of a permission holds a separator or a space at either end.\<close>

lemma permission_str_plain:
  "124 \<notin> set (permission_str p)" "permission_str p \<noteq> []"
  "\<not> is_whitespace (hd (permission_str p))" "\<not> is_whitespace (last (permission_str p))"
  by (cases p; simp add: lit_def is_whitespace_def)+

lemma trim_spaced:
  assumes "s \<noteq> []" "\<not> is_whitespace (hd s)" "\<not> is_whitespace (last s)"
  shows "trim s = s" "trim (32 # s) = s" "trim (s @ [32]) = s" "trim (32 # s @ [32]) = s"
proof -
  have 32: "is_whitespace 32" by (simp add: is_whitespace_def)
  have d: "dropWhile is_whitespace s = s" "dropWhile is_whitespace (rev s) = rev s"
    using assms by (simp_all add: dropWhile_eq_self_iff hd_rev)
  have a: "dropWhile is_whitespace (s @ [32]) = s @ [32]"
    using assms by (simp add: dropWhile_eq_self_iff)
  show "trim s = s" "trim (32 # s) = s" "trim (s @ [32]) = s" "trim (32 # s @ [32]) = s"
    by (simp_all add: trim_def trim_start_def d a 32)
qed

lemma split_display:
  "ps \<noteq> [] \<Longrightarrow> map trim (split_on 124 (join_with [32, 124, 32] (map permission_str ps))) =
     map permission_str ps \<and>
   map trim (split_on 124 (32 # join_with [32, 124, 32] (map permission_str ps))) =
     map permission_str ps"
proof (induction ps rule: induct_list012)
  case (2 p)
  have "124 \<notin> set (32 # permission_str p)" using permission_str_plain by simp
  then show ?case
    using split_on_plain [of 124 "32 # permission_str p"] permission_str_plain
    by (simp add: split_on_plain trim_spaced)
next
  case (3 p q ps)
  have "124 \<notin> set (permission_str p @ [32])" "124 \<notin> set (32 # permission_str p @ [32])"
    using permission_str_plain by simp_all
  then show ?case
    using 3(2) split_on_append [of 124 "permission_str p @ [32]"]
      split_on_append [of 124 "32 # permission_str p @ [32]"] permission_str_plain
    by (simp add: trim_spaced)
qed simp

lemma parse_display_list:
  "perm_parse (join_with (lit '' | '') (map permission_str ps)) = Some (mask_of ps)"
proof (cases "ps = []")
  case True
  then show ?thesis by (simp add: perm_parse_def mask_of_def trim_def trim_start_def)
next
  case False
  have "filter (\<lambda>name. name \<noteq> []) (map permission_str ps) = map permission_str ps"
    using permission_str_plain(2) by (induction ps) auto
  with split_display [OF False] show ?thesis
    by (simp add: perm_parse_def lit_def parse_names_strs mask_of_def)
qed

lemma parse_display: "perm_parse (perm_display (mask_of ps)) = Some (mask_of ps)"
proof (cases "allows (mask_of ps) ServerAdmin")
  case True
  then have "perm_display (mask_of ps) = join_with (lit '' | '') (map permission_str [ServerAdmin])"
    by (simp add: perm_display_def)
  then show ?thesis
    using parse_display_list [of "[ServerAdmin]"] mask_of_admin [OF True]
    by (simp add: mask_of_def perm_union_def perm_of_def perm_none_def)
next
  case False
  have "perm_display (mask_of ps) =
      join_with (lit '' | '') (map permission_str (filter (allows (mask_of ps)) permission_all))"
    using False unfolding perm_display_def by (simp add: allows_def [abs_def] Let_def)
  then show ?thesis using parse_display_list mask_of_granted by simp
qed

end
