(* ===== verification/Accounts.thy ===== *)
theory Accounts
  imports Model Proto
begin

text \<open>
  The tables the accounts live in, as the queries of \<open>auth/users.rs\<close> and
  \<open>registration/store.rs\<close> see them, and the functions of \<open>auth/users.rs\<close> over them:
  looking an account up, the checks that keep a name and an address on one account or one
  open sign-up, the busy flag, and what an account may do.
\<close>

subsection \<open>Rows\<close>

datatype cpu_mode = Cap | Share

text \<open>A value of \<open>f64\<close>, as far as the code looks at one.\<close>

datatype f64 = NaN | Infinite bool | Finite rat

record user_limits =
  memory_mib :: nat
  cpu_mode :: cpu_mode
  cpu_cores :: f64
  pids_max :: nat
  disk_mib :: nat

record user_row =
  u_id :: id
  u_username :: ustr
  u_email :: "ustr option"
  u_origin :: account_origin
  u_password_hash :: ustr
  u_role :: panel_role
  u_system_uid :: "nat option"
  u_system_state :: system_user_state
  u_system_error :: "ustr option"
  u_busy :: bool
  u_must_change_password :: bool
  u_created_at :: moment
  u_last_login_at :: "moment option"
  u_limits :: user_limits

record registration_row =
  reg_id :: id
  reg_username :: ustr
  reg_email :: ustr
  reg_password_hash :: ustr
  reg_state :: registration_state
  reg_token_hash :: ustr
  reg_token_expires_at :: "moment option"
  reg_token_sent_at :: "moment option"
  reg_tokens_sent :: nat
  reg_signup_ip :: "ustr option"
  reg_verified_at :: "moment option"
  reg_created_at :: moment

subsection \<open>Looking up\<close>

definition is_admin :: "user_row \<Rightarrow> bool" where
  "is_admin u = (u_role u = Admin)"

definition users_find :: "user_row list \<Rightarrow> id \<Rightarrow> user_row option" where
  "users_find users i = fetch_optional (\<lambda>u. u_id u = i) users"

definition users_load :: "user_row list \<Rightarrow> id \<Rightarrow> user_row result" where
  "users_load users i =
     (case users_find users i of None \<Rightarrow> Inl (not_found ''user_not_found'') | Some u \<Rightarrow> Inr u)"

text \<open>\<open>lower\<close> is \<open>str::to_lowercase\<close>, whose table is Unicode's.\<close>

definition users_by_name :: "(ustr \<Rightarrow> ustr) \<Rightarrow> user_row list \<Rightarrow> ustr \<Rightarrow> user_row option" where
  "users_by_name lower users name = fetch_optional (\<lambda>u. u_username u = lower name) users"

definition users_by_email :: "user_row list \<Rightarrow> ustr \<Rightarrow> user_row option" where
  "users_by_email users email = fetch_optional (\<lambda>u. u_email u = Some email) users"

definition admin_count :: "user_row list \<Rightarrow> nat" where
  "admin_count users = count_where (\<lambda>u. u_role u = Admin) users"

definition is_last_admin :: "user_row list \<Rightarrow> user_row \<Rightarrow> bool" where
  "is_last_admin users u = (is_admin u \<and> admin_count users \<le> 1)"

subsection \<open>Names and addresses\<close>

definition check_username :: "ustr \<Rightarrow> unit result" where
  "check_username name =
     (if \<not> (3 \<le> length name \<and> length name \<le> 39) then Inl invalid_request
      else if \<not> (\<forall>b \<in> set name. ascii_lower b \<or> ascii_digit b \<or> b = 45 \<or> b = 95)
        then Inl invalid_request
      else Inr ())"

definition name_taken :: failure where
  "name_taken = conflict ''username_taken''"

definition email_taken :: failure where
  "email_taken = conflict ''email_taken''"

definition claim_name_in_users :: "user_row list \<Rightarrow> ustr \<Rightarrow> id option \<Rightarrow> unit result" where
  "claim_name_in_users users name except =
     and_then (check_username name) (\<lambda>_.
       case fetch_optional (\<lambda>u. u_username u = name) users of
         Some u \<Rightarrow> if Some (u_id u) \<noteq> except then Inl name_taken else Inr ()
       | None \<Rightarrow> Inr ())"

definition claim_name_in_applications ::
  "registration_row list \<Rightarrow> ustr \<Rightarrow> id option \<Rightarrow> unit result" where
  "claim_name_in_applications regs name replacing =
     (case fetch_optional (\<lambda>r. reg_username r = name) regs of
        Some r \<Rightarrow> if Some (reg_id r) \<noteq> replacing then Inl name_taken else Inr ()
      | None \<Rightarrow> Inr ())"

definition claim_name ::
  "user_row list \<Rightarrow> registration_row list \<Rightarrow> ustr \<Rightarrow> id option \<Rightarrow> unit result" where
  "claim_name users regs name except =
     and_then (claim_name_in_users users name except)
       (\<lambda>_. claim_name_in_applications regs name None)"

definition claim_name_for_sign_up ::
  "user_row list \<Rightarrow> registration_row list \<Rightarrow> ustr \<Rightarrow> id option \<Rightarrow> unit result" where
  "claim_name_for_sign_up users regs name replacing =
     and_then (claim_name_in_users users name None)
       (\<lambda>_. claim_name_in_applications regs name replacing)"

definition claim_email ::
  "user_row list \<Rightarrow> registration_row list \<Rightarrow> ustr \<Rightarrow> id option \<Rightarrow> unit result" where
  "claim_email users regs email except =
     (let taken = fetch_optional (\<lambda>u. u_email u = Some email) users in
      if taken \<noteq> None \<and> map_option u_id taken \<noteq> except then Inl email_taken
      else case fetch_optional (\<lambda>r. reg_email r = email) regs of
        Some _ \<Rightarrow> Inl email_taken
      | None \<Rightarrow> Inr ())"

subsection \<open>The busy flag\<close>

definition set_busy :: "user_row list \<Rightarrow> id \<Rightarrow> bool \<Rightarrow> user_row list" where
  "set_busy users i b = update_where (\<lambda>u. u_id u = i) (\<lambda>u. u\<lparr>u_busy := b\<rparr>) users"

definition claim_busy :: "user_row list \<Rightarrow> id \<Rightarrow> user_row list \<times> bool" where
  "claim_busy users i =
     (let free = (\<lambda>u. u_id u = i \<and> \<not> u_busy u) in
      (update_where free (\<lambda>u. u\<lparr>u_busy := True\<rparr>) users, count_where free users = 1))"

definition refuse_if_busy :: "user_row \<Rightarrow> unit result" where
  "refuse_if_busy u = (if u_busy u then Inl (conflict ''user_busy'') else Inr ())"

text \<open>The first statement of \<open>reconcile\<close>, run when the panel starts.\<close>

definition clear_busy :: "user_row list \<Rightarrow> user_row list" where
  "clear_busy users = update_where u_busy (\<lambda>u. u\<lparr>u_busy := False\<rparr>) users"

subsection \<open>What an account may do\<close>

datatype limit_dimension = DimMemory | DimCpu | DimPids | DimDisk

datatype blocked_reason = OverLimit | SystemUserNotReady

record capabilities =
  can_create_servers :: bool
  can_start_servers :: bool
  can_manage_panel_users :: bool
  cap_blocked_reason :: "blocked_reason option"

definition user_capabilities :: "user_row \<Rightarrow> limit_dimension list \<Rightarrow> capabilities" where
  "user_capabilities u over_limit_dimensions =
     (let over_limit = (over_limit_dimensions \<noteq> []);
          blocked = (if u_system_state u \<noteq> Ready then Some SystemUserNotReady
                     else if over_limit then Some OverLimit else None);
          only_the_disk = (over_limit_dimensions = [DimDisk])
      in \<lparr>can_create_servers = (blocked = None),
          can_start_servers = (blocked = None \<or> only_the_disk \<and> u_system_state u = Ready),
          can_manage_panel_users = is_admin u,
          cap_blocked_reason = blocked\<rparr>)"

subsection \<open>New accounts\<close>

record new_user =
  nu_username :: ustr
  nu_email :: "ustr option"
  nu_origin :: account_origin
  nu_password_hash :: ustr
  nu_role :: panel_role
  nu_must_change_password :: bool
  nu_limits :: user_limits

text \<open>
  \<open>insert\<close>: \<open>Inl\<close> is what SQLite says of the violated unique index, which names the table
  and the column; \<open>map_taken\<close> is the answer made of it. \<open>users.username\<close> and
  \<open>users.email\<close> are unique in the schema.
\<close>

definition unique_violation :: "string \<Rightarrow> ustr" where
  "unique_violation column = lit ''UNIQUE constraint failed: '' @ lit column"

definition new_row :: "id \<Rightarrow> new_user \<Rightarrow> moment \<Rightarrow> user_row" where
  "new_row i new now =
     \<lparr>u_id = i, u_username = nu_username new, u_email = nu_email new, u_origin = nu_origin new,
      u_password_hash = nu_password_hash new, u_role = nu_role new, u_system_uid = None,
      u_system_state = Provisioning, u_system_error = None, u_busy = False,
      u_must_change_password = nu_must_change_password new, u_created_at = now,
      u_last_login_at = None, u_limits = nu_limits new\<rparr>"

definition users_insert ::
  "user_row list \<Rightarrow> id \<Rightarrow> new_user \<Rightarrow> moment \<Rightarrow> ustr + user_row list \<times> user_row" where
  "users_insert users i new now =
     (if \<exists>u \<in> set users. u_username u = nu_username new then Inl (unique_violation ''users.username'')
      else if nu_email new \<noteq> None \<and> (\<exists>u \<in> set users. u_email u = nu_email new)
        then Inl (unique_violation ''users.email'')
      else let row = new_row i new now in Inr (users @ [row], row))"

definition map_taken :: "ustr \<Rightarrow> failure" where
  "map_taken complaint =
     (if contains (lit ''users.username'') complaint then name_taken
      else if contains (lit ''users.email'') complaint then email_taken
      else internal)"

subsection \<open>Passwords (\<open>auth/password.rs\<close>)\<close>

text \<open>\<open>encode\<close> stands for argon2, which takes the salt drawn for this hash and the password.\<close>

definition MIN_LENGTH :: nat where "MIN_LENGTH = 10"

definition check_strength :: "ustr \<Rightarrow> unit result" where
  "check_strength p = (if length p < MIN_LENGTH then Inl (bad_request ''weak_password'') else Inr ())"

definition password_hash :: "(ustr \<Rightarrow> ustr \<Rightarrow> ustr) \<Rightarrow> ustr \<Rightarrow> ustr \<Rightarrow> ustr result" where
  "password_hash encode salt p = and_then (check_strength p) (\<lambda>_. Inr (encode salt p))"

subsection \<open>Properties of the checks\<close>

lemma check_username_plain:
  "check_username name = Inr () \<longleftrightarrow> 3 \<le> length name \<and> length name \<le> 39 \<and>
     (\<forall>b \<in> set name. ascii_lower b \<or> ascii_digit b \<or> b = 45 \<or> b = 95)"
  by (auto simp: check_username_def)

lemma claim_name_for_sign_up_iff:
  "claim_name_for_sign_up users regs name replacing = Inr () \<Longrightarrow>
     (\<forall>u \<in> set users. u_username u \<noteq> name) \<and> check_username name = Inr ()"
  by (auto simp: claim_name_for_sign_up_def claim_name_in_users_def and_then_Inr fetch_None
      split: option.splits if_splits)

lemma claim_name_in_applications_free:
  "claim_name_in_applications regs name replacing = Inr () \<Longrightarrow> distinct (map reg_username regs) \<Longrightarrow>
     r \<in> set regs \<Longrightarrow> reg_username r = name \<Longrightarrow> Some (reg_id r) = replacing"
  using fetch_Some_iff [of reg_username regs r]
  by (auto simp: claim_name_in_applications_def split: if_splits)

lemma claim_busy_exclusive:
  assumes "distinct (map u_id users)" "claim_busy users i = (users', True)"
  shows "snd (claim_busy users' i) = False"
proof -
  have users': "users' = update_where (\<lambda>u. u_id u = i \<and> \<not> u_busy u) (\<lambda>u. u\<lparr>u_busy := True\<rparr>) users"
    using assms(2) by (simp add: claim_busy_def Let_def)
  have "\<forall>u \<in> set users'. \<not> (u_id u = i \<and> \<not> u_busy u)"
    unfolding users' by (rule update_all) simp_all
  then have "count_where (\<lambda>u. u_id u = i \<and> \<not> u_busy u) users' = 0"
    by (simp only: count_zero_iff simp_thms)
  then show ?thesis by (simp add: claim_busy_def Let_def)
qed

lemma users_insert_distinct:
  assumes "users_insert users i new now = Inr (users', row)"
    and "distinct (map u_username users)" "u_id ` set users \<subseteq> {..<i}" "distinct (map u_id users)"
  shows "distinct (map u_username users') \<and> distinct (map u_id users')"
proof -
  have r: "row = new_row i new now" "users' = users @ [row]"
    and n: "\<forall>u \<in> set users. u_username u \<noteq> nu_username new"
    using assms(1) by (auto simp: users_insert_def Let_def split: if_splits)
  have "u_id row = i" "u_username row = nu_username new" by (simp_all add: r new_row_def)
  moreover have "nu_username new \<notin> u_username ` set users" using n by force
  moreover have "i \<notin> u_id ` set users" using assms(3) by force
  ultimately show ?thesis using assms(2,4) by (simp add: r(2))
qed

end
