(* ===== verification/Sessions.thy ===== *)
theory Sessions
  imports Accounts
begin

text \<open>
  Sessions (\<open>auth/session.rs\<close>), the extraction of a caller from a request and the
  middleware that slides a session along (\<open>auth/extract.rs\<close>), and the encoding of a
  session secret (\<open>auth/secret.rs\<close>). SHA-256 and the random secret come from outside and
  are parameters (\<open>digest\<close>, \<open>bytes\<close>).

  The invariant of the table is \<open>sessions_ok\<close>: token hashes and identifiers are unique
  (two unique indices) and a row expires thirty days after it was last seen.
\<close>

definition SESSION_LIFETIME :: moment where
  "SESSION_LIFETIME = 30 * 24 * 60 * 60"

definition REFRESH_AFTER :: moment where
  "REFRESH_AFTER = 60 * 60"

definition USER_AGENT_LIMIT :: nat where
  "USER_AGENT_LIMIT = 256"

record session_row =
  ses_id :: id
  ses_user :: id
  ses_token_hash :: ustr
  ses_created_at :: moment
  ses_expires_at :: moment
  ses_last_seen :: moment
  ses_user_agent :: "ustr option"

definition session_open ::
  "(ustr \<Rightarrow> ustr) \<Rightarrow> session_row list \<Rightarrow> id \<Rightarrow> ustr \<Rightarrow> id \<Rightarrow> ustr option \<Rightarrow> moment \<Rightarrow>
   session_row list \<times> session_row \<times> ustr" where
  "session_open digest t fresh_id secret user agent now =
     (let row = \<lparr>ses_id = fresh_id, ses_user = user, ses_token_hash = digest secret,
        ses_created_at = now, ses_expires_at = now + SESSION_LIFETIME, ses_last_seen = now,
        ses_user_agent = map_option (take USER_AGENT_LIMIT) agent\<rparr>
      in (t @ [row], row, secret))"

definition session_lookup ::
  "(ustr \<Rightarrow> ustr) \<Rightarrow> session_row list \<Rightarrow> ustr \<Rightarrow> moment \<Rightarrow> session_row option" where
  "session_lookup digest t secret now =
     (case fetch_optional (\<lambda>r. ses_token_hash r = digest secret) t of
        Some s \<Rightarrow> if ses_expires_at s > now then Some s else None
      | None \<Rightarrow> None)"

definition session_refresh ::
  "session_row list \<Rightarrow> session_row \<Rightarrow> moment \<Rightarrow> session_row list \<times> session_row option" where
  "session_refresh t s now =
     (if ses_last_seen s + REFRESH_AFTER > now then (t, None)
      else let slid = s\<lparr>ses_expires_at := now + SESSION_LIFETIME, ses_last_seen := now\<rparr> in
        (update_where (\<lambda>r. ses_id r = ses_id slid)
           (\<lambda>r. r\<lparr>ses_expires_at := ses_expires_at slid, ses_last_seen := ses_last_seen slid\<rparr>) t,
         Some slid))"

definition session_close :: "session_row list \<Rightarrow> id \<Rightarrow> session_row list" where
  "session_close t i = delete_where (\<lambda>r. ses_id r = i) t"

text \<open>\<open>id IS NOT ?\<close> with a null is true of every row.\<close>

definition session_close_all_of ::
  "session_row list \<Rightarrow> id \<Rightarrow> id option \<Rightarrow> session_row list \<times> nat" where
  "session_close_all_of t user except =
     (let doomed = (\<lambda>r. ses_user r = user \<and> Some (ses_id r) \<noteq> except) in
      (delete_where doomed t, count_where doomed t))"

definition session_count_active :: "session_row list \<Rightarrow> id \<Rightarrow> moment \<Rightarrow> nat" where
  "session_count_active t user now =
     count_where (\<lambda>r. ses_user r = user \<and> ses_expires_at r > now) t"

definition session_purge_expired :: "session_row list \<Rightarrow> moment \<Rightarrow> session_row list \<times> nat" where
  "session_purge_expired t now =
     (delete_where (\<lambda>r. ses_expires_at r \<le> now) t, count_where (\<lambda>r. ses_expires_at r \<le> now) t)"

subsection \<open>The caller of a request (\<open>auth/extract.rs\<close>)\<close>

record caller =
  caller_user :: user_row
  caller_session :: session_row

definition caller_id :: "caller \<Rightarrow> id" where
  "caller_id c = u_id (caller_user c)"

definition caller_is_admin :: "caller \<Rightarrow> bool" where
  "caller_is_admin c = (u_role (caller_user c) = Admin)"

definition caller_of_request ::
  "(ustr \<Rightarrow> ustr) \<Rightarrow> session_row list \<Rightarrow> user_row list \<Rightarrow> ustr option \<Rightarrow> moment \<Rightarrow> caller result" where
  "caller_of_request digest t users cookie now =
     (case cookie of
        None \<Rightarrow> Inl unauthenticated
      | Some secret \<Rightarrow>
          (case session_lookup digest t secret now of
             None \<Rightarrow> Inl unauthenticated
           | Some s \<Rightarrow>
               (case users_find users (ses_user s) of
                  None \<Rightarrow> Inl unauthenticated
                | Some u \<Rightarrow> Inr \<lparr>caller_user = u, caller_session = s\<rparr>)))"

definition admin_of_request ::
  "(ustr \<Rightarrow> ustr) \<Rightarrow> session_row list \<Rightarrow> user_row list \<Rightarrow> ustr option \<Rightarrow> moment \<Rightarrow> caller result" where
  "admin_of_request digest t users cookie now =
     and_then (caller_of_request digest t users cookie now)
       (\<lambda>c. if \<not> caller_is_admin c then Inl forbidden else Inr c)"

text \<open>\<open>slide_sessions\<close>, after the handler has answered; \<open>True\<close> when the cookie is set again.\<close>

definition slide_sessions ::
  "(ustr \<Rightarrow> ustr) \<Rightarrow> session_row list \<Rightarrow> ustr option \<Rightarrow> moment \<Rightarrow> session_row list \<times> bool" where
  "slide_sessions digest t cookie now =
     (case cookie of
        None \<Rightarrow> (t, False)
      | Some secret \<Rightarrow>
          (case session_lookup digest t secret now of
             None \<Rightarrow> (t, False)
           | Some current \<Rightarrow>
               (case session_refresh t current now of (t', slid) \<Rightarrow> (t', slid \<noteq> None))))"

subsection \<open>The secret as text (\<open>auth/secret.rs\<close>)\<close>

definition base64_alphabet :: ustr where
  "base64_alphabet = lit ''ABCDEFGHIJKLMNOPQRSTUVWXYZabcdefghijklmnopqrstuvwxyz0123456789-_''"

text \<open>
  \<open>bytes.chunks(3)\<close>: a chunk is padded with zeros, packed big-endian into 24 bits and read
  off six bits at a time, one more character than it has bytes.
\<close>

definition base64_chunk :: "nat list \<Rightarrow> ustr" where
  "base64_chunk chunk =
     (let packed = (chunk ! 0) * 65536 + (if 1 < length chunk then chunk ! 1 else 0) * 256
        + (if 2 < length chunk then chunk ! 2 else 0)
      in map (\<lambda>shift. base64_alphabet ! (packed div 2 ^ shift mod 64))
           (take (length chunk + 1) [18, 12, 6, 0]))"

fun base64url :: "nat list \<Rightarrow> ustr" where
  "base64url [] = []"
| "base64url [a] = base64_chunk [a]"
| "base64url [a, b] = base64_chunk [a, b]"
| "base64url (a # b # c # rest) = base64_chunk [a, b, c] @ base64url rest"

subsection \<open>The invariant\<close>

definition sessions_ok :: "session_row list \<Rightarrow> bool" where
  "sessions_ok t = (distinct (map ses_id t) \<and> distinct (map ses_token_hash t) \<and>
     (\<forall>r \<in> set t. ses_expires_at r = ses_last_seen r + SESSION_LIFETIME))"

lemma open_ok:
  assumes "sessions_ok t" "fresh_id \<notin> ses_id ` set t" "digest secret \<notin> ses_token_hash ` set t"
  shows "sessions_ok (fst (session_open digest t fresh_id secret user agent now))"
  using assms by (simp add: sessions_ok_def session_open_def Let_def)

lemma refresh_ok: "sessions_ok t \<Longrightarrow> sessions_ok (fst (session_refresh t s now))"
  by (auto simp: sessions_ok_def session_refresh_def Let_def map_update set_update)

lemma delete_ok: "sessions_ok t \<Longrightarrow> sessions_ok (delete_where p t)"
  by (simp add: sessions_ok_def distinct_delete set_delete)

lemma slide_ok: "sessions_ok t \<Longrightarrow> sessions_ok (fst (slide_sessions digest t cookie now))"
  by (auto simp: slide_sessions_def split: option.splits prod.splits) (metis fst_conv refresh_ok)

lemma lookup_iff:
  assumes "sessions_ok t"
  shows "session_lookup digest t secret now = Some s \<longleftrightarrow>
    s \<in> set t \<and> ses_token_hash s = digest secret \<and> now < ses_expires_at s"
proof -
  have "fetch_optional (\<lambda>r. ses_token_hash r = digest secret) t = Some s \<longleftrightarrow>
      s \<in> set t \<and> ses_token_hash s = digest secret"
    using assms fetch_Some_iff [of ses_token_hash t s]
    by (auto simp: sessions_ok_def dest: fetch_SomeD)
  then show ?thesis by (auto simp: session_lookup_def split: option.splits if_splits)
qed

lemma lookup_delete:
  assumes "sessions_ok t"
  shows "session_lookup digest (delete_where p t) secret now =
    (case session_lookup digest t secret now of
       Some s \<Rightarrow> if p s then None else Some s | None \<Rightarrow> None)"
proof (rule option.exhaust [of "session_lookup digest (delete_where p t) secret now"])
  fix s
  assume s: "session_lookup digest (delete_where p t) secret now = Some s"
  then have "session_lookup digest t secret now = Some s" "\<not> p s"
    using lookup_iff [OF assms] lookup_iff [OF delete_ok [OF assms]] by (auto simp: set_delete)
  with s show ?thesis by simp
next
  assume n: "session_lookup digest (delete_where p t) secret now = None"
  have "p s" if "session_lookup digest t secret now = Some s" for s
  proof (rule ccontr)
    assume "\<not> p s"
    with that have "session_lookup digest (delete_where p t) secret now = Some s"
      using lookup_iff [OF assms] lookup_iff [OF delete_ok [OF assms]] by (simp add: set_delete)
    with n show False by simp
  qed
  with n show ?thesis by (auto split: option.splits)
qed

lemma purge_invisible:
  assumes "sessions_ok t" "now \<le> later"
  shows "session_lookup digest (fst (session_purge_expired t now)) secret later =
    session_lookup digest t secret later"
proof (cases "session_lookup digest t secret later")
  case None
  then show ?thesis by (simp add: session_purge_expired_def lookup_delete [OF assms(1)])
next
  case (Some s)
  with assms lookup_iff [OF assms(1)] have "\<not> ses_expires_at s \<le> now" by fastforce
  with Some show ?thesis by (simp add: session_purge_expired_def lookup_delete [OF assms(1)])
qed

lemma slide_keeps:
  assumes ok: "sessions_ok t" and s: "session_lookup digest t secret now = Some s"
    and seen: "ses_last_seen s \<le> now"
    and later: "later < now + SESSION_LIFETIME - REFRESH_AFTER"
  shows "\<exists>s'. session_lookup digest (fst (slide_sessions digest t (Some secret) now)) secret later = Some s' \<and>
    ses_id s' = ses_id s \<and> ses_user s' = ses_user s"
proof -
  let ?t = "fst (slide_sessions digest t (Some secret) now)"
  have t: "?t = fst (session_refresh t s now)" using s by (simp add: slide_sessions_def split: prod.splits)
  have in_t: "s \<in> set t" "ses_token_hash s = digest secret" "ses_expires_at s = ses_last_seen s + SESSION_LIFETIME"
    using s lookup_iff [OF ok] ok by (auto simp: sessions_ok_def)
  show ?thesis
  proof (cases "ses_last_seen s + REFRESH_AFTER > now")
    case True
    then have "?t = t" by (simp add: t session_refresh_def)
    moreover have "session_lookup digest t secret later = Some s"
      using lookup_iff [OF ok] in_t True later by simp
    ultimately show ?thesis by auto
  next
    case False
    let ?s = "s\<lparr>ses_expires_at := now + SESSION_LIFETIME, ses_last_seen := now\<rparr>"
    have "?s \<in> set ?t" using False in_t by (auto simp: t session_refresh_def Let_def set_update)
    moreover have "sessions_ok ?t" using refresh_ok [OF ok] t by simp
    ultimately have "session_lookup digest ?t secret later = Some ?s"
      using later in_t by (simp add: lookup_iff REFRESH_AFTER_def)
    then show ?thesis by auto
  qed
qed

lemma close_all_shuts:
  assumes ok: "sessions_ok t" and t': "t' = fst (session_close_all_of t user except)"
  shows "session_lookup digest t' secret now = Some s \<longleftrightarrow>
    session_lookup digest t secret now = Some s \<and> (ses_user s = user \<longrightarrow> except = Some (ses_id s))"
  using lookup_delete [OF ok] by (auto simp: t' session_close_all_of_def Let_def split: option.splits)

end
