(* ===== verification/Access.thy ===== *)
theory Access
  imports Sessions
begin

text \<open>
  Who may do what on a server. The program answers that question twice: \<open>auth/access.rs\<close>
  for the settings, files and backups, \<open>ops/access.rs\<close> for the operations, the console and
  the socket. Both are modelled as they are written; the lemmas show that they agree on every
  caller, server and permission, and what the answer is in terms of ownership and membership.
\<close>

record server_row =
  srv_id :: id
  srv_owner :: id
  srv_status :: server_status
  srv_operations_revision :: int
  srv_flows_intro :: bool

record member_row =
  mem_id :: id
  mem_server :: id
  mem_user :: id
  mem_role :: server_role
  mem_joined_at :: "moment option"

definition unknown_server :: failure where
  "unknown_server = not_found ''server_not_found''"

definition joined_role :: "member_row list \<Rightarrow> id \<Rightarrow> id \<Rightarrow> server_role option" where
  "joined_role members server user = map_option mem_role (fetch_optional
     (\<lambda>m. mem_server m = server \<and> mem_user m = user \<and> mem_joined_at m \<noteq> None) members)"

definition owner_of :: "server_row list \<Rightarrow> id \<Rightarrow> id option" where
  "owner_of servers server =
     map_option srv_owner (fetch_optional (\<lambda>s. srv_id s = server) servers)"

subsection \<open>\<open>auth/access.rs\<close>\<close>

record access =
  acc_server :: id
  acc_owner :: id
  acc_permissions :: permissions

definition acc_is_owner :: "access \<Rightarrow> caller \<Rightarrow> bool" where
  "acc_is_owner a c = (acc_owner a = caller_id c)"

definition acc_allows :: "access \<Rightarrow> permission \<Rightarrow> bool" where
  "acc_allows a p = allows (acc_permissions a) p"

definition acc_require :: "access \<Rightarrow> permission \<Rightarrow> access result" where
  "acc_require a p =
     (if \<not> acc_allows a BaseRead then Inl unknown_server
      else if \<not> acc_allows a p then Inl forbidden
      else Inr a)"

definition acc_require_ownership :: "access \<Rightarrow> caller \<Rightarrow> access result" where
  "acc_require_ownership a c =
     (if \<not> acc_allows a BaseRead then Inl unknown_server
      else if acc_is_owner a c \<or> caller_is_admin c then Inr a
      else Inl forbidden)"

definition access_of ::
  "server_row list \<Rightarrow> member_row list \<Rightarrow> caller \<Rightarrow> id \<Rightarrow> access result" where
  "access_of servers members c server =
     (case owner_of servers server of
        None \<Rightarrow> Inl unknown_server
      | Some owner \<Rightarrow>
          if caller_is_admin c \<or> owner = caller_id c
          then Inr \<lparr>acc_server = server, acc_owner = owner,
                    acc_permissions = perm_of ServerAdmin\<rparr>
          else Inr \<lparr>acc_server = server, acc_owner = owner,
                    acc_permissions = (case joined_role members server (caller_id c) of
                      None \<Rightarrow> perm_none | Some role \<Rightarrow> perm_from_role role)\<rparr>)"

definition access_require ::
  "server_row list \<Rightarrow> member_row list \<Rightarrow> caller \<Rightarrow> id \<Rightarrow> permission \<Rightarrow> access result" where
  "access_require servers members c server p =
     and_then (access_of servers members c server) (\<lambda>a. acc_require a p)"

text \<open>\<open>LEFT JOIN \<dots> ON\<close>: a row of the left table without a partner stays, with nulls.\<close>

definition left_join :: "('a \<Rightarrow> 'b \<Rightarrow> bool) \<Rightarrow> 'a list \<Rightarrow> 'b list \<Rightarrow> ('a \<times> 'b option) list" where
  "left_join on as bs = concat (map (\<lambda>a. case filter (on a) bs of
     [] \<Rightarrow> [(a, None)] | ms \<Rightarrow> map (\<lambda>m. (a, Some m)) ms) as)"

definition access_visible_servers ::
  "server_row list \<Rightarrow> member_row list \<Rightarrow> caller \<Rightarrow> id list" where
  "access_visible_servers servers members c =
     (if caller_is_admin c then order_by id (map srv_id servers)
      else order_by id (map (srv_id \<circ> fst)
        (filter (\<lambda>(s, m). srv_owner s = caller_id c \<or> m \<noteq> None)
          (left_join (\<lambda>s m. mem_server m = srv_id s \<and> mem_user m = caller_id c \<and>
             mem_joined_at m \<noteq> None) servers members))))"

subsection \<open>\<open>ops/access.rs\<close>\<close>

record ops_caller =
  oc_user_id :: id
  oc_session_id :: id
  oc_panel_role :: panel_role

definition is_panel_admin :: "ops_caller \<Rightarrow> bool" where
  "is_panel_admin c = (oc_panel_role c = Admin)"

text \<open>The join of \<open>sessions\<close> and \<open>users\<close> on the token's hash.\<close>

definition ops_caller_of_request ::
  "(ustr \<Rightarrow> ustr) \<Rightarrow> session_row list \<Rightarrow> user_row list \<Rightarrow> ustr option \<Rightarrow> moment \<Rightarrow> ops_caller result" where
  "ops_caller_of_request digest sessions users cookie now =
     (case cookie of
        None \<Rightarrow> Inl unauthenticated
      | Some secret \<Rightarrow>
          (case fetch_optional (\<lambda>(s, u). ses_token_hash s = digest secret)
                  (concat (map (\<lambda>s. map (Pair s) (filter (\<lambda>u. u_id u = ses_user s) users)) sessions)) of
             None \<Rightarrow> Inl unauthenticated
           | Some (s, u) \<Rightarrow>
               if ses_expires_at s \<le> now then Inl unauthenticated
               else Inr \<lparr>oc_user_id = u_id u, oc_session_id = ses_id s, oc_panel_role = u_role u\<rparr>))"

definition session_alive :: "session_row list \<Rightarrow> id \<Rightarrow> moment \<Rightarrow> bool" where
  "session_alive sessions session now =
     (case fetch_optional (\<lambda>s. ses_id s = session) sessions of
        None \<Rightarrow> False | Some s \<Rightarrow> ses_expires_at s > now)"

definition ops_permissions ::
  "server_row list \<Rightarrow> member_row list \<Rightarrow> id \<Rightarrow> ops_caller \<Rightarrow> permissions result" where
  "ops_permissions servers members server c =
     (case owner_of servers server of
        None \<Rightarrow> Inl unknown_server
      | Some owner \<Rightarrow>
          if is_panel_admin c \<or> owner = oc_user_id c then Inr (perm_of ServerAdmin)
          else (case joined_role members server (oc_user_id c) of
                  None \<Rightarrow> Inl unknown_server | Some role \<Rightarrow> Inr (perm_from_role role)))"

definition ops_require :: "permissions \<Rightarrow> permission \<Rightarrow> unit result" where
  "ops_require m p = (if allows m p then Inr () else Inl forbidden)"

definition ops_visible_servers ::
  "server_row list \<Rightarrow> member_row list \<Rightarrow> ops_caller \<Rightarrow> id list" where
  "ops_visible_servers servers members c =
     (if is_panel_admin c then order_by id (map srv_id servers)
      else order_by id (remdups
        (map srv_id (filter (\<lambda>s. srv_owner s = oc_user_id c) servers) @
         map mem_server (filter (\<lambda>m. mem_user m = oc_user_id c \<and> mem_joined_at m \<noteq> None) members))))"

text \<open>The same caller, as either module holds it.\<close>

definition as_ops_caller :: "caller \<Rightarrow> ops_caller" where
  "as_ops_caller c = \<lparr>oc_user_id = caller_id c, oc_session_id = ses_id (caller_session c),
     oc_panel_role = u_role (caller_user c)\<rparr>"

subsection \<open>The answer, from the tables\<close>

definition standing ::
  "server_row list \<Rightarrow> member_row list \<Rightarrow> caller \<Rightarrow> id \<Rightarrow> server_role option" where
  "standing servers members c server =
     (case owner_of servers server of
        None \<Rightarrow> None
      | Some owner \<Rightarrow>
          if caller_is_admin c \<or> owner = caller_id c then Some Owner
          else joined_role members server (caller_id c))"

lemma perm_none_reads [simp]: "\<not> allows perm_none p"
  by (cases p) (simp_all add: allows_def perm_none_def Let_def)

lemma access_require_standing:
  "access_require servers members c server p =
    (case standing servers members c server of
       None \<Rightarrow> Inl unknown_server
     | Some role \<Rightarrow>
         if allows (perm_from_role role) p
         then Inr \<lparr>acc_server = server, acc_owner = the (owner_of servers server),
                   acc_permissions = perm_from_role role\<rparr>
         else Inl forbidden)"
  using from_role_reads
  by (auto simp: access_require_def access_of_def standing_def acc_require_def acc_allows_def
      perm_of_def server_admin_allows split: option.splits simp del: permission_bits.simps)

lemma ops_permissions_standing:
  "ops_permissions servers members server (as_ops_caller c) =
    (case standing servers members c server of
       None \<Rightarrow> Inl unknown_server | Some role \<Rightarrow> Inr (perm_from_role role))"
  by (auto simp: ops_permissions_def standing_def as_ops_caller_def is_panel_admin_def
      caller_is_admin_def perm_of_def split: option.splits)

lemma both_checks_agree:
  "map_sum id acc_permissions (access_require servers members c server p) =
    and_then (ops_permissions servers members server (as_ops_caller c))
      (\<lambda>m. and_then (ops_require m p) (\<lambda>_. Inr m))"
  by (simp add: access_require_standing ops_permissions_standing ops_require_def
      split: option.splits)

subsection \<open>Which servers a caller sees\<close>

definition servers_ok :: "server_row list \<Rightarrow> member_row list \<Rightarrow> bool" where
  "servers_ok servers members =
     (distinct (map srv_id servers) \<and>
      distinct (map (\<lambda>m. (mem_server m, mem_user m)) members) \<and>
      (\<forall>m \<in> set members. mem_server m \<in> srv_id ` set servers))"

lemma order_by_id: "order_by id xs = sort xs"
  by (simp add: order_by_def id_def)

lemma sort_set_eq: "distinct xs \<Longrightarrow> distinct ys \<Longrightarrow> set xs = set ys \<Longrightarrow> sort xs = sort ys"
  by (metis sorted_list_of_set_sort_remdups distinct_remdups_id)

lemma members_of_one:
  assumes "distinct (map (\<lambda>m. (mem_server m, mem_user m)) members)"
  shows "length (filter (\<lambda>m. mem_server m = s \<and> mem_user m = u \<and> mem_joined_at m \<noteq> None) members) \<le> 1"
  using assms
proof (induction members)
  case (Cons m ms)
  show ?case
  proof (cases "mem_server m = s \<and> mem_user m = u")
    case True
    with Cons.prems have "(s, u) \<notin> (\<lambda>m. (mem_server m, mem_user m)) ` set ms" by auto
    then have "\<forall>x \<in> set ms. \<not> (mem_server x = s \<and> mem_user x = u)" by (auto simp: image_iff)
    then have "filter (\<lambda>m. mem_server m = s \<and> mem_user m = u \<and> mem_joined_at m \<noteq> None) ms = []"
      by (auto simp: filter_empty_conv)
    then show ?thesis by simp
  next
    case False
    with Cons show ?thesis by auto
  qed
qed simp

lemma left_join_ids:
  assumes "\<And>a. a \<in> set as \<Longrightarrow> length (filter (on a) bs) \<le> 1"
  shows "map fst (left_join on as bs) = as"
  using assms
proof (induction as)
  case (Cons a as)
  have "length (filter (on a) bs) \<le> 1" using Cons.prems by simp
  then have "map fst (case filter (on a) bs of [] \<Rightarrow> [(a, None)] | ms \<Rightarrow> map (\<lambda>m. (a, Some m)) ms) = [a]"
    by (cases "filter (on a) bs") auto
  with Cons show ?case by (simp add: left_join_def)
qed (simp add: left_join_def)

lemma left_join_set:
  "(a, m) \<in> set (left_join on as bs) \<longleftrightarrow> a \<in> set as \<and>
     (case m of None \<Rightarrow> \<forall>b \<in> set bs. \<not> on a b | Some b \<Rightarrow> b \<in> set bs \<and> on a b)"
proof -
  have "x \<in> set (case filter (on a) bs of [] \<Rightarrow> [(a, None)] | ms \<Rightarrow> map (\<lambda>m. (a, Some m)) ms) \<longleftrightarrow>
      fst x = a \<and> (case snd x of None \<Rightarrow> \<forall>b \<in> set bs. \<not> on a b | Some b \<Rightarrow> b \<in> set bs \<and> on a b)" for a x
  proof (cases "filter (on a) bs")
    case Nil
    then have "\<forall>b \<in> set bs. \<not> on a b" by (simp add: filter_empty_conv)
    with Nil show ?thesis by (cases x) (auto split: option.splits)
  next
    case (Cons b bs')
    then have set_eq: "set (b # bs') = {b \<in> set bs. on a b}" by (metis set_filter)
    have "\<exists>b \<in> set bs. on a b" using set_eq by auto
    moreover have "set (case filter (on a) bs of [] \<Rightarrow> [(a, None)] | ms \<Rightarrow> map (\<lambda>m. (a, Some m)) ms) =
        (\<lambda>m. (a, Some m)) ` {b \<in> set bs. on a b}"
      using Cons by (simp add: set_eq [symmetric])
    ultimately show ?thesis by (cases x) (auto split: option.splits)
  qed
  then show ?thesis by (auto simp: left_join_def)
qed

lemma access_visible_iff:
  "server \<in> set (access_visible_servers servers members c) \<longleftrightarrow>
    (\<exists>s \<in> set servers. srv_id s = server \<and> (caller_is_admin c \<or> srv_owner s = caller_id c \<or>
      (\<exists>m \<in> set members. mem_server m = server \<and> mem_user m = caller_id c \<and> mem_joined_at m \<noteq> None)))"
  by (auto simp: access_visible_servers_def set_order left_join_set image_iff split: option.splits)
    blast+

lemma ops_visible_iff:
  assumes "servers_ok servers members"
  shows "server \<in> set (ops_visible_servers servers members (as_ops_caller c)) \<longleftrightarrow>
    server \<in> set (access_visible_servers servers members c)"
proof (cases "caller_is_admin c")
  case True
  then show ?thesis
    by (simp add: access_visible_servers_def ops_visible_servers_def as_ops_caller_def
        is_panel_admin_def caller_is_admin_def)
next
  case False
  then have "set (ops_visible_servers servers members (as_ops_caller c)) =
      srv_id ` {s \<in> set servers. srv_owner s = caller_id c} \<union>
      mem_server ` {m \<in> set members. mem_user m = caller_id c \<and> mem_joined_at m \<noteq> None}"
    by (simp add: ops_visible_servers_def set_order as_ops_caller_def is_panel_admin_def
        caller_is_admin_def)
  moreover have "mem_server m \<in> srv_id ` set servers" if "m \<in> set members" for m
    using assms that by (simp add: servers_ok_def)
  ultimately show ?thesis
    using False unfolding access_visible_iff by (auto simp: image_iff) metis+
qed

lemma visible_agree:
  assumes ok: "servers_ok servers members"
  shows "access_visible_servers servers members c = ops_visible_servers servers members (as_ops_caller c)"
proof (cases "caller_is_admin c")
  case True
  then show ?thesis
    by (simp add: access_visible_servers_def ops_visible_servers_def as_ops_caller_def
        is_panel_admin_def caller_is_admin_def)
next
  case False
  let ?on = "\<lambda>s m. mem_server m = srv_id s \<and> mem_user m = caller_id c \<and> mem_joined_at m \<noteq> None"
  have "map fst (left_join ?on servers members) = servers"
    using ok members_of_one by (intro left_join_ids) (auto simp: servers_ok_def)
  then have "distinct (map (srv_id \<circ> fst) (left_join ?on servers members))"
    using ok by (metis map_map servers_ok_def)
  then have "distinct (map (srv_id \<circ> fst)
      (filter (\<lambda>(s, m). srv_owner s = caller_id c \<or> m \<noteq> None) (left_join ?on servers members)))"
    by (rule distinct_map_filter)
  moreover have "\<not> is_panel_admin (as_ops_caller c)"
    using False by (simp add: as_ops_caller_def is_panel_admin_def caller_is_admin_def)
  ultimately show ?thesis
    using False ops_visible_iff [OF ok, of _ c]
    unfolding access_visible_servers_def ops_visible_servers_def order_by_id if_not_P [OF False]
    by (simp add: order_by_id) (intro sort_set_eq; simp; blast)
qed

lemma visible_iff_standing:
  assumes "servers_ok servers members"
  shows "server \<in> set (access_visible_servers servers members c) \<longleftrightarrow>
    standing servers members c server \<noteq> None"
proof -
  have "owner_of servers (srv_id s) = Some (srv_owner s)" if "s \<in> set servers" for s
    using assms fetch_Some_iff [of srv_id servers, OF _ that]
    by (simp add: owner_of_def servers_ok_def)
  moreover have "owner_of servers server = None \<longleftrightarrow> (\<forall>s \<in> set servers. srv_id s \<noteq> server)"
    by (simp add: owner_of_def fetch_None)
  moreover have "joined_role members server (caller_id c) \<noteq> None \<longleftrightarrow>
      (\<exists>m \<in> set members. mem_server m = server \<and> mem_user m = caller_id c \<and> mem_joined_at m \<noteq> None)"
    by (auto simp: joined_role_def fetch_None)
  ultimately show ?thesis
    unfolding access_visible_iff standing_def
    by (cases "owner_of servers server") (auto, metis option.inject)
qed

end
