(* ===== verification/Rates.thy ===== *)
theory Rates
  imports Prelude
begin

text \<open>
  The limiters of the panel. \<open>auth/rates.rs\<close> keeps one queue of instants per bucket and key,
  \<open>console/mod.rs\<close> one per user and server; both are sliding windows, and the locale
  \<open>sliding_window\<close> states what they have in common: no window holds more admissions than the
  allowance, and the wait they answer with is the shortest number of whole seconds after which
  the next attempt goes through. \<open>auth/brake.rs\<close> counts failed sign-ins per account and per
  address. \<open>Instant\<close>s are nanoseconds, and \<open>now.duration_since(t)\<close> saturates at zero as in
  the standard library, which is subtraction on naturals.
\<close>

subsection \<open>Sliding windows\<close>

definition drop_old :: "instant \<Rightarrow> instant \<Rightarrow> instant list \<Rightarrow> instant list" where
  "drop_old window now ts = dropWhile (\<lambda>t. window \<le> now - t) ts"

definition wait_for :: "instant \<Rightarrow> instant \<Rightarrow> instant \<Rightarrow> nat" where
  "wait_for window now oldest = secs_up (window - (now - oldest))"

text \<open>Any \<open>allowance + 1\<close> admissions in a row span at least a window.\<close>

definition spread :: "nat \<Rightarrow> instant \<Rightarrow> instant list \<Rightarrow> bool" where
  "spread allowance window ts =
     (\<forall>i < length ts - allowance. window \<le> ts ! (i + allowance) - ts ! i)"

definition in_order :: "instant \<Rightarrow> instant list \<Rightarrow> bool" where
  "in_order now ts = (sorted ts \<and> (\<forall>t \<in> set ts. t \<le> now))"

lemma drop_old_suffix: "\<exists>old. ts = old @ drop_old w now ts \<and> (\<forall>t \<in> set old. w \<le> now - t)"
  unfolding drop_old_def
  by (metis set_takeWhileD takeWhile_dropWhile_id)

lemma set_drop_old: "set (drop_old w now ts) \<subseteq> set ts"
  by (auto simp: drop_old_def dest: set_dropWhileD)

lemma drop_old_filter:
  "sorted ts \<Longrightarrow> drop_old w now ts = filter (\<lambda>t. now - t < w) ts"
proof (induction ts)
  case (Cons t ts)
  show ?case
  proof (cases "w \<le> now - t")
    case False
    with Cons.prems have "\<forall>u \<in> set ts. now - u < w" by auto
    with False show ?thesis by (simp add: drop_old_def)
  qed (use Cons in \<open>simp add: drop_old_def\<close>)
qed (simp add: drop_old_def)

lemma drop_old_later:
  assumes "sorted ts" "now \<le> later"
  shows "drop_old w later (drop_old w now ts) = drop_old w later ts"
proof -
  have "sorted (drop_old w now ts)" using assms by (simp add: drop_old_filter sorted_wrt_filter)
  with assms show ?thesis by (auto simp: drop_old_filter intro!: filter_cong)
qed

lemma in_order_drop_old: "in_order now ts \<Longrightarrow> in_order now (drop_old w now ts)"
  by (auto simp: in_order_def drop_old_filter sorted_wrt_filter)

lemma in_order_snoc: "in_order now ts \<Longrightarrow> in_order now (ts @ [now])"
  by (auto simp: in_order_def sorted_append)

lemma in_order_later: "in_order now ts \<Longrightarrow> now \<le> later \<Longrightarrow> in_order later ts"
  by (auto simp: in_order_def)

lemma spread_snoc:
  assumes s: "spread a w (old @ ts)" and old: "\<forall>t \<in> set old. w \<le> now - t" and len: "length ts < a"
  shows "spread a w ((old @ ts) @ [now])"
  unfolding spread_def
proof (intro allI impI)
  fix i assume i: "i < length ((old @ ts) @ [now]) - a"
  show "w \<le> ((old @ ts) @ [now]) ! (i + a) - ((old @ ts) @ [now]) ! i"
  proof (cases "i < length (old @ ts) - a")
    case True
    with s have "w \<le> (old @ ts) ! (i + a) - (old @ ts) ! i" by (simp only: spread_def)
    moreover from True have "i + a < length (old @ ts)" by linarith
    moreover from this have "i < length (old @ ts)" by linarith
    ultimately show ?thesis by (simp only: nth_append_left)
  next
    case False
    with i have last: "i + a = length (old @ ts)" by auto
    with len have "i < length old" by simp
    then have "((old @ ts) @ [now]) ! i = old ! i" "old ! i \<in> set old"
      by (simp_all add: nth_append)
    moreover have "((old @ ts) @ [now]) ! (i + a) = now" unfolding last by simp
    ultimately show ?thesis using old by simp
  qed
qed

text \<open>
  The contract. \<open>admit s k now\<close> is one attempt under the key \<open>k\<close>; \<open>queue s k\<close> the queue
  behind the key, which belongs to the key's \<open>slot\<close>; \<open>ok now s\<close> that every queue is in order, holds nothing later than \<open>now\<close> and is no longer than the allowance.
\<close>

locale sliding_window =
  fixes admit :: "'s \<Rightarrow> 'k \<Rightarrow> instant \<Rightarrow> 's \<times> nat option"
    and slot :: "'k \<Rightarrow> 'c"
    and queue :: "'s \<Rightarrow> 'k \<Rightarrow> instant list"
    and allowance :: nat
    and window :: instant
    and ok :: "instant \<Rightarrow> 's \<Rightarrow> bool"
  assumes allowance_pos: "0 < allowance"
    and ok_order: "ok now s \<Longrightarrow> in_order now (queue s k)"
    and ok_length: "ok now s \<Longrightarrow> length (queue s k) \<le> allowance"
    and ok_later: "ok now s \<Longrightarrow> now \<le> later \<Longrightarrow> ok later s"
    and admit_ok: "ok now s \<Longrightarrow> ok now (fst (admit s k now))"
    and admit_answer: "ok now s \<Longrightarrow> snd (admit s k now) =
      (let ts = drop_old window now (queue s k) in
       if allowance \<le> length ts then Some (wait_for window now (hd ts)) else None)"
    and admit_times: "ok now s \<Longrightarrow> queue (fst (admit s k now)) k =
      drop_old window now (queue s k) @ (if snd (admit s k now) = None then [now] else [])"
    and same_slot: "slot j = slot k \<Longrightarrow> queue s j = queue s k"
    and admit_others: "ok now s \<Longrightarrow> slot j \<noteq> slot k \<Longrightarrow> now \<le> later \<Longrightarrow>
      drop_old window later (queue (fst (admit s k now)) j) = drop_old window later (queue s j)"
begin

text \<open>The instants at which a sequence of attempts was let through under one key.\<close>

fun admitted :: "'s \<Rightarrow> ('k \<times> instant) list \<Rightarrow> 'k \<Rightarrow> instant list" where
  "admitted s [] k = []"
| "admitted s ((j, now) # as) k =
     (if slot j = slot k \<and> snd (admit s j now) = None then [now] else [])
      @ admitted (fst (admit s j now)) as k"

lemma admitted_spread:
  assumes "ok start s" "sorted (start # map snd as)"
    "drop_old window start (queue s k) = drop_old window start ts"
    "done_at = old @ ts" "\<forall>t \<in> set old. window \<le> start - t" "in_order start done_at"
    "spread allowance window done_at"
  shows "spread allowance window (done_at @ admitted s as k)"
  using assms
proof (induction as arbitrary: s start old ts done_at)
  case (Cons a as)
  obtain j now where a: "a = (j, now)" by (cases a)
  from Cons.prems a have le: "start \<le> now" and sorted: "sorted (now # map snd as)" by auto
  have ok: "ok now s" using ok_later Cons.prems(1) le .
  let ?s = "fst (admit s j now)"
  have sts: "sorted ts" using Cons.prems by (auto simp: in_order_def sorted_append)
  have same: "drop_old window now (queue s k) = drop_old window now ts"
    by (metis Cons.prems(1,3) drop_old_later in_order_def le ok_order sts)
  obtain gone where gone: "ts = gone @ drop_old window now ts" "\<forall>t \<in> set gone. window \<le> now - t"
    using drop_old_suffix by blast
  let ?in = "drop_old window now ts"
  have old: "\<forall>t \<in> set (old @ gone). window \<le> now - t"
    using Cons.prems(5) gone(2) le by force
  have done_at: "done_at = (old @ gone) @ ?in" using Cons.prems(4) gone(1) by simp
  have order: "in_order now done_at" using Cons.prems(6) le by (rule in_order_later)
  have oks: "ok now ?s" using ok by (rule admit_ok)
  have order_in: "in_order now ?in"
    using order by (auto simp: in_order_def done_at sorted_append)
  show ?case
  proof (cases "slot j = slot k \<and> snd (admit s j now) = None")
    case True
    have at_j: "queue s j = queue s k" "queue ?s k = queue ?s j"
      using True same_slot by metis+
    with True have len: "length ?in < allowance"
      using admit_answer [OF ok, of j] by (auto simp: Let_def same split: if_splits)
    have spread: "spread allowance window (done_at @ [now])"
      using spread_snoc [OF _ old len] Cons.prems(7) done_at by metis
    have "queue ?s k = ?in @ [now]" using admit_times [OF ok, of j] True by (simp add: at_j same)
    with Cons.IH [OF oks sorted, of "?in @ [now]" "done_at @ [now]" "old @ gone"]
    have "spread allowance window ((done_at @ [now]) @ admitted ?s as k)"
      using done_at old spread in_order_snoc [OF order] by simp
    then show ?thesis using True a by simp
  next
    case False
    have "drop_old window now (queue ?s k) = drop_old window now ?in"
    proof (cases "slot j = slot k")
      case True
      then have "queue s j = queue s k" "queue ?s k = queue ?s j" using same_slot by metis+
      with True False have "queue ?s k = ?in" using admit_times [OF ok, of j] same by simp
      then show ?thesis by simp
    next
      case False
      then have "drop_old window now (queue ?s k) = drop_old window now (queue s k)"
        using admit_others [OF ok, of k j now] by simp
      also have "\<dots> = drop_old window now ?in"
        unfolding same by (rule drop_old_later [OF sts, symmetric]) simp
      finally show ?thesis .
    qed
    with Cons.IH [OF oks sorted this done_at old order] Cons.prems(7)
    have "spread allowance window (done_at @ admitted ?s as k)" by simp
    with False a show ?thesis by auto
  qed
qed simp

text \<open>A window never holds more admissions under one key than the allowance.\<close>

lemma never_too_many:
  assumes "ok start s" "queue s k = []" "sorted (start # map snd as)"
  shows "spread allowance window (admitted s as k)"
  using admitted_spread [of start s as k "[]" "[]" "[]"] assms
  by (simp add: spread_def in_order_def)

text \<open>After the wait of the answer the attempt goes through, and it is at least a second.\<close>

lemma wait_is_enough:
  assumes ok: "ok now s" and r: "snd (admit s k now) = Some w" and t: "now + secs w \<le> later"
  shows "snd (admit (fst (admit s k now)) k later) = None"
proof -
  let ?ts = "drop_old window now (queue s k)"
  let ?s = "fst (admit s k now)"
  have full: "allowance \<le> length ?ts" and w: "w = wait_for window now (hd ?ts)"
    using r admit_answer [OF ok, of k] by (auto simp: Let_def split: if_splits)
  have le: "now \<le> later" using t by simp
  have ok': "ok later ?s" using ok_later admit_ok ok le by blast
  have ts: "queue ?s k = ?ts" using admit_times [OF ok, of k] r by simp
  show ?thesis
  proof (cases ?ts)
    case Nil
    with full allowance_pos show ?thesis by simp
  next
    case (Cons oldest rest)
    have "window - (now - oldest) \<le> secs w"
      using secs_up_covers w Cons by (simp add: wait_for_def)
    moreover have "oldest \<le> now"
      using in_order_drop_old [OF ok_order [OF ok]] Cons by (metis in_order_def list.set_intros(1))
    ultimately have "window \<le> later - oldest" using t by simp
    then have "length (drop_old window later ?ts) \<le> length rest"
      unfolding Cons by (simp add: drop_old_def length_dropWhile_le)
    also have "\<dots> < allowance"
      using ok_length [OF admit_ok [OF ok], of k k] by (simp add: ts Cons)
    finally show ?thesis using admit_answer [OF ok', of k] by (simp add: ts)
  qed
qed

text \<open>A whole second earlier it would still be refused: the answer is the shortest wait.\<close>

lemma wait_is_least:
  assumes ok: "ok now s" and r: "snd (admit s k now) = Some w"
    and t: "now \<le> later" "later < now + secs (w - 1)"
  shows "snd (admit (fst (admit s k now)) k later) \<noteq> None"
proof -
  let ?ts = "drop_old window now (queue s k)"
  have full: "allowance \<le> length ?ts" and w: "w = wait_for window now (hd ?ts)"
    using r admit_answer [OF ok, of k] by (auto simp: Let_def split: if_splits)
  have ok': "ok later (fst (admit s k now))" using ok_later admit_ok ok t(1) by blast
  have ts: "queue (fst (admit s k now)) k = ?ts" using admit_times [OF ok, of k] r by simp
  obtain oldest rest where cons: "?ts = oldest # rest"
    using full allowance_pos by (cases ?ts) auto
  have "secs (w - 1) < window - (now - oldest)"
  proof (rule ccontr)
    assume "\<not> secs (w - 1) < window - (now - oldest)"
    then have "w \<le> w - 1" unfolding w cons list.sel wait_for_def by (intro secs_up_least) simp
    then have "w = 0" by simp
    with t show False by (simp add: secs_def)
  qed
  moreover have "oldest \<le> now"
    using in_order_drop_old [OF ok_order [OF ok]] cons by (metis in_order_def list.set_intros(1))
  ultimately have "\<not> window \<le> later - oldest" using t by linarith
  then have "drop_old window later ?ts = ?ts" unfolding cons by (simp add: drop_old_def)
  with full admit_answer [OF ok', of k] show ?thesis by (simp add: ts)
qed

end


subsection \<open>\<open>auth/rates.rs\<close>\<close>

definition HOUR :: instant where "HOUR = secs (60 * 60)"
definition DAY :: instant where "DAY = secs (24 * 60 * 60)"
definition KEY_LENGTH :: nat where "KEY_LENGTH = 64"

record limit =
  bucket :: string
  allowance :: nat
  window :: instant

definition limit_new :: "string \<Rightarrow> nat \<Rightarrow> instant \<Rightarrow> limit" where
  "limit_new b a w = \<lparr>bucket = b, allowance = a, window = w\<rparr>"

definition REGISTER_PER_HOUR :: limit where
  "REGISTER_PER_HOUR = limit_new ''register'' 3 HOUR"

definition REGISTER_PER_DAY :: limit where
  "REGISTER_PER_DAY = limit_new ''register_day'' 10 DAY"

definition RESEND_PER_ADDRESS :: limit where
  "RESEND_PER_ADDRESS = limit_new ''resend'' 1 (secs (5 * 60))"

definition RESET_ATTEMPTS :: limit where
  "RESET_ATTEMPTS = limit_new ''reset'' 10 (secs (15 * 60))"

definition ADMIN_RESET_PER_ACCOUNT :: limit where
  "ADMIN_RESET_PER_ACCOUNT = limit_new ''admin_reset'' 5 HOUR"

type_synonym buckets = "string \<times> ustr \<rightharpoonup> instant list"

definition cut :: "ustr \<Rightarrow> ustr" where
  "cut key = take KEY_LENGTH key"

text \<open>\<open>retain\<close> on a map, \<open>entry(k).or_default()\<close> on one of queues.\<close>

definition retain :: "('k \<Rightarrow> 'v \<Rightarrow> bool) \<Rightarrow> ('k \<rightharpoonup> 'v) \<Rightarrow> ('k \<rightharpoonup> 'v)" where
  "retain p m = (\<lambda>k. case m k of None \<Rightarrow> None | Some v \<Rightarrow> if p k v then Some v else None)"

definition or_default :: "('k \<rightharpoonup> 'v list) \<Rightarrow> 'k \<Rightarrow> 'v list" where
  "or_default m k = (case m k of None \<Rightarrow> [] | Some ts \<Rightarrow> ts)"

definition recent :: "instant \<Rightarrow> instant \<Rightarrow> instant list \<Rightarrow> bool" where
  "recent age now ts = (ts \<noteq> [] \<and> now - last ts < age)"

definition sweep :: "buckets \<Rightarrow> instant \<Rightarrow> buckets" where
  "sweep records now = retain (\<lambda>_ ts. recent DAY now ts) records"

definition bucket_take :: "buckets \<Rightarrow> limit \<Rightarrow> ustr \<Rightarrow> instant \<Rightarrow> buckets \<times> nat option" where
  "bucket_take records limit key now =
     (let records = sweep records now;
          k = (bucket limit, cut key);
          ts = drop_old (window limit) now (or_default records k)
      in if allowance limit \<le> length ts
         then (records(k \<mapsto> ts), Some (secs_up (window limit - (now - hd ts))))
         else (records(k \<mapsto> ts @ [now]), None))"

definition bucket_check :: "buckets \<Rightarrow> limit \<Rightarrow> ustr \<Rightarrow> instant \<Rightarrow> nat option" where
  "bucket_check records limit key now =
     (case records (bucket limit, cut key) of
        None \<Rightarrow> None
      | Some ts \<Rightarrow>
          let inside = length (filter (\<lambda>t. now - t < window limit) ts) in
          if inside < allowance limit then None
          else let oldest = (case find (\<lambda>t. now - t < window limit) ts of
                               None \<Rightarrow> now | Some t \<Rightarrow> t)
               in Some (secs_up (window limit - (now - oldest))))"

definition bucket_note :: "buckets \<Rightarrow> limit \<Rightarrow> ustr \<Rightarrow> instant \<Rightarrow> buckets" where
  "bucket_note records limit key now =
     (let records = sweep records now;
          k = (bucket limit, cut key);
          ts = drop_old (window limit) now (or_default records k)
      in records(k \<mapsto> ts @ [now]))"

text \<open>
  Every queue is in order, and those under the bucket of the limit are no longer than its
  allowance. The limit is one whose window the sweep cannot cut short.
\<close>

definition sound_limit :: "limit \<Rightarrow> bool" where
  "sound_limit limit = (0 < allowance limit \<and> window limit \<le> DAY)"

definition buckets_ok :: "limit \<Rightarrow> instant \<Rightarrow> buckets \<Rightarrow> bool" where
  "buckets_ok limit now records = (\<forall>b k ts. records (b, k) = Some ts \<longrightarrow>
     in_order now ts \<and> (b = bucket limit \<longrightarrow> length ts \<le> allowance limit))"

definition bucket_queue :: "limit \<Rightarrow> buckets \<Rightarrow> ustr \<Rightarrow> instant list" where
  "bucket_queue limit records key = or_default records (bucket limit, key)"

lemma or_default_simps [simp]:
  "or_default Map.empty k = []"
  "or_default (m(j \<mapsto> v)) k = (if k = j then v else or_default m k)"
  by (auto simp: or_default_def)

lemma retain_Some: "retain p m k = Some v \<longleftrightarrow> m k = Some v \<and> p k v"
  by (auto simp: retain_def split: option.splits)

lemma or_default_retain:
  "or_default (retain p m) k = (if p k (or_default m k) then or_default m k else [])"
  by (auto simp: or_default_def retain_def split: option.splits)

lemma drop_old_all: "\<forall>t \<in> set ts. w \<le> now - t \<Longrightarrow> drop_old w now ts = []"
  by (simp add: drop_old_def)

lemma drop_old_stale:
  assumes "in_order now ts" "\<not> recent age now ts" "w \<le> age" "now \<le> later"
  shows "drop_old w later ts = []"
proof (intro drop_old_all ballI)
  fix t assume t: "t \<in> set ts"
  then have "t \<le> last ts" using assms(1)
    by (metis in_order_def empty_iff in_set_conv_nth last_conv_nth list.set(1) less_Suc_eq_le
        Suc_pred' length_greater_0_conv sorted_nth_mono diff_less zero_less_one)
  moreover have "age \<le> now - last ts" using t assms(2) by (auto simp: recent_def)
  ultimately show "w \<le> later - t" using assms(3,4) by linarith
qed

lemma drop_old_retain:
  assumes "in_order now (or_default m k)" "w \<le> age" "now \<le> later"
  shows "drop_old w later (or_default (retain (\<lambda>_ ts. recent age now ts) m) k) =
    drop_old w later (or_default m k)"
proof (cases "recent age now (or_default m k)")
  case False
  then show ?thesis using drop_old_stale [OF assms(1) False assms(2,3)]
    by (simp add: or_default_retain) (simp add: drop_old_def)
qed (simp add: or_default_retain)

lemma buckets_ok_queue:
  "buckets_ok limit now r \<Longrightarrow> in_order now (or_default r k)"
  by (cases k) (auto simp: buckets_ok_def or_default_def in_order_def split: option.splits)

lemma buckets_ok_take:
  assumes "buckets_ok limit now r"
  shows "buckets_ok limit now (fst (bucket_take r limit key now))"
proof -
  let ?k = "(bucket limit, cut key)"
  let ?ts = "drop_old (window limit) now (or_default (sweep r now) ?k)"
  have r: "buckets_ok limit now (sweep r now)"
    using assms by (auto simp: buckets_ok_def sweep_def retain_Some)
  have order: "in_order now ?ts" using buckets_ok_queue [OF r] by (rule in_order_drop_old)
  have "length ?ts \<le> length (or_default (sweep r now) ?k)"
    by (simp add: drop_old_def length_dropWhile_le)
  also have "\<dots> \<le> allowance limit" using r
    by (auto simp: buckets_ok_def or_default_def split: option.splits)
  finally have "length ?ts \<le> allowance limit" .
  with r order in_order_snoc [OF order] show ?thesis
    by (auto simp: bucket_take_def Let_def buckets_ok_def)
qed

lemma bucket_take_queue:
  assumes "buckets_ok limit now r" "window limit \<le> DAY"
  shows "drop_old (window limit) now (or_default (sweep r now) k) =
    drop_old (window limit) now (or_default r k)"
  unfolding sweep_def
  by (rule drop_old_retain [OF buckets_ok_queue [OF assms(1)] assms(2)]) simp

lemma sweep_others:
  assumes "buckets_ok limit now r" "window limit \<le> DAY" "now \<le> later"
  shows "drop_old (window limit) later (or_default (sweep r now) k) =
    drop_old (window limit) later (or_default r k)"
  unfolding sweep_def by (rule drop_old_retain [OF buckets_ok_queue [OF assms(1)] assms(2,3)])

text \<open>
  Under a limit of the panel the buckets are a sliding window; keys that agree in their first
  \<open>KEY_LENGTH\<close> characters share one.
\<close>

definition slot_queue :: "limit \<Rightarrow> buckets \<Rightarrow> ustr \<Rightarrow> instant list" where
  "slot_queue limit records key = or_default records (bucket limit, cut key)"

lemma buckets_sliding:
  assumes "sound_limit limit"
  shows "sliding_window (\<lambda>r. bucket_take r limit) cut (slot_queue limit) (allowance limit)
    (window limit) (buckets_ok limit)"
proof
  show "0 < allowance limit" using assms by (simp add: sound_limit_def)
  fix now later :: instant and r :: buckets and j k :: ustr
  assume ok: "buckets_ok limit now r"
  have day: "window limit \<le> DAY" using assms by (simp add: sound_limit_def)
  show "in_order now (slot_queue limit r k)"
    using buckets_ok_queue [OF ok] by (simp add: slot_queue_def)
  show "length (slot_queue limit r k) \<le> allowance limit"
    using ok by (auto simp: buckets_ok_def slot_queue_def or_default_def split: option.splits)
  show "buckets_ok limit now (fst (bucket_take r limit k now))" using ok by (rule buckets_ok_take)
  show "snd (bucket_take r limit k now) =
    (let ts = drop_old (window limit) now (slot_queue limit r k)
     in if allowance limit \<le> length ts then Some (wait_for (window limit) now (hd ts)) else None)"
    by (simp add: bucket_take_def Let_def slot_queue_def wait_for_def
        bucket_take_queue [OF ok day])
  show "slot_queue limit (fst (bucket_take r limit k now)) k =
    drop_old (window limit) now (slot_queue limit r k)
      @ (if snd (bucket_take r limit k now) = None then [now] else [])"
    by (simp add: bucket_take_def Let_def slot_queue_def bucket_take_queue [OF ok day])
  show "cut j \<noteq> cut k \<Longrightarrow> now \<le> later \<Longrightarrow>
    drop_old (window limit) later (slot_queue limit (fst (bucket_take r limit k now)) j) =
    drop_old (window limit) later (slot_queue limit r j)"
    by (simp add: bucket_take_def Let_def slot_queue_def sweep_others [OF ok day])
  show "now \<le> later \<Longrightarrow> buckets_ok limit later r"
    using ok by (auto simp: buckets_ok_def intro: in_order_later)
qed (simp add: slot_queue_def)

lemma limits_sound:
  "sound_limit REGISTER_PER_HOUR" "sound_limit REGISTER_PER_DAY" "sound_limit RESEND_PER_ADDRESS"
  "sound_limit RESET_ATTEMPTS" "sound_limit ADMIN_RESET_PER_ACCOUNT"
  by (simp_all add: sound_limit_def REGISTER_PER_HOUR_def REGISTER_PER_DAY_def
      RESEND_PER_ADDRESS_def RESET_ATTEMPTS_def ADMIN_RESET_PER_ACCOUNT_def limit_new_def
      HOUR_def DAY_def secs_def)

interpretation register_hour: sliding_window "\<lambda>r. bucket_take r REGISTER_PER_HOUR" cut
    "slot_queue REGISTER_PER_HOUR" "allowance REGISTER_PER_HOUR" "window REGISTER_PER_HOUR"
    "buckets_ok REGISTER_PER_HOUR"
  by (rule buckets_sliding) (rule limits_sound)

text \<open>The instants at which a run of attempts under a limit was let through for one key.\<close>

fun taken_at :: "limit \<Rightarrow> buckets \<Rightarrow> (ustr \<times> instant) list \<Rightarrow> ustr \<Rightarrow> instant list" where
  "taken_at limit r [] key = []"
| "taken_at limit r ((k, now) # as) key =
     (let (r', wait) = bucket_take r limit k now in
      (if cut k = cut key \<and> wait = None then [now] else []) @ taken_at limit r' as key)"

lemma taken_at_spread:
  assumes "sound_limit limit" "sorted (start # map snd as)" "buckets_ok limit start r"
    "slot_queue limit r key = []"
  shows "spread (allowance limit) (window limit) (taken_at limit r as key)"
proof -
  note sliding = buckets_sliding [OF assms(1)]
  have "taken_at limit r as key = sliding_window.admitted (\<lambda>r. bucket_take r limit) cut r as key" for r
    by (induction as arbitrary: r)
      (auto simp: sliding_window.admitted.simps [OF sliding] split_beta Let_def)
  with sliding_window.never_too_many [OF sliding, of start r key as] assms(2-4) show ?thesis by simp
qed

text \<open>
  \<open>check\<close> is what \<open>take\<close> would answer, and \<open>note\<close> is what \<open>take\<close> does when it admits.
\<close>

lemma check_is_take:
  assumes ok: "buckets_ok limit now r" and day: "sound_limit limit"
  shows "bucket_check r limit key now = snd (bucket_take r limit key now)"
proof -
  let ?k = "(bucket limit, cut key)"
  let ?ts = "or_default r ?k"
  have sorted: "sorted ?ts" using buckets_ok_queue [OF ok] by (simp add: in_order_def)
  have inside: "drop_old (window limit) now ?ts = filter (\<lambda>t. now - t < window limit) ?ts"
    using sorted by (rule drop_old_filter)
  have take: "snd (bucket_take r limit key now) =
      (let ts = filter (\<lambda>t. now - t < window limit) ?ts in
       if allowance limit \<le> length ts then Some (secs_up (window limit - (now - hd ts))) else None)"
    using day by (simp add: bucket_take_def Let_def bucket_take_queue [OF ok] inside sound_limit_def)
  have first: "find p ts = Some (hd (filter p ts))" if "filter p ts \<noteq> []" for p and ts :: "instant list"
    using that by (induction ts) auto
  show ?thesis
  proof (cases "r ?k")
    case None
    then show ?thesis using day by (simp add: take bucket_check_def or_default_def sound_limit_def)
  next
    case (Some ts)
    let ?in = "filter (\<lambda>t. now - t < window limit) ts"
    have "?in \<noteq> []" if "allowance limit \<le> length ?in"
      using that day by (auto simp: sound_limit_def)
    then show ?thesis using Some first [of "\<lambda>t. now - t < window limit" ts]
      by (auto simp: take bucket_check_def or_default_def Let_def)
  qed
qed

lemma note_is_take:
  "snd (bucket_take r limit key now) = None \<Longrightarrow>
    bucket_note r limit key now = fst (bucket_take r limit key now)"
  by (auto simp: bucket_take_def bucket_note_def Let_def split: if_splits)

subsection \<open>The console's limiter and its commands (\<open>console/mod.rs\<close>)\<close>

definition MAX_COMMAND_BYTES :: nat where "MAX_COMMAND_BYTES = 8 * 1024"
definition BURST :: nat where "BURST = 20"
definition COMMAND_WINDOW :: instant where "COMMAND_WINDOW = secs 10"

type_synonym commands = "id \<times> id \<rightharpoonup> instant list"

definition console_accept :: "commands \<Rightarrow> id \<times> id \<Rightarrow> instant \<Rightarrow> commands \<times> nat option" where
  "console_accept commands k now =
     (let commands = retain (\<lambda>_ ts. recent COMMAND_WINDOW now ts) commands;
          ts = drop_old COMMAND_WINDOW now (or_default commands k)
      in if BURST \<le> length ts
         then (commands(k \<mapsto> ts), Some (secs_up (COMMAND_WINDOW - (now - hd ts))))
         else (commands(k \<mapsto> ts @ [now]), None))"

definition check_command :: "ustr \<Rightarrow> unit result" where
  "check_command command =
     (if trim command = [] then Inl (failure_new 422 ''command_empty'')
      else if MAX_COMMAND_BYTES < byte_len command then Inl (failure_new 422 ''command_too_long'')
      else if \<exists>c \<in> set command. is_control c then Inl (failure_new 422 ''command_invalid'')
      else Inr ())"

definition commands_ok :: "instant \<Rightarrow> commands \<Rightarrow> bool" where
  "commands_ok now m = (\<forall>k ts. m k = Some ts \<longrightarrow> in_order now ts \<and> length ts \<le> BURST)"

lemma commands_ok_queue:
  "commands_ok now m \<Longrightarrow> in_order now (or_default m k) \<and> length (or_default m k) \<le> BURST"
  unfolding commands_ok_def or_default_def
  by (cases k; cases "m k") (simp_all add: in_order_def)

lemma retained_queue:
  assumes "commands_ok now m" "now \<le> later"
  shows "drop_old COMMAND_WINDOW later
      (or_default (retain (\<lambda>_ ts. recent COMMAND_WINDOW now ts) m) k) =
    drop_old COMMAND_WINDOW later (or_default m k)"
  using commands_ok_queue [OF assms(1)] assms(2) by (intro drop_old_retain) auto

lemma commands_ok_accept:
  assumes ok: "commands_ok now m"
  shows "commands_ok now (fst (console_accept m k now))"
proof -
  let ?m = "retain (\<lambda>_ ts. recent COMMAND_WINDOW now ts) m"
  let ?ts = "drop_old COMMAND_WINDOW now (or_default ?m k)"
  have m: "commands_ok now ?m" using ok by (auto simp: commands_ok_def retain_Some)
  have order: "in_order now ?ts" using commands_ok_queue [OF m] by (blast intro: in_order_drop_old)
  have "length ?ts \<le> length (or_default ?m k)" by (simp add: drop_old_def length_dropWhile_le)
  then have "length ?ts \<le> BURST" using commands_ok_queue [OF m, of k] by simp
  with m order in_order_snoc [OF order] show ?thesis
    by (auto simp: console_accept_def Let_def commands_ok_def)
qed

interpretation console: sliding_window console_accept id or_default BURST COMMAND_WINDOW commands_ok
proof
  fix now later :: instant and m :: commands and j k :: "id \<times> id"
  assume ok: "commands_ok now m"
  show "in_order now (or_default m k)" "length (or_default m k) \<le> BURST"
    using commands_ok_queue [OF ok] by auto
  show "commands_ok now (fst (console_accept m k now))" using ok by (rule commands_ok_accept)
  show "snd (console_accept m k now) =
    (let ts = drop_old COMMAND_WINDOW now (or_default m k)
     in if BURST \<le> length ts then Some (wait_for COMMAND_WINDOW now (hd ts)) else None)"
    by (simp add: console_accept_def Let_def wait_for_def retained_queue [OF ok])
  show "or_default (fst (console_accept m k now)) k =
    drop_old COMMAND_WINDOW now (or_default m k)
      @ (if snd (console_accept m k now) = None then [now] else [])"
    by (simp add: console_accept_def Let_def retained_queue [OF ok])
  show "id j \<noteq> id k \<Longrightarrow> now \<le> later \<Longrightarrow>
    drop_old COMMAND_WINDOW later (or_default (fst (console_accept m k now)) j) =
    drop_old COMMAND_WINDOW later (or_default m j)"
    by (simp add: console_accept_def Let_def retained_queue [OF ok])
  show "now \<le> later \<Longrightarrow> commands_ok later m"
    using ok by (auto simp: commands_ok_def intro: in_order_later)
qed (simp_all add: BURST_def)

lemma check_command_iff:
  "check_command c = Inr () \<longleftrightarrow>
    trim c \<noteq> [] \<and> byte_len c \<le> 8192 \<and> (\<forall>x \<in> set c. \<not> is_control x)"
  by (auto simp: check_command_def MAX_COMMAND_BYTES_def)

subsection \<open>The brake on sign-ins (\<open>auth/brake.rs\<close>)\<close>

text \<open>
  \<open>lower\<close> is \<open>str::to_lowercase\<close>, whose Unicode tables are not part of the repository; an
  \<open>IpAddr\<close> is an opaque value.
\<close>

definition BRAKE_LIMIT :: nat where "BRAKE_LIMIT = 10"
definition BRAKE_WINDOW :: instant where "BRAKE_WINDOW = secs (15 * 60)"

datatype 'a brake_key = Account ustr | Address 'a

record brake_record =
  failures :: nat
  since :: instant
  blocked_until :: "instant option"

type_synonym 'a brake = "'a brake_key \<rightharpoonup> brake_record"

definition brake_keys :: "(ustr \<Rightarrow> ustr) \<Rightarrow> ustr \<Rightarrow> 'a option \<Rightarrow> 'a brake_key list" where
  "brake_keys lower username address =
     Account (take KEY_LENGTH (lower username)) #
       (case address of None \<Rightarrow> [] | Some a \<Rightarrow> [Address a])"

definition blocked :: "brake_record \<Rightarrow> instant \<Rightarrow> bool" where
  "blocked r now = (case blocked_until r of None \<Rightarrow> False | Some until \<Rightarrow> now < until)"

definition alive :: "brake_record \<Rightarrow> instant \<Rightarrow> bool" where
  "alive r now = (blocked r now \<or> now - since r \<le> BRAKE_WINDOW)"

fun check_keys :: "'a brake \<Rightarrow> instant \<Rightarrow> 'a brake_key list \<Rightarrow> unit result" where
  "check_keys records now [] = Inr ()"
| "check_keys records now (k # ks) =
     (case records k of
        None \<Rightarrow> check_keys records now ks
      | Some r \<Rightarrow> if blocked r now then Inl (failure_new 429 ''too_many_attempts'')
                  else check_keys records now ks)"

definition brake_check ::
  "(ustr \<Rightarrow> ustr) \<Rightarrow> 'a brake \<Rightarrow> ustr \<Rightarrow> 'a option \<Rightarrow> instant \<Rightarrow> unit result" where
  "brake_check lower records username address now =
     check_keys records now (brake_keys lower username address)"

definition fresh_record :: "instant \<Rightarrow> brake_record" where
  "fresh_record now = \<lparr>failures = 0, since = now, blocked_until = None\<rparr>"

definition counted :: "instant \<Rightarrow> brake_record option \<Rightarrow> brake_record" where
  "counted now entry =
     (let r = (case entry of None \<Rightarrow> fresh_record now | Some r \<Rightarrow> r);
          r = (if BRAKE_WINDOW < now - since r then fresh_record now else r);
          r = r\<lparr>failures := failures r + 1\<rparr>
      in if BRAKE_LIMIT \<le> failures r then r\<lparr>blocked_until := Some (now + BRAKE_WINDOW)\<rparr> else r)"

definition count_failure :: "instant \<Rightarrow> 'a brake_key \<Rightarrow> 'a brake \<Rightarrow> 'a brake" where
  "count_failure now k records = records(k \<mapsto> counted now (records k))"

definition brake_note_failure ::
  "(ustr \<Rightarrow> ustr) \<Rightarrow> 'a brake \<Rightarrow> ustr \<Rightarrow> 'a option \<Rightarrow> instant \<Rightarrow> 'a brake" where
  "brake_note_failure lower records username address now =
     fold (count_failure now) (brake_keys lower username address)
       (retain (\<lambda>_ r. alive r now) records)"

definition brake_forget :: "(ustr \<Rightarrow> ustr) \<Rightarrow> 'a brake \<Rightarrow> ustr \<Rightarrow> 'a option \<Rightarrow> 'a brake" where
  "brake_forget lower records username address =
     fold (\<lambda>k m. m(k := None)) (brake_keys lower username address) records"

lemma check_keys_iff:
  "check_keys m now ks = Inr () \<longleftrightarrow> (\<forall>k \<in> set ks. \<forall>r. m k = Some r \<longrightarrow> \<not> blocked r now)"
  by (induction ks) (auto split: option.splits)

lemma check_keys_Inl:
  "check_keys m now ks = Inl e \<longleftrightarrow> e = failure_new 429 ''too_many_attempts'' \<and>
     (\<exists>k \<in> set ks. \<exists>r. m k = Some r \<and> blocked r now)"
  by (induction ks) (auto split: option.splits)

lemma distinct_brake_keys [simp]: "distinct (brake_keys lower u a)"
  by (auto simp: brake_keys_def split: option.splits)

lemma fold_count:
  "distinct ks \<Longrightarrow> fold (count_failure now) ks m k =
     (if k \<in> set ks then Some (counted now (m k)) else m k)"
  by (induction ks arbitrary: m) (auto simp: count_failure_def)

lemma note_failure_lookup:
  "brake_note_failure lower m u a now k =
     (if k \<in> set (brake_keys lower u a)
      then Some (counted now (retain (\<lambda>_ r. alive r now) m k))
      else retain (\<lambda>_ r. alive r now) m k)"
  by (simp add: brake_note_failure_def fold_count)

lemma fold_remove: "fold (\<lambda>k m. m(k := None)) ks m k = (if k \<in> set ks then None else m k)"
  by (induction ks arbitrary: m) auto

lemma forget_lookup:
  "brake_forget lower m u a k = (if k \<in> set (brake_keys lower u a) then None else m k)"
  by (simp add: brake_forget_def fold_remove)

lemma forget_lets_in: "brake_check lower (brake_forget lower m u a) u a now = Inr ()"
  by (simp add: brake_check_def check_keys_iff forget_lookup)

text \<open>A run of failed attempts; what the record of one key holds afterwards.\<close>

definition note_all ::
  "(ustr \<Rightarrow> ustr) \<Rightarrow> (ustr \<times> 'a option \<times> instant) list \<Rightarrow> 'a brake \<Rightarrow> 'a brake" where
  "note_all lower es m = fold (\<lambda>(u, a, t) m. brake_note_failure lower m u a t) es m"

definition hits :: "(ustr \<Rightarrow> ustr) \<Rightarrow> 'a brake_key \<Rightarrow> (ustr \<times> 'a option \<times> instant) list \<Rightarrow> instant list" where
  "hits lower k es =
     map (\<lambda>(u, a, t). t) (filter (\<lambda>(u, a, t). k \<in> set (brake_keys lower u a)) es)"

definition record_of :: "instant list \<Rightarrow> brake_record option" where
  "record_of ts = (if ts = [] then None else Some \<lparr>failures = length ts, since = hd ts,
     blocked_until = (if BRAKE_LIMIT \<le> length ts then Some (last ts + BRAKE_WINDOW) else None)\<rparr>)"

lemma hits_times: "t \<in> set (hits lower k es) \<Longrightarrow> \<exists>u a. (u, a, t) \<in> set es"
  by (auto simp: hits_def)

lemma counted_next:
  assumes "\<forall>t \<in> set ts. now - t \<le> BRAKE_WINDOW"
  shows "Some (counted now (record_of ts)) = record_of (ts @ [now])"
proof -
  have "\<not> BRAKE_WINDOW < now - hd ts" if "ts \<noteq> []"
    using assms hd_in_set [OF that] by (simp add: not_less)
  then show ?thesis
    by (auto simp: counted_def record_of_def fresh_record_def BRAKE_LIMIT_def Let_def)
qed

lemma counted_run:
  assumes "m k = None" "\<forall>(u, a, t) \<in> set es. start \<le> t \<and> t \<le> start + BRAKE_WINDOW"
  shows "note_all lower es m k = record_of (hits lower k es)"
  using assms(2)
proof (induction es rule: rev_induct)
  case Nil
  then show ?case using assms(1) by (simp add: note_all_def hits_def record_of_def)
next
  case (snoc e es)
  obtain u a now where e: "e = (u, a, now)" by (cases e)
  let ?ts = "hits lower k es"
  have "start \<le> t" if "t \<in> set ?ts" for t using hits_times [OF that] snoc.prems by auto
  moreover have "now \<le> start + BRAKE_WINDOW" using snoc.prems e by auto
  ultimately have young: "\<forall>t \<in> set ?ts. now - t \<le> BRAKE_WINDOW" by fastforce
  have IH: "note_all lower es m k = record_of ?ts" using snoc by auto
  have "retain (\<lambda>_ r. alive r now) (note_all lower es m) k = record_of ?ts"
    using young by (auto simp: retain_def IH record_of_def alive_def split: option.splits
        dest: hd_in_set)
  with young show ?case
    by (auto simp: e note_all_def note_failure_lookup hits_def [of _ _ "es @ _"] counted_next)
      (auto simp: hits_def)
qed

lemma blocked_record_of:
  "record_of ts = Some r \<Longrightarrow> blocked r now \<longleftrightarrow> BRAKE_LIMIT \<le> length ts \<and> now < last ts + BRAKE_WINDOW"
  by (auto simp: record_of_def blocked_def split: if_splits)

end
