(* ===== verification/Supervise.thy ===== *)
theory Supervise
  imports Proto
begin

text \<open>
  The supervisor beside each game process (\<open>supervise/ring.rs\<close>, \<open>supervise/mod.rs\<close>), the
  states of a run (\<open>servers/state.rs\<close>, \<open>power_state_of\<close> of \<open>ops/events.rs\<close>) and the panel's end
  of the socket (\<open>servers/hub.rs\<close>). A supervisor keeps the last lines of its game in a ring and
  the messages it could not deliver in a queue; both drop from the front when full, which the
  locale \<open>bounded_log\<close> states once for both.
\<close>

subsection \<open>Logs that keep the newest entries\<close>

locale bounded_log =
  fixes put :: "'a \<Rightarrow> 'a list \<Rightarrow> 'a list" and bound :: nat
  assumes put_keeps: "length xs \<le> bound \<Longrightarrow> put x xs = last_n bound (xs @ [x])"
begin

lemma put_length: "length xs \<le> bound \<Longrightarrow> length (put x xs) \<le> bound"
  by (simp add: put_keeps)

lemma put_all: "length xs \<le> bound \<Longrightarrow> fold put ys xs = last_n bound (xs @ ys)"
proof (induction ys arbitrary: xs)
  case (Cons y ys)
  then have "fold put (y # ys) xs = last_n bound (last_n bound (xs @ [y]) @ ys)"
    by (simp add: put_keeps)
  also have "\<dots> = last_n bound (xs @ y # ys)" by (simp add: last_n_append_last_n)
  finally show ?case .
qed (simp add: last_n_all)

lemma newest_stays: "length xs \<le> bound \<Longrightarrow> 0 < bound \<Longrightarrow> x \<in> set (put x xs)"
  by (auto simp: put_keeps last_n_def Suc_diff_le)

end

subsection \<open>The ring (\<open>supervise/ring.rs\<close>)\<close>

text \<open>The sequence numbers are \<open>u64\<close>; they are counted from 1 and do not wrap in a run.\<close>

record ring =
  ring_lines :: "(nat \<times> ustr \<times> output_stream) list"
  ring_capacity :: nat
  ring_next_seq :: nat

definition ring_new :: "nat \<Rightarrow> ring" where
  "ring_new c = \<lparr>ring_lines = [], ring_capacity = c, ring_next_seq = 1\<rparr>"

definition pop_when_full :: "nat \<Rightarrow> 'a \<Rightarrow> 'a list \<Rightarrow> 'a list" where
  "pop_when_full c x xs = (if length xs = c then tl xs else xs) @ [x]"

definition ring_push :: "ring \<Rightarrow> ustr \<Rightarrow> output_stream \<Rightarrow> ring \<times> nat" where
  "ring_push r line stream =
     (r\<lparr>ring_next_seq := ring_next_seq r + 1,
        ring_lines := pop_when_full (ring_capacity r) (ring_next_seq r, line, stream) (ring_lines r)\<rparr>, ring_next_seq r)"

definition ring_replay :: "ring \<Rightarrow> supervisor_message list" where
  "ring_replay r = map (\<lambda>(seq, line, stream). Output seq line stream) (ring_lines r)"

definition RING_CAPACITY :: nat where "RING_CAPACITY = 2000"

lemma last_n_snoc_full: "length xs = n \<Longrightarrow> 0 < n \<Longrightarrow> last_n n (xs @ [x]) = tl xs @ [x]"
  by (cases xs) (auto simp: last_n_def)

interpretation ring_log: bounded_log "pop_when_full RING_CAPACITY" RING_CAPACITY
  by unfold_locales
    (auto simp: pop_when_full_def last_n_snoc_full last_n_all RING_CAPACITY_def)

definition ring_ok :: "ring \<Rightarrow> bool" where
  "ring_ok r = (ring_capacity r = RING_CAPACITY \<and> length (ring_lines r) \<le> RING_CAPACITY \<and>
     map fst (ring_lines r) = [ring_next_seq r - length (ring_lines r) ..< ring_next_seq r] \<and>
     length (ring_lines r) < ring_next_seq r)"

lemma ring_new_ok: "ring_ok (ring_new RING_CAPACITY)"
  by (simp add: ring_ok_def ring_new_def)

lemma ring_push_ok:
  assumes "ring_ok r"
  shows "ring_ok (fst (ring_push r line stream))"
proof (cases "length (ring_lines r) = RING_CAPACITY")
  case True
  have "map fst (tl (ring_lines r)) = tl [ring_next_seq r - length (ring_lines r) ..< ring_next_seq r]"
    using assms by (simp add: ring_ok_def map_tl)
  also have "\<dots> = [Suc (ring_next_seq r - length (ring_lines r)) ..< ring_next_seq r]"
    using assms True by (subst upt_rec) (auto simp: ring_ok_def RING_CAPACITY_def)
  finally have "map fst (tl (ring_lines r)) = [Suc (ring_next_seq r - length (ring_lines r)) ..< ring_next_seq r]" .
  moreover have "2000 < ring_next_seq r" using assms True by (simp add: ring_ok_def RING_CAPACITY_def)
  then have "Suc (ring_next_seq r - 2000) = ring_next_seq r - 1999" by arith
  ultimately show ?thesis using assms True
    by (auto simp: ring_ok_def ring_push_def pop_when_full_def RING_CAPACITY_def Suc_diff_le)
next
  case False
  with assms show ?thesis
    by (auto simp: ring_ok_def ring_push_def pop_when_full_def Suc_diff_le)
qed

text \<open>A whole run of lines: the ring holds the newest, numbered without a gap.\<close>

definition push_all :: "ring \<Rightarrow> (ustr \<times> output_stream) list \<Rightarrow> ring" where
  "push_all r ls = fold (\<lambda>(l, s) r. fst (ring_push r l s)) ls r"

lemma push_all_ok: "ring_ok r \<Longrightarrow> ring_ok (push_all r ls)"
  by (induction ls arbitrary: r) (auto simp: push_all_def ring_push_ok)

lemma push_all_lines:
  assumes "ring_ok r"
  shows "map snd (ring_lines (push_all r ls)) = last_n RING_CAPACITY (map snd (ring_lines r) @ ls)"
    and "ring_next_seq (push_all r ls) = ring_next_seq r + length ls"
proof -
  have "map snd (ring_lines (push_all r ls)) = last_n RING_CAPACITY (map snd (ring_lines r) @ ls) \<and>
    ring_next_seq (push_all r ls) = ring_next_seq r + length ls"
    using assms
  proof (induction ls arbitrary: r)
    case Nil
    then show ?case by (simp add: push_all_def ring_ok_def last_n_all)
  next
    case (Cons x ls)
    obtain l s where x: "x = (l, s)" by (cases x)
    let ?r = "fst (ring_push r l s)"
    have ok: "ring_ok ?r" using Cons.prems by (rule ring_push_ok)
    have "ring_lines ?r = last_n RING_CAPACITY (ring_lines r @ [(ring_next_seq r, l, s)])"
      using Cons.prems ring_log.put_keeps [of "ring_lines r"]
      by (simp only: ring_push_def ring_ok_def) simp
    then have "map snd (ring_lines ?r) = last_n RING_CAPACITY (map snd (ring_lines r) @ [x])"
      by (simp add: last_n_def drop_map [symmetric] x del: drop_append)
    then show ?case using Cons.IH [OF ok]
      by (simp add: push_all_def x last_n_append_last_n ring_push_def)
  qed
  then show "map snd (ring_lines (push_all r ls)) = last_n RING_CAPACITY (map snd (ring_lines r) @ ls)"
    "ring_next_seq (push_all r ls) = ring_next_seq r + length ls" by auto
qed

subsection \<open>The states of a run (\<open>servers/state.rs\<close>)\<close>

datatype run_state =
  Stopped | Installing | Starting | Running | Stopping | Terminated | Crashed | OutOfMemory

definition SIGKILL :: int where "SIGKILL = 9"
definition SIGTERM :: int where "SIGTERM = 15"

definition after_exit :: "int option \<Rightarrow> int option \<Rightarrow> bool \<Rightarrow> run_state" where
  "after_exit exit_code signal oom_killed =
     (if oom_killed then OutOfMemory
      else if exit_code = Some 0 then Stopped
      else if signal = Some SIGTERM \<or> exit_code = Some (128 + SIGTERM) then Terminated
      else Crashed)"

definition is_live :: "run_state \<Rightarrow> bool" where
  "is_live s \<longleftrightarrow> s \<in> {Installing, Starting, Running, Stopping}"

definition can_become :: "run_state \<Rightarrow> run_state \<Rightarrow> bool" where
  "can_become a b =
     (if a = b then False
      else case a of
        Installing \<Rightarrow> b \<in> {Starting, Stopped, Crashed}
      | Starting \<Rightarrow> b \<in> {Running, Stopping, Terminated, Crashed, OutOfMemory, Stopped}
      | Running \<Rightarrow> b \<in> {Stopping, Terminated, Crashed, OutOfMemory, Stopped}
      | Stopping \<Rightarrow> b \<in> {Stopped, Terminated, Crashed, OutOfMemory}
      | _ \<Rightarrow> b \<in> {Installing, Starting})"

datatype power_state = PowerStopped | PowerStarting | PowerRunning | PowerStopping | PowerCrashed

fun power_state_of :: "run_state \<Rightarrow> power_state \<times> bool" where
  "power_state_of Starting = (PowerStarting, False)"
| "power_state_of Running = (PowerRunning, False)"
| "power_state_of Stopping = (PowerStopping, False)"
| "power_state_of Crashed = (PowerCrashed, False)"
| "power_state_of OutOfMemory = (PowerCrashed, True)"
| "power_state_of _ = (PowerStopped, False)"

lemma after_exit_dead: "\<not> is_live (after_exit c s oom)"
  by (simp add: after_exit_def is_live_def)

lemma after_exit_reachable:
  "s \<in> {Starting, Running, Stopping} \<Longrightarrow> can_become s (after_exit c sig oom)"
  by (auto simp: after_exit_def can_become_def)

lemma dead_states_alike:
  "\<not> is_live a \<Longrightarrow> can_become a b \<longleftrightarrow> a \<noteq> b \<and> b \<in> {Installing, Starting}"
  by (cases a) (auto simp: is_live_def can_become_def)

text \<open>Every way from one dead state to another leads through a start or an installation.\<close>

lemma live_before_dead: "can_become a b \<Longrightarrow> \<not> is_live b \<Longrightarrow> is_live a"
  by (cases a; cases b) (simp_all add: is_live_def can_become_def)

lemma running_from_starting: "can_become a Running \<longleftrightarrow> a = Starting"
  by (cases a) (auto simp: can_become_def)

subsection \<open>The panel's end of the socket (\<open>servers/hub.rs\<close>)\<close>

text \<open>
  A \<open>Link\<close> is shared by reference between the map of links and the task that serves the
  connection, so links live in a store and the map holds references: an older connection that
  ends after a newer one took its place still has its own link.
\<close>

record link =
  link_server :: ustr
  link_pid :: nat
  link_outbox :: "panel_message list"
  link_state :: run_state

record console_line =
  cl_seq :: nat
  cl_line :: ustr
  cl_stderr :: bool

record hub =
  hub_tokens :: "ustr \<rightharpoonup> ustr"
  hub_links :: "ustr \<rightharpoonup> nat"
  link_store :: "link list"

definition hub_new :: hub where
  "hub_new = \<lparr>hub_tokens = Map.empty, hub_links = Map.empty, link_store = []\<rparr>"

definition load_tokens :: "(ustr \<times> ustr) list \<Rightarrow> hub \<Rightarrow> hub" where
  "load_tokens known h = h\<lparr>hub_tokens := fold (\<lambda>(s, t) m. m(s \<mapsto> t)) known (hub_tokens h)\<rparr>"

definition set_token :: "ustr \<Rightarrow> ustr \<Rightarrow> hub \<Rightarrow> hub" where
  "set_token server token h = h\<lparr>hub_tokens := (hub_tokens h)(server \<mapsto> token)\<rparr>"

definition forget_token :: "ustr \<Rightarrow> hub \<Rightarrow> hub" where
  "forget_token server h = h\<lparr>hub_tokens := (hub_tokens h)(server := None)\<rparr>"

definition hub_link :: "hub \<Rightarrow> ustr \<Rightarrow> link option" where
  "hub_link h server = map_option (\<lambda>r. link_store h ! r) (hub_links h server)"

definition link_send :: "nat \<Rightarrow> panel_message \<Rightarrow> hub \<Rightarrow> hub" where
  "link_send r m h = h\<lparr>link_store := (link_store h)[r := (link_store h ! r)\<lparr>link_outbox :=
     link_outbox (link_store h ! r) @ [m]\<rparr>]\<rparr>"

definition request_stop :: "nat \<Rightarrow> ustr option \<Rightarrow> nat \<Rightarrow> hub \<Rightarrow> hub" where
  "request_stop r command grace = link_send r (Stop command grace)"

definition link_kill :: "nat \<Rightarrow> hub \<Rightarrow> hub" where
  "link_kill r = link_send r Kill"

text \<open>The first message of a connection: the answer, the reference it holds from then on.\<close>

definition greet :: "supervisor_message \<Rightarrow> hub \<Rightarrow> hub \<times> panel_message \<times> nat option" where
  "greet m h =
     (case m of
        Hello server token pid _ \<Rightarrow>
          if hub_tokens h server = Some token
          then (h\<lparr>link_store := link_store h @ [\<lparr>link_server = server, link_pid = pid, link_outbox = [],
                     link_state = Running\<rparr>],
                  hub_links := (hub_links h)(server \<mapsto> length (link_store h))\<rparr>, Accepted,
                Some (length (link_store h)))
          else (h, Rejected (lit ''unknown server or token''), None)
      | _ \<Rightarrow> (h, Rejected (lit ''expected a greeting''), None))"

definition set_link_state :: "nat \<Rightarrow> run_state \<Rightarrow> hub \<Rightarrow> hub" where
  "set_link_state r s h = h\<lparr>link_store := (link_store h)[r := (link_store h ! r)\<lparr>link_state := s\<rparr>]\<rparr>"

definition absorb :: "nat \<Rightarrow> supervisor_message \<Rightarrow> hub \<Rightarrow> hub \<times> console_line list" where
  "absorb r m h =
     (case m of
        Output seq line stream \<Rightarrow>
          (h, [\<lparr>cl_seq = seq, cl_line = line, cl_stderr = (stream = Stderr)\<rparr>])
      | Started _ \<Rightarrow> (set_link_state r Running h, [])
      | Exited c signal oom \<Rightarrow> (set_link_state r (after_exit c signal oom) h, [])
      | Hello _ _ _ _ \<Rightarrow> (h, []))"

text \<open>The end of the connection that holds \<open>r\<close>: \<open>Arc::ptr_eq\<close> compares references.\<close>

definition detach :: "nat \<Rightarrow> hub \<Rightarrow> hub" where
  "detach r h =
     (let server = link_server (link_store h ! r) in
      if hub_links h server = Some r then h\<lparr>hub_links := (hub_links h)(server := None)\<rparr> else h)"

text \<open>How \<open>serve\<close> ends: at the end of the stream, or with a line that cannot be read (an error of the socket,
  bytes that are no UTF-8), whose question mark leaves the function before the link is taken back.\<close>

definition connection_over :: "bool \<Rightarrow> nat \<Rightarrow> hub \<Rightarrow> hub" where
  "connection_over unreadable r h = (if unreadable then h else detach r h)"

definition hub_ok :: "hub \<Rightarrow> bool" where
  "hub_ok h = (\<forall>server r. hub_links h server = Some r \<longrightarrow>
     r < length (link_store h) \<and> link_server (link_store h ! r) = server)"

lemma hub_okD: "hub_ok h \<Longrightarrow> hub_links h server = Some r \<Longrightarrow>
    r < length (link_store h) \<and> link_server (link_store h ! r) = server"
  by (simp add: hub_ok_def)

lemma hub_okI: "(\<And>server r. hub_links h server = Some r \<Longrightarrow>
    r < length (link_store h) \<and> link_server (link_store h ! r) = server) \<Longrightarrow> hub_ok h"
  by (simp add: hub_ok_def)

lemma update_keeps_server:
  "(\<And>l. link_server (f l) = link_server l) \<Longrightarrow>
    link_server (ls[r := f (ls ! r)] ! q) = link_server (ls ! q)"
  by (cases "r < length ls"; cases "q = r") (simp_all add: list_update_beyond)

lemma hub_new_ok: "hub_ok hub_new"
  by (simp add: hub_ok_def hub_new_def)

lemma greet_ok:
  assumes "hub_ok h"
  shows "hub_ok (fst (greet m h))"
proof (cases "\<exists>server token pid v. m = Hello server token pid v \<and> hub_tokens h server = Some token")
  case True
  then obtain server token pid v where m: "m = Hello server token pid v" "hub_tokens h server = Some token"
    by blast
  show ?thesis
  proof (rule hub_okI)
    fix s r assume r: "hub_links (fst (greet m h)) s = Some r"
    show "r < length (link_store (fst (greet m h))) \<and> link_server (link_store (fst (greet m h)) ! r) = s"
    proof (cases "s = server")
      case False
      with r m have "hub_links h s = Some r" by (simp add: greet_def)
      then show ?thesis using hub_okD [OF assms, of s r] m by (simp add: greet_def nth_append)
    qed (use r m in \<open>simp add: greet_def nth_append\<close>)
  qed
next
  case False
  then have "fst (greet m h) = h" by (cases m) (auto simp: greet_def)
  with assms show ?thesis by simp
qed

lemma set_link_state_ok:
  assumes "hub_ok h"
  shows "hub_ok (set_link_state r s h)"
proof (rule hub_okI)
  fix server q assume "hub_links (set_link_state r s h) server = Some q"
  then show "q < length (link_store (set_link_state r s h)) \<and>
      link_server (link_store (set_link_state r s h) ! q) = server"
    using hub_okD [OF assms, of server q]
    by (simp add: set_link_state_def update_keeps_server [of "link_state_update (\<lambda>_. s)"])
qed

lemma link_send_ok:
  assumes "hub_ok h"
  shows "hub_ok (link_send r m h)"
proof (rule hub_okI)
  fix server q assume "hub_links (link_send r m h) server = Some q"
  then show "q < length (link_store (link_send r m h)) \<and>
      link_server (link_store (link_send r m h) ! q) = server"
    using hub_okD [OF assms, of server q]
    by (simp add: link_send_def
        update_keeps_server [of "\<lambda>l. l\<lparr>link_outbox := link_outbox l @ [m]\<rparr>"])
qed

lemma absorb_ok: "hub_ok h \<Longrightarrow> hub_ok (fst (absorb r m h))"
  by (cases m) (simp_all add: absorb_def set_link_state_ok)

lemma detach_ok: "hub_ok h \<Longrightarrow> hub_ok (detach r h)"
  by (rule hub_okI) (auto simp: detach_def Let_def split: if_splits dest: hub_okD)

lemma tokens_ok:
  "hub_ok h \<Longrightarrow> hub_ok (set_token s t h)" "hub_ok h \<Longrightarrow> hub_ok (forget_token s h)"
  "hub_ok h \<Longrightarrow> hub_ok (load_tokens known h)"
  by (simp_all only: hub_ok_def set_token_def forget_token_def load_tokens_def) simp_all

lemma detach_lookup:
  assumes "hub_ok h"
  shows "hub_links (detach r h) server = (if hub_links h server = Some r then None else hub_links h server)"
proof (cases "hub_links h server = Some r")
  case True
  then have "link_server (link_store h ! r) = server" using hub_okD [OF assms] by blast
  with True show ?thesis by (simp add: detach_def)
qed (auto simp: detach_def Let_def)

subsection \<open>The supervisor (\<open>supervise/mod.rs\<close>)\<close>

text \<open>
  \<open>sup_channel\<close> is the bounded queue between the readers of the game's output and the loop that
  talks to the panel, \<open>sup_waiting\<close> the messages whose senders wait for a place in it, in the order
  in which the channel will let them in, \<open>sup_pending\<close> what could not be delivered.
\<close>

record supervisor =
  sup_ring :: ring
  sup_channel :: "supervisor_message list"
  sup_waiting :: "supervisor_message list"
  sup_pending :: "supervisor_message list"

definition CHANNEL_DEPTH :: nat where "CHANNEL_DEPTH = 256"

definition sup_new :: supervisor where
  "sup_new = \<lparr>sup_ring = ring_new RING_CAPACITY, sup_channel = [], sup_waiting = [], sup_pending = []\<rparr>"

text \<open>\<open>tx.send(\<dots>).await\<close>: at once where there is a place and nobody waits, else the sender waits;
  \<open>let_in\<close> is the first of them getting its place.\<close>

definition enqueue_message :: "supervisor_message \<Rightarrow> supervisor \<Rightarrow> supervisor" where
  "enqueue_message m s =
     (if sup_waiting s = [] \<and> length (sup_channel s) < CHANNEL_DEPTH then s\<lparr>sup_channel := sup_channel s @ [m]\<rparr>
      else s\<lparr>sup_waiting := sup_waiting s @ [m]\<rparr>)"

definition let_in :: "supervisor \<Rightarrow> supervisor" where
  "let_in s =
     (case sup_waiting s of
        [] \<Rightarrow> s
      | m # ms \<Rightarrow>
          if length (sup_channel s) < CHANNEL_DEPTH then s\<lparr>sup_channel := sup_channel s @ [m], sup_waiting := ms\<rparr> else s)"

text \<open>\<open>spawn_reader\<close>: one line of the game. A reader whose message waits reads no further.\<close>

definition read_line :: "ustr \<Rightarrow> output_stream \<Rightarrow> supervisor \<Rightarrow> supervisor" where
  "read_line line stream s =
     (let (r, seq) = ring_push (sup_ring s) line stream in
      enqueue_message (Output seq line stream) (s\<lparr>sup_ring := r\<rparr>))"

fun said_by :: "output_stream \<Rightarrow> supervisor_message \<Rightarrow> bool" where
  "said_by stream (Output _ _ st) = (st = stream)"
| "said_by stream _ = False"

text \<open>\<open>watch_exit\<close>: the game ended; \<open>forced\<close> says an ending of ours
  was under way, \<open>oom_seen\<close> is what \<open>was_oom_killed\<close> reads from the control group. The readers
  may still hold lines the game wrote before, and send them behind the message.\<close>

definition exit_message :: "int option \<Rightarrow> int option \<Rightarrow> bool \<Rightarrow> bool \<Rightarrow> supervisor_message" where
  "exit_message exit_code signal forced oom_seen =
     Exited exit_code signal (signal = Some SIGKILL \<and> \<not> forced \<and> oom_seen)"

definition watch_exit :: "int option \<Rightarrow> int option \<Rightarrow> bool \<Rightarrow> bool \<Rightarrow> supervisor \<Rightarrow> supervisor" where
  "watch_exit exit_code signal forced oom_seen s =
     enqueue_message (exit_message exit_code signal forced oom_seen) s"

definition drop_front :: "nat \<Rightarrow> 'a \<Rightarrow> 'a list \<Rightarrow> 'a list" where
  "drop_front c x xs = (if c \<le> length xs then tl xs else xs) @ [x]"

text \<open>One \<open>try_recv\<close> of \<open>drain_into\<close>, and the whole loop over what the channel holds.\<close>

definition drain_one :: "supervisor \<Rightarrow> supervisor" where
  "drain_one s =
     (case sup_channel s of
        [] \<Rightarrow> s
      | m # ms \<Rightarrow> s\<lparr>sup_channel := ms, sup_pending := drop_front RING_CAPACITY m (sup_pending s)\<rparr>)"

definition drain_into :: "supervisor \<Rightarrow> supervisor" where
  "drain_into s = (drain_one ^^ length (sup_channel s)) s"

interpretation pending_log: bounded_log "drop_front RING_CAPACITY" RING_CAPACITY
  by unfold_locales
    (auto simp: drop_front_def last_n_snoc_full last_n_all RING_CAPACITY_def)

text \<open>
  \<open>serve_panel\<close>. After the greeting the ring is replayed and the pending messages follow; then
  every message of the channel is passed on. \<open>n\<close> is the number of writes the socket still
  takes: the write after that fails. What was written is the second component, and the third
  says whether the connection still stands.
\<close>

fun flush_pending ::
  "nat \<Rightarrow> supervisor_message list \<Rightarrow> supervisor_message list \<times> supervisor_message list \<times> bool" where
  "flush_pending n [] = ([], [], True)"
| "flush_pending 0 (m # ms) = ([], ms, False)"
| "flush_pending (Suc n) (m # ms) =
     (let (sent, left, up) = flush_pending n ms in (m # sent, left, up))"

definition attach :: "nat \<Rightarrow> supervisor \<Rightarrow> supervisor \<times> supervisor_message list \<times> bool" where
  "attach n s =
     (let replay = ring_replay (sup_ring s) in
      if n < length replay then (s, take n replay, False)
      else let (sent, left, up) = flush_pending (n - length replay) (sup_pending s)
           in (s\<lparr>sup_pending := left\<rparr>, replay @ sent, up))"

definition forward :: "bool \<Rightarrow> supervisor \<Rightarrow> supervisor \<times> supervisor_message list \<times> bool" where
  "forward writable s =
     (case sup_channel s of
        [] \<Rightarrow> (s, [], True)
      | m # ms \<Rightarrow>
          if writable then (s\<lparr>sup_channel := ms\<rparr>, [m], True)
          else (s\<lparr>sup_channel := ms, sup_pending := sup_pending s @ [m]\<rparr>, [], False))"

lemma flush_pending_all:
  "length ms \<le> n \<Longrightarrow> flush_pending n ms = (ms, [], True)"
  by (induction n ms rule: flush_pending.induct) auto

lemma attach_writable:
  assumes "length (ring_replay (sup_ring s)) + length (sup_pending s) \<le> n"
  shows "attach n s =
    (s\<lparr>sup_pending := []\<rparr>, ring_replay (sup_ring s) @ sup_pending s, True)"
  using assms by (simp add: attach_def Let_def flush_pending_all)

text \<open>The loop of \<open>serve_panel\<close> while the panel takes every message: \<open>k\<close> turns, in each of which a waiting
  sender may get its place first.\<close>

fun forward_all :: "nat \<Rightarrow> supervisor \<Rightarrow> supervisor \<times> supervisor_message list" where
  "forward_all 0 s = (s, [])"
| "forward_all (Suc k) s =
     (let (s, sent, _) = forward True (let_in s); (s, more) = forward_all k s in (s, sent @ more))"

lemma newest_in_last_n: "0 < n \<Longrightarrow> x \<in> set (last_n n (xs @ ys @ [x]))"
  using last_n_def [of n "(xs @ ys) @ [x]"] by (simp add: Suc_diff_le)

text \<open>What \<open>drain_into\<close> keeps.\<close>

lemma drain_into_fold:
  "drain_into s = s\<lparr>sup_channel := [], sup_pending := fold (drop_front RING_CAPACITY) (sup_channel s) (sup_pending s)\<rparr>"
proof -
  have "(drain_one ^^ length ms) s =
      s\<lparr>sup_channel := [], sup_pending := fold (drop_front RING_CAPACITY) ms (sup_pending s)\<rparr>" if "sup_channel s = ms" for ms s
    using that
  proof (induction ms arbitrary: s)
    case (Cons m ms)
    let ?t = "drain_one s"
    have t: "?t = s\<lparr>sup_channel := ms, sup_pending := drop_front RING_CAPACITY m (sup_pending s)\<rparr>"
      using Cons.prems by (simp add: drain_one_def)
    have "(drain_one ^^ length (m # ms)) s = (drain_one ^^ length ms) ?t" by (simp add: funpow_swap1)
    also have "\<dots> = ?t\<lparr>sup_channel := [], sup_pending := fold (drop_front RING_CAPACITY) ms (sup_pending ?t)\<rparr>"
      by (rule Cons.IH) (simp add: t)
    finally show ?case by (simp add: t)
  qed simp
  then show ?thesis by (simp add: drain_into_def)
qed

lemma drain_pending:
  "length (sup_pending s) \<le> RING_CAPACITY \<Longrightarrow>
    sup_pending (drain_into s) = last_n RING_CAPACITY (sup_pending s @ sup_channel s)"
  by (simp add: drain_into_fold pending_log.put_all)

text \<open>While the panel is away: lines are read, senders get their places, the loop takes messages out of the
  channel, in any order. The number counts the lines.\<close>

inductive away :: "supervisor \<Rightarrow> nat \<Rightarrow> supervisor \<Rightarrow> bool" for s where
  Stay: "away s 0 s"
| Line: "away s n t \<Longrightarrow> \<not> list_ex (said_by stream) (sup_waiting t) \<Longrightarrow> away s (Suc n) (read_line line stream t)"
| LetIn: "away s n t \<Longrightarrow> away s n (let_in t)"
| Drain: "away s n t \<Longrightarrow> away s n (drain_one t)"

text \<open>Everything not delivered yet, the oldest first.\<close>

definition stock :: "supervisor \<Rightarrow> supervisor_message list" where
  "stock s = sup_pending s @ sup_channel s @ sup_waiting s"

definition sup_ok :: "supervisor \<Rightarrow> bool" where
  "sup_ok s = (length (sup_pending s) \<le> RING_CAPACITY \<and> length (sup_channel s) \<le> CHANNEL_DEPTH)"

lemma enqueue_message_stock [simp]: "stock (enqueue_message m s) = stock s @ [m]"
  by (simp add: stock_def enqueue_message_def)

lemma let_in_stock [simp]: "stock (let_in s) = stock s"
  by (simp add: stock_def let_in_def split: list.split)

lemma stock_ring [simp]: "stock (s\<lparr>sup_ring := r\<rparr>) = stock s"
  by (simp add: stock_def)

lemma read_line_stock: "\<exists>seq. stock (read_line line stream s) = stock s @ [Output seq line stream]"
  by (simp add: read_line_def ring_push_def)

lemma drain_one_stock: "length (sup_pending s) \<le> RING_CAPACITY \<Longrightarrow> stock (drain_one s) = stock s \<or>
    length (sup_pending s) = RING_CAPACITY \<and> sup_channel s \<noteq> [] \<and> stock (drain_one s) = tl (stock s)"
  by (auto simp: stock_def drain_one_def drop_front_def RING_CAPACITY_def split: list.split) (cases "sup_pending s"; simp)

lemma sup_ok_steps:
  "sup_ok s \<Longrightarrow> sup_ok (enqueue_message m s)" "sup_ok s \<Longrightarrow> sup_ok (let_in s)" "sup_ok s \<Longrightarrow> sup_ok (drain_one s)"
  "sup_ok s \<Longrightarrow> sup_ok (read_line line stream s)"
  by (auto simp: sup_ok_def enqueue_message_def let_in_def drain_one_def read_line_def ring_push_def drop_front_def
      RING_CAPACITY_def split: list.split)

text \<open>A message in stock stays there while fewer lines than the queue holds come behind it.\<close>

lemma away_keeps:
  assumes "away s n t" "sup_ok s" "stock s = before @ [m]" "n < RING_CAPACITY"
  shows "sup_ok t \<and> (\<exists>front behind. stock t = front @ m # behind \<and> length behind \<le> n)"
  using assms
proof (induction rule: away.induct)
  case Stay
  then show ?case by auto
next
  case (Line n t stream line)
  then obtain front behind where t: "sup_ok t" "stock t = front @ m # behind" "length behind \<le> n" by auto
  obtain seq where "stock (read_line line stream t) = stock t @ [Output seq line stream]" using read_line_stock by blast
  with t have "stock (read_line line stream t) = front @ m # (behind @ [Output seq line stream])"
    "length (behind @ [Output seq line stream]) \<le> Suc n" by simp_all
  with sup_ok_steps(4) [OF t(1)] show ?case by blast
next
  case (LetIn n t)
  then show ?case using sup_ok_steps(2) by simp
next
  case (Drain n t)
  then obtain front behind where t: "sup_ok t" "stock t = front @ m # behind" "length behind \<le> n" by auto
  have "length (sup_pending t) \<le> RING_CAPACITY" using t(1) by (simp add: sup_ok_def)
  from drain_one_stock [OF this] have "\<exists>front. stock (drain_one t) = front @ m # behind"
  proof (elim disjE conjE)
    assume full: "length (sup_pending t) = RING_CAPACITY" "sup_channel t \<noteq> []" "stock (drain_one t) = tl (stock t)"
    then have "RING_CAPACITY < length (stock t)" by (simp add: stock_def)
    with t(2,3) Drain.prems(3) have "front \<noteq> []" by auto
    with t(2) full(3) show ?thesis by (metis tl_append2)
  qed (use t(2) in auto)
  with t(3) sup_ok_steps(3) [OF t(1)] show ?case by blast
qed

lemma away_drain: "away s n t \<Longrightarrow> away s n (drain_into t)"
proof -
  have "away s n t \<Longrightarrow> away s n ((drain_one ^^ k) t)" for k by (induction k) (simp_all add: away.Drain)
  then show "away s n t \<Longrightarrow> away s n (drain_into t)" by (simp add: drain_into_def)
qed

lemma flush_whole: "flush_pending n ms = (sent, left, True) \<Longrightarrow> sent = ms \<and> left = []"
  by (induction n ms arbitrary: sent left rule: flush_pending.induct) (auto split: prod.splits)

lemma attach_whole:
  "attach n s = (t, sent, True) \<Longrightarrow> sent = ring_replay (sup_ring s) @ sup_pending s \<and>
    sup_channel t = sup_channel s \<and> sup_waiting t = sup_waiting s"
  by (auto simp: attach_def Let_def split: if_splits prod.splits dest: flush_whole)

lemma forward_all_sends:
  "length (sup_channel s @ sup_waiting s) \<le> k \<Longrightarrow> snd (forward_all k s) = sup_channel s @ sup_waiting s"
proof (induction k arbitrary: s)
  case (Suc k)
  let ?t = "let_in s"
  have t: "sup_channel ?t @ sup_waiting ?t = sup_channel s @ sup_waiting s"
    by (simp add: let_in_def split: list.split)
  show ?case
  proof (cases "sup_channel ?t")
    case Nil
    then have "sup_waiting s = []"
      by (auto simp: let_in_def CHANNEL_DEPTH_def split: list.splits if_splits)
    with Nil t have "sup_channel s @ sup_waiting s = []" "sup_channel ?t @ sup_waiting ?t = []"
      by (simp_all add: let_in_def)
    with Suc.IH [of ?t] Nil show ?thesis by (simp add: forward_def split_beta)
  next
    case (Cons m ms)
    let ?u = "?t\<lparr>sup_channel := ms\<rparr>"
    have f: "forward True ?t = (?u, [m], True)" using Cons by (simp add: forward_def)
    have "length (sup_channel ?u @ sup_waiting ?u) \<le> k"
      using Suc.prems arg_cong [OF t, of length] Cons by simp
    from Suc.IH [OF this] have "snd (forward_all k ?u) = ms @ sup_waiting ?t" by simp
    with f t Cons show ?thesis by (simp add: split_beta)
  qed
qed simp

text \<open>
  The ring and the queue overlap: a line read while the panel was away is in both, and a
  reattached panel is sent it twice.
\<close>

lemma line_sent_twice:
  assumes "length (sup_pending s) \<le> RING_CAPACITY" "length (sup_channel s) < CHANNEL_DEPTH" "sup_waiting s = []"
    "s' = drain_into (read_line line stream s)" "ring_capacity (sup_ring s) = RING_CAPACITY"
    "length (ring_lines (sup_ring s)) \<le> RING_CAPACITY"
  shows "Output (ring_next_seq (sup_ring s)) line stream \<in> set (ring_replay (sup_ring s'))"
    and "Output (ring_next_seq (sup_ring s)) line stream \<in> set (sup_pending s')"
proof -
  show "Output (ring_next_seq (sup_ring s)) line stream \<in> set (ring_replay (sup_ring s'))"
    unfolding assms(4)
    by (force simp: drain_into_fold read_line_def enqueue_message_def ring_push_def ring_replay_def pop_when_full_def)
  show "Output (ring_next_seq (sup_ring s)) line stream \<in> set (sup_pending s')"
    using assms(1,2,3) unfolding assms(4)
    by (simp add: drain_pending read_line_def enqueue_message_def ring_push_def newest_in_last_n RING_CAPACITY_def)
qed

text \<open>
  How a game is ended. \<open>gone\<close> is the moment the process ends, if it does; the result is the
  signals sent, with their moments, and whether the end was marked as forced.
\<close>

definition SHUTDOWN_GRACE :: instant where "SHUTDOWN_GRACE = secs 10"

definition wait_out :: "instant option \<Rightarrow> instant \<Rightarrow> instant \<Rightarrow> bool" where
  "wait_out gone from grace = (case gone of None \<Rightarrow> False | Some t \<Rightarrow> t \<le> from + grace)"

definition signal_group :: "instant option \<Rightarrow> instant \<Rightarrow> int \<Rightarrow> (instant \<times> int) list" where
  "signal_group gone moment signal =
     (case gone of None \<Rightarrow> [(moment, signal)] | Some t \<Rightarrow> if t \<le> moment then [] else [(moment, signal)])"

definition ending_now :: "instant option \<Rightarrow> instant \<Rightarrow> (instant \<times> int) list" where
  "ending_now gone from =
     signal_group gone from SIGTERM @
       (if wait_out gone from SHUTDOWN_GRACE then []
        else signal_group gone (from + SHUTDOWN_GRACE) SIGKILL)"

definition ending_after :: "instant option \<Rightarrow> instant \<Rightarrow> instant \<Rightarrow> (instant \<times> int) list" where
  "ending_after gone from grace =
     (if wait_out gone from grace then [] else ending_now gone (from + grace))"

datatype ending = NoEnding | EndNow | EndAfter instant

text \<open>\<open>handle_panel_message\<close>: the bytes written to the game and the ending that is started.\<close>

fun handle_panel_message :: "panel_message \<Rightarrow> ustr \<times> ending" where
  "handle_panel_message (Stdin line) = (line @ [10], NoEnding)"
| "handle_panel_message (Stop command grace) =
     ((case command of None \<Rightarrow> lit ''stop'' | Some c \<Rightarrow> c) @ [10], EndAfter (secs grace))"
| "handle_panel_message Kill = ([], EndNow)"
| "handle_panel_message _ = ([], NoEnding)"

lemma ending_after_signals:
  "ending_after gone from grace =
     (if (\<exists>t. gone = Some t \<and> t \<le> from + grace) then []
      else if (\<exists>t. gone = Some t \<and> t \<le> from + grace + SHUTDOWN_GRACE)
      then [(from + grace, SIGTERM)]
      else [(from + grace, SIGTERM), (from + grace + SHUTDOWN_GRACE, SIGKILL)])"
  by (auto simp: ending_after_def ending_now_def wait_out_def signal_group_def split: option.splits)

end
