(* ===== verification/Budget.thy ===== *)
theory Budget
  imports Accounts
begin

text \<open>
  What an account may use (\<open>auth/limits.rs\<close>): the check of the limits an administrator sets, the
  budget that follows from the role, the questions asked of it before a server is made or
  started, and the limits handed to the control group. Memory and disk figures are \<open>u32\<close> MiB
  and \<open>u64\<close> bytes; \<open>saturating_add\<close> is written out.
\<close>

definition MIB :: nat where "MIB = 1024 * 1024"
definition MIN_MEMORY_MIB :: nat where "MIN_MEMORY_MIB = 512"
definition MIN_PIDS :: nat where "MIN_PIDS = 64"
definition MIN_DISK_MIB :: nat where "MIN_DISK_MIB = 1024"

definition saturating_add :: "nat \<Rightarrow> nat \<Rightarrow> nat \<Rightarrow> nat" where
  "saturating_add w a b = min (a + b) (2 ^ w - 1)"

fun above_zero :: "f64 \<Rightarrow> bool" where
  "above_zero NaN = False"
| "above_zero (Infinite positive) = positive"
| "above_zero (Finite q) = (0 < q)"

fun is_finite :: "f64 \<Rightarrow> bool" where
  "is_finite (Finite q) = True"
| "is_finite _ = False"

definition check_limits :: "user_limits \<Rightarrow> unit result" where
  "check_limits l =
     (if memory_mib l < MIN_MEMORY_MIB then Inl invalid_request
      else if \<not> above_zero (cpu_cores l) \<or> \<not> is_finite (cpu_cores l) then Inl invalid_request
      else if pids_max l < MIN_PIDS then Inl invalid_request
      else if disk_mib l < MIN_DISK_MIB then Inl invalid_request
      else Inr ())"

datatype budget = Unlimited | Held user_limits

fun budget_of :: "panel_role \<Rightarrow> user_limits \<Rightarrow> budget" where
  "budget_of Admin l = Unlimited"
| "budget_of User l = Held l"

fun budget_limits :: "budget \<Rightarrow> user_limits option" where
  "budget_limits Unlimited = None"
| "budget_limits (Held l) = Some l"

definition budget_memory :: "budget \<Rightarrow> nat option" where
  "budget_memory b = map_option memory_mib (budget_limits b)"

definition disk_limit_bytes :: "budget \<Rightarrow> nat option" where
  "disk_limit_bytes b = map_option (\<lambda>l. disk_mib l * MIB) (budget_limits b)"

definition exceeded_by :: "budget \<Rightarrow> nat \<Rightarrow> bool" where
  "exceeded_by b allocated = (case budget_memory b of None \<Rightarrow> False | Some l \<Rightarrow> l < allocated)"

definition has_room_for :: "budget \<Rightarrow> nat \<Rightarrow> nat \<Rightarrow> bool" where
  "has_room_for b allocated wanted =
     (case budget_memory b of None \<Rightarrow> True | Some l \<Rightarrow> saturating_add 32 allocated wanted \<le> l)"

definition disk_exceeded_by :: "budget \<Rightarrow> nat \<Rightarrow> bool" where
  "disk_exceeded_by b used = (case disk_limit_bytes b of None \<Rightarrow> False | Some l \<Rightarrow> l < used)"

definition has_disk_room_for :: "budget \<Rightarrow> nat \<Rightarrow> nat \<Rightarrow> bool" where
  "has_disk_room_for b used wanted =
     (case disk_limit_bytes b of None \<Rightarrow> True | Some l \<Rightarrow> saturating_add 64 used wanted \<le> l)"

text \<open>
  \<open>(high as f64 * 1.25) as u64\<close> is exact: \<open>high\<close> is a \<open>u32\<close> number of MiB, so it and five
  quarters of it have at most 35 significant bits. The rounding of \<open>cpu_cores * 100.0\<close> is
  floating-point arithmetic and stays a parameter, \<open>percent\<close>.
\<close>

definition to_cgroup :: "(f64 \<Rightarrow> nat) \<Rightarrow> budget \<Rightarrow> resource_limits" where
  "to_cgroup percent b =
     (case b of
        Unlimited \<Rightarrow> \<lparr>memory_high_bytes = None, memory_max_bytes = None,
                      cpu_quota_percent = None, rl_pids_max = None\<rparr>
      | Held l \<Rightarrow>
          let high = memory_mib l * MIB in
          \<lparr>memory_high_bytes = Some high, memory_max_bytes = Some (high * 5 div 4),
           cpu_quota_percent = (case cpu_mode l of Cap \<Rightarrow> Some (percent (cpu_cores l)) | Share \<Rightarrow> None),
           rl_pids_max = Some (pids_max l)\<rparr>)"

text \<open>The ids of \<open>MemoryOvercommitted\<close> and the like never arise from a wrapped sum.\<close>

lemma room_is_exact:
  assumes "l \<le> 2 ^ w - 1"
  shows "saturating_add w a b \<le> l \<longleftrightarrow> a + b \<le> l \<or> l = 2 ^ w - 1"
  using assms by (auto simp: saturating_add_def)

lemma room_then_not_exceeded:
  assumes "has_room_for b allocated wanted" "\<forall>l. budget_memory b = Some l \<longrightarrow> l < 2 ^ 32 - 1"
  shows "\<not> exceeded_by b (allocated + wanted)"
  using assms by (auto simp: has_room_for_def exceeded_by_def saturating_add_def split: option.splits)

lemma disk_room_then_not_exceeded:
  assumes "has_disk_room_for b used wanted" "\<forall>l. budget_limits b = Some l \<longrightarrow> disk_mib l < 2 ^ 32"
  shows "\<not> disk_exceeded_by b (used + wanted)"
proof (cases "budget_limits b")
  case (Some l)
  then have "disk_mib l * MIB < 2 ^ 32 * MIB" using assms(2) by (simp add: MIB_def)
  then have "disk_mib l * MIB < 2 ^ 64 - 1" by (simp add: MIB_def)
  with assms(1) Some show ?thesis
    by (auto simp: has_disk_room_for_def disk_exceeded_by_def disk_limit_bytes_def saturating_add_def)
qed (simp add: disk_exceeded_by_def disk_limit_bytes_def)

lemma cgroup_order:
  assumes "to_cgroup percent b = r" "memory_high_bytes r = Some high"
  shows "\<exists>m. memory_max_bytes r = Some m \<and> high \<le> m \<and> 4 * m = 5 * high"
proof (cases b)
  case (Held l)
  have "4 * (memory_mib l * MIB * 5 div 4) = 5 * (memory_mib l * MIB)"
    by (simp add: MIB_def)
  then show ?thesis using assms Held by (auto simp: to_cgroup_def Let_def)
qed (use assms in \<open>auto simp: to_cgroup_def\<close>)

lemma admins_unlimited: "\<not> exceeded_by (budget_of Admin l) n" "has_room_for (budget_of Admin l) n w"
  by (simp_all add: exceeded_by_def has_room_for_def budget_memory_def)

end
