(* ===== verification/Running.thy ===== *)
theory Running
  imports Supervise Access Budget
begin

text \<open>
  Starting, stopping and watching game servers: the power part of \<open>servers/manager.rs\<close>. The
  manager keeps the rows of the \<open>servers\<close> table, the hub, the wish behind each server's current
  transition and the set of servers a task is watching. Operations that write the table or
  talk to the hub return the manager they leave behind; database errors and the audit log are
  not part of the model. What comes from outside is an argument: the clock, the random token,
  the Java that was found, whether the helper could spawn the process, whether a link still
  takes messages.
\<close>

datatype power_action = ActStart | ActStop | ActRestart | ActKill
datatype power_target = TargetStart | TargetStop | TargetRestart

record power_row = server_row +
  pr_memory :: nat
  pr_loader :: "loader_id option"
  pr_flags :: "ustr list"
  pr_power :: power_state
  pr_running_since :: "moment option"
  pr_oom :: bool
  pr_token :: "ustr option"

record wish =
  wish_target :: "power_target option"
  wish_killed :: bool
  wish_undelivered :: bool

definition no_wish :: wish where
  "no_wish = \<lparr>wish_target = None, wish_killed = False, wish_undelivered = False\<rparr>"

record report =
  rep_server :: id
  rep_state :: power_state
  rep_target :: "power_target option"
  rep_oom :: bool

text \<open>\<open>m_name\<close> is \<open>Id::to_string\<close>, the text form of the \<open>ulid\<close> crate.\<close>

record manager =
  m_name :: "id \<Rightarrow> ustr"
  m_servers :: "power_row list"
  m_users :: "user_row list"
  m_hub :: hub
  m_wishes :: "id \<rightharpoonup> wish"
  m_watched :: "id set"
  m_reports :: "report list"
  m_spawned :: "spawn_request list"
  m_stop_grace :: "nat option"

definition JAR :: ustr where "JAR = lit ''server.jar''"

definition panel_owned :: "ustr \<Rightarrow> bool" where
  "panel_owned flag = (\<exists>p \<in> set [lit ''-Xmx'', lit ''-Xms'', lit ''-XX:MaxRAM'', lit ''-XX:MaxHeapSize''].
     has_prefix p flag)"

definition manager_argv :: "loader_id option \<Rightarrow> nat \<Rightarrow> ustr list \<Rightarrow> ustr list" where
  "manager_argv loader memory extra =
     [lit ''-Xmx'' @ digits_of memory @ lit ''M''] @ filter (\<lambda>f. \<not> panel_owned f) extra
       @ [lit ''-jar'', JAR] @ (if loader = Some Velocity then [] else [lit ''nogui''])"

subsection \<open>The pieces\<close>

definition power_row_of :: "manager \<Rightarrow> id \<Rightarrow> power_row result" where
  "power_row_of m server =
     (case fetch_optional (\<lambda>r. srv_id r = server) (m_servers m) of
        None \<Rightarrow> Inl unknown_server | Some r \<Rightarrow> Inr r)"

definition link_of :: "manager \<Rightarrow> id \<Rightarrow> nat option" where
  "link_of m server = hub_links (m_hub m) (m_name m server)"

fun state_of_row :: "power_state \<Rightarrow> bool \<Rightarrow> run_state" where
  "state_of_row PowerStopped _ = Stopped"
| "state_of_row PowerStarting _ = Starting"
| "state_of_row PowerRunning _ = Running"
| "state_of_row PowerStopping _ = Stopping"
| "state_of_row PowerCrashed oom = (if oom then OutOfMemory else Crashed)"

definition current :: "manager \<Rightarrow> id \<Rightarrow> run_state result" where
  "current m server =
     (case hub_link (m_hub m) (m_name m server) of
        Some l \<Rightarrow> Inr (link_state l)
      | None \<Rightarrow> (case fetch_optional (\<lambda>r. srv_id r = server) (m_servers m) of
                  None \<Rightarrow> Inl unknown_server
                | Some r \<Rightarrow> Inr (state_of_row (pr_power r) (pr_oom r))))"

definition wish_of :: "manager \<Rightarrow> id \<Rightarrow> wish" where
  "wish_of m server = (case m_wishes m server of None \<Rightarrow> no_wish | Some w \<Rightarrow> w)"

definition set_wish :: "id \<Rightarrow> wish \<Rightarrow> manager \<Rightarrow> manager" where
  "set_wish server w m = m\<lparr>m_wishes := (m_wishes m)(server \<mapsto> w)\<rparr>"

definition write_state :: "moment \<Rightarrow> id \<Rightarrow> power_state \<Rightarrow> bool \<Rightarrow> manager \<Rightarrow> manager" where
  "write_state now server st oom m = m\<lparr>m_servers := update_where (\<lambda>r. srv_id r = server)
     (\<lambda>r. r\<lparr>pr_power := st, pr_oom := oom,
            pr_running_since := (if st = PowerRunning
              then Some (case pr_running_since r of None \<Rightarrow> now | Some t \<Rightarrow> t) else None)\<rparr>)
     (m_servers m)\<rparr>"

definition say_state :: "id \<Rightarrow> power_state \<Rightarrow> power_target option \<Rightarrow> bool \<Rightarrow> manager \<Rightarrow> manager" where
  "say_state server st target oom m = m\<lparr>m_reports := m_reports m @
     [\<lparr>rep_server = server, rep_state = st, rep_target = target, rep_oom = oom\<rparr>]\<rparr>"

text \<open>\<open>watch\<close> starts a task unless one is watching already; the result says whether it did.\<close>

definition watch :: "id \<Rightarrow> manager \<Rightarrow> manager \<times> bool" where
  "watch server m =
     (if server \<in> m_watched m then (m, False)
      else (m\<lparr>m_watched := insert server (m_watched m)\<rparr>, True))"

definition expects_a_supervisor :: "manager \<Rightarrow> id \<Rightarrow> bool" where
  "expects_a_supervisor m server =
     (wish_undelivered (wish_of m server) \<or>
      map_option pr_power (fetch_optional (\<lambda>r. srv_id r = server) (m_servers m)) = Some PowerStarting)"

definition stop_grace :: "manager \<Rightarrow> nat" where
  "stop_grace m = (case m_stop_grace m of None \<Rightarrow> 60 | Some g \<Rightarrow> g)"

text \<open>The sum is an \<open>i64\<close> and is cut to a \<open>u32\<close>.\<close>

definition allocated_mib :: "power_row list \<Rightarrow> id \<Rightarrow> nat" where
  "allocated_mib rows owner = sum_list (map pr_memory
     (filter (\<lambda>r. srv_owner r = owner \<and> srv_status r \<noteq> ServerDeleting) rows)) mod 2 ^ 32"

subsection \<open>Starting, stopping, killing\<close>

record launch =
  l_now :: moment
  l_token :: ustr
  l_java :: "ustr result"
  l_spawns :: bool
  l_socket :: ustr

definition put_token :: "id \<Rightarrow> ustr \<Rightarrow> manager \<Rightarrow> manager" where
  "put_token server token m = m\<lparr>
     m_servers := update_where (\<lambda>r. srv_id r = server)
       (\<lambda>r. r\<lparr>pr_token := Some token, pr_power := PowerStarting, pr_running_since := None,
              pr_oom := False\<rparr>) (m_servers m),
     m_hub := Supervise.set_token (m_name m server) token (m_hub m)\<rparr>"

definition request_of :: "manager \<Rightarrow> power_row \<Rightarrow> ustr \<Rightarrow> launch \<Rightarrow> spawn_request" where
  "request_of m row program l =
     \<lparr>sr_user_id = m_name m (srv_owner row), sr_server_id = m_name m (srv_id row),
      sr_working_dir = [SERVERS, m_name m (srv_id row)], sr_program = program,
      sr_args = manager_argv (pr_loader row) (pr_memory row) (pr_flags row), sr_env = [],
      sr_supervisor_socket = l_socket l, sr_token = l_token l\<rparr>"

definition may_start :: "manager \<Rightarrow> power_row \<Rightarrow> launch \<Rightarrow> ustr result" where
  "may_start m row l =
     (if srv_status row = ServerBroken then Inl (conflict ''server_broken'')
      else if srv_status row \<noteq> ServerAvailable then Inl (conflict ''server_busy'')
      else and_then (users_load (m_users m) (srv_owner row)) (\<lambda>owner.
        if u_system_state owner \<noteq> Ready then Inl (conflict ''system_user_not_ready'')
        else if exceeded_by (budget_of (u_role owner) (u_limits owner))
                  (allocated_mib (m_servers m) (u_id owner))
        then Inl (conflict ''over_limit'')
        else l_java l))"

definition start :: "power_row \<Rightarrow> launch \<Rightarrow> manager \<Rightarrow> manager \<times> unit result" where
  "start row l m =
     (case may_start m row l of
        Inl f \<Rightarrow> (m, Inl f)
      | Inr program \<Rightarrow>
          let server = srv_id row;
              m = put_token server (l_token l) m;
              m = set_wish server \<lparr>wish_target = Some TargetStart, wish_killed = False,
                                    wish_undelivered = False\<rparr> m;
              m = write_state (l_now l) server PowerStarting False m;
              m = say_state server PowerStarting (Some TargetStart) False m
          in if l_spawns l
             then (fst (watch server (m\<lparr>m_spawned := m_spawned m @ [request_of m row program l]\<rparr>)),
                   Inr ())
             else let m = set_wish server no_wish m;
                      m = write_state (l_now l) server PowerStopped False m;
                      m = say_state server PowerStopped None False m
                  in (m, Inl internal))"

text \<open>\<open>listening\<close> says whether the outbox of the link still has a reader.\<close>

definition ask_to_stop ::
  "id \<Rightarrow> power_target \<Rightarrow> moment \<Rightarrow> bool \<Rightarrow> manager \<Rightarrow> manager \<times> unit result" where
  "ask_to_stop server target now listening m =
     (let stopping = (\<lambda>undelivered m.
        let m = set_wish server \<lparr>wish_target = Some target, wish_killed = False,
                                  wish_undelivered = undelivered\<rparr> m;
            m = write_state now server PowerStopping False m;
            m = say_state server PowerStopping (Some target) False m
        in (fst (watch server m), Inr ()))
      in case link_of m server of
           Some r \<Rightarrow>
             if listening
             then stopping False (m\<lparr>m_hub := request_stop r (Some (lit ''stop'')) (stop_grace m) (m_hub m)\<rparr>)
             else (m, Inl internal)
         | None \<Rightarrow>
             if expects_a_supervisor m server then stopping True m
             else (say_state server PowerStopped None False (write_state now server PowerStopped False m),
                   Inl (conflict ''invalid_power_transition'')))"

definition kill_server :: "id \<Rightarrow> moment \<Rightarrow> bool \<Rightarrow> manager \<Rightarrow> manager \<times> unit result" where
  "kill_server server now listening m =
     (let killing = (\<lambda>undelivered m.
        let m = set_wish server \<lparr>wish_target = None, wish_killed = True,
                                  wish_undelivered = undelivered\<rparr> m;
            m = write_state now server PowerStopping False m;
            m = say_state server PowerStopping None False m
        in (fst (watch server m), Inr ()))
      in case link_of m server of
           Some r \<Rightarrow>
             if listening then killing False (m\<lparr>m_hub := link_kill r (m_hub m)\<rparr>)
             else (m, Inl internal)
         | None \<Rightarrow> killing (expects_a_supervisor m server) m)"

text \<open>\<open>busy\<close> is the first of \<open>store::busy_reasons\<close>, which \<open>guard_write\<close> refuses with.\<close>

definition power_allowed :: "power_action \<Rightarrow> run_state \<Rightarrow> bool" where
  "power_allowed action now =
     (case action of
        ActStart \<Rightarrow> can_become now Starting
      | ActStop \<Rightarrow> can_become now Stopping
      | ActRestart \<Rightarrow> can_become now Stopping
      | ActKill \<Rightarrow> is_live now)"

definition power ::
  "busy_reason option \<Rightarrow> id \<Rightarrow> power_action \<Rightarrow> launch \<Rightarrow> bool \<Rightarrow> manager \<Rightarrow>
     manager \<times> (power_state \<times> power_target option) result" where
  "power busy server action l listening m =
     (case busy of
        Some _ \<Rightarrow> (m, Inl (conflict ''server_busy''))
      | None \<Rightarrow>
        (case power_row_of m server of
           Inl f \<Rightarrow> (m, Inl f)
         | Inr row \<Rightarrow>
           (case current m server of
              Inl f \<Rightarrow> (m, Inl f)
            | Inr now \<Rightarrow>
                if \<not> power_allowed action now then (m, Inl (conflict ''invalid_power_transition''))
                else case action of
                  ActStart \<Rightarrow> (let (m, r) = start row l m in
                    (m, and_then r (\<lambda>_. Inr (PowerStarting, Some TargetStart))))
                | ActStop \<Rightarrow> (let (m, r) = ask_to_stop server TargetStop (l_now l) listening m in
                    (m, and_then r (\<lambda>_. Inr (PowerStopping, Some TargetStop))))
                | ActRestart \<Rightarrow> (let (m, r) = ask_to_stop server TargetRestart (l_now l) listening m in
                    (m, and_then r (\<lambda>_. Inr (PowerStopping, Some TargetRestart))))
                | ActKill \<Rightarrow> (let (m, r) = kill_server server (l_now l) listening m in
                    (m, and_then r (\<lambda>_. Inr (PowerStopping, None)))))))"

subsection \<open>The watching task\<close>

text \<open>
  \<open>attend\<close> as one turn of its loop: \<open>Some ended\<close> when the loop goes on with that last state,
  \<open>None\<close> when it ends with the given one. \<open>since\<close> is when the task began waiting.
\<close>

definition START_TIMEOUT :: instant where "START_TIMEOUT = secs 120"

record attending =
  at_seen :: run_state
  at_held :: "nat option"

definition hand_over :: "id \<Rightarrow> nat \<Rightarrow> bool \<Rightarrow> manager \<Rightarrow> manager" where
  "hand_over server r listening m =
     (let w = wish_of m server in
      if \<not> listening then m
      else set_wish server (w\<lparr>wish_undelivered := False\<rparr>)
             (m\<lparr>m_hub := if wish_killed w then link_kill r (m_hub m)
                else request_stop r (Some (lit ''stop'')) (stop_grace m) (m_hub m)\<rparr>))"

definition attend_turn ::
  "id \<Rightarrow> instant \<Rightarrow> moment \<Rightarrow> bool \<Rightarrow> attending \<Rightarrow> manager \<Rightarrow> manager \<times> (run_state + attending)" where
  "attend_turn server waited now listening a m =
     (case link_of m server of
        Some r \<Rightarrow>
          let m = (if wish_undelivered (wish_of m server) then hand_over server r listening m else m);
              st = link_state (link_store (m_hub m) ! r)
          in if st \<noteq> at_seen a
             then let (p, oom) = power_state_of st; m = write_state now server p oom m
                  in if \<not> is_live st then (m, Inl st)
                     else (m, Inr \<lparr>at_seen = st, at_held = Some r\<rparr>)
             else (m, Inr \<lparr>at_seen = at_seen a, at_held = Some r\<rparr>)
      | None \<Rightarrow>
          if at_seen a = Starting \<and> waited < START_TIMEOUT then (m, Inr a)
          else (m, Inl (case at_held a of
                          None \<Rightarrow> at_seen a | Some r \<Rightarrow> link_state (link_store (m_hub m) ! r))))"

definition settled_state :: "wish \<Rightarrow> run_state \<Rightarrow> power_state \<times> bool" where
  "settled_state w ended =
     (if wish_killed w then (PowerStopped, False)
      else if ended = OutOfMemory then (PowerCrashed, True)
      else if wish_target w \<in> {Some TargetStop, Some TargetRestart} then (PowerStopped, False)
      else if ended = Crashed then (PowerCrashed, False)
      else if ended \<in> {Stopped, Installing, Terminated} then (PowerStopped, False)
      else (PowerCrashed, False))"

definition start_again :: "id \<Rightarrow> launch \<Rightarrow> manager \<Rightarrow> manager" where
  "start_again server l m =
     (case power_row_of m server of Inl f \<Rightarrow> m | Inr row \<Rightarrow> fst (start row l m))"

definition settle_server :: "id \<Rightarrow> run_state \<Rightarrow> launch \<Rightarrow> manager \<Rightarrow> manager" where
  "settle_server server ended l m =
     (let w = wish_of m server;
          (st, oom) = settled_state w ended;
          m = write_state (l_now l) server st oom m;
          m = m\<lparr>m_hub := forget_token (m_name m server) (m_hub m)\<rparr>;
          m = say_state server st None oom m;
          m = set_wish server no_wish m
      in if wish_target w = Some TargetRestart then start_again server l m else m)"

text \<open>The end of the task \<open>watch\<close> started: it settles, then leaves the list.\<close>

definition watch_ends :: "id \<Rightarrow> run_state \<Rightarrow> launch \<Rightarrow> manager \<Rightarrow> manager" where
  "watch_ends server ended l m =
     (let m = settle_server server ended l m in m\<lparr>m_watched := m_watched m - {server}\<rparr>)"

subsection \<open>After a restart of the panel\<close>

definition adopt_tokens :: "manager \<Rightarrow> manager" where
  "adopt_tokens m = m\<lparr>m_hub := load_tokens
     (map (\<lambda>r. (m_name m (srv_id r), the (pr_token r)))
       (filter (\<lambda>r. pr_token r \<noteq> None) (m_servers m))) (m_hub m)\<rparr>"

definition clear_server :: "moment \<Rightarrow> id \<Rightarrow> manager \<Rightarrow> manager" where
  "clear_server now server m =
     (let m = write_state now server PowerStopped False m;
          m = m\<lparr>m_servers := update_where (\<lambda>r. srv_id r = server) (\<lambda>r. r\<lparr>pr_token := None\<rparr>) (m_servers m)\<rparr>;
          m = m\<lparr>m_hub := forget_token (m_name m server) (m_hub m)\<rparr>
      in say_state server PowerStopped None False m)"

definition claims_to_run :: "power_row \<Rightarrow> bool" where
  "claims_to_run r = (pr_power r \<in> {PowerStarting, PowerRunning, PowerStopping})"

fun reconcile_claims :: "moment \<Rightarrow> id set \<Rightarrow> id list \<Rightarrow> manager \<Rightarrow> manager" where
  "reconcile_claims now attached [] m = m"
| "reconcile_claims now attached (s # ss) m =
     reconcile_claims now attached ss
       (if s \<in> attached then fst (watch s m) else clear_server now s m)"

text \<open>\<open>open_ops\<close>: the servers with a queued or running operation.\<close>

definition mark_broken :: "id \<Rightarrow> manager \<Rightarrow> manager" where
  "mark_broken server m = m\<lparr>m_servers := update_where
     (\<lambda>r. srv_id r = server \<and> srv_status r \<noteq> ServerDeleting)
     (\<lambda>r. r\<lparr>srv_status := ServerBroken, srv_flows_intro := True\<rparr>) (m_servers m)\<rparr>"

definition attached_ids :: "manager \<Rightarrow> id set" where
  "attached_ids m = set (filter (\<lambda>s. link_of m s \<noteq> None) (map srv_id (m_servers m)))"

definition reconcile :: "moment \<Rightarrow> id list \<Rightarrow> manager \<Rightarrow> manager" where
  "reconcile now open_ops m =
     (let m = reconcile_claims now (attached_ids m)
                (map srv_id (filter claims_to_run (m_servers m))) m;
          half_built = filter (\<lambda>r. srv_status r = ServerInstalling \<and> srv_id r \<notin> set open_ops)
                         (m_servers m)
      in fold mark_broken (map srv_id half_built) m)"

subsection \<open>What the pieces change\<close>

definition row_of :: "manager \<Rightarrow> id \<Rightarrow> power_row option" where
  "row_of m server = fetch_optional (\<lambda>r. srv_id r = server) (m_servers m)"

lemmas piece_defs = set_wish_def write_state_def say_state_def put_token_def

lemma pieces [simp]:
  "m_watched (set_wish s w m) = m_watched m" "m_watched (write_state now s st oom m) = m_watched m"
  "m_watched (say_state s st tg oom m) = m_watched m" "m_watched (put_token s tok m) = m_watched m"
  "m_servers (set_wish s w m) = m_servers m" "m_servers (say_state s st tg oom m) = m_servers m"
  "m_hub (set_wish s w m) = m_hub m" "m_hub (write_state now s st oom m) = m_hub m"
  "m_hub (say_state s st tg oom m) = m_hub m"
  "m_name (set_wish s w m) = m_name m" "m_name (write_state now s st oom m) = m_name m"
  "m_name (say_state s st tg oom m) = m_name m" "m_name (put_token s tok m) = m_name m"
  "m_users (set_wish s w m) = m_users m" "m_users (write_state now s st oom m) = m_users m"
  "m_users (say_state s st tg oom m) = m_users m"
  "m_wishes (write_state now s st oom m) = m_wishes m"
  "m_wishes (say_state s st tg oom m) = m_wishes m"
  by (simp_all add: piece_defs)

lemma watch_fields [simp]:
  "m_servers (fst (watch s m)) = m_servers m" "m_watched (fst (watch s m)) = insert s (m_watched m)"
  "m_hub (fst (watch s m)) = m_hub m" "m_name (fst (watch s m)) = m_name m"
  "m_wishes (fst (watch s m)) = m_wishes m" "m_spawned (fst (watch s m)) = m_spawned m"
  by (auto simp: watch_def)

lemma row_write_state:
  "row_of (write_state now s st oom m) q = map_option (\<lambda>r. if srv_id r = s
     then r\<lparr>pr_power := st, pr_oom := oom, pr_running_since := (if st = PowerRunning
              then Some (case pr_running_since r of None \<Rightarrow> now | Some t \<Rightarrow> t) else None)\<rparr>
     else r) (row_of m q)" if "q = s"
  unfolding row_of_def write_state_def using that by (simp add: fetch_update)

definition changes_only :: "id \<Rightarrow> manager \<Rightarrow> manager \<Rightarrow> bool" where
  "changes_only s m m' = (m_watched m \<subseteq> m_watched m' \<and>
     (\<forall>r \<in> set (m_servers m'). srv_id r \<noteq> s \<longrightarrow> r \<in> set (m_servers m)))"

definition attended :: "manager \<Rightarrow> bool" where
  "attended m = (\<forall>r \<in> set (m_servers m). claims_to_run r \<longrightarrow> srv_id r \<in> m_watched m)"

lemma changes_only_trans [trans]:
  "changes_only s m m' \<Longrightarrow> changes_only s m' m'' \<Longrightarrow> changes_only s m m''"
  by (auto simp: changes_only_def)

lemma changes_only_pieces [intro!, simp]:
  "changes_only s m m"
  "changes_only s m' m \<Longrightarrow> changes_only s m' (set_wish s w m)"
  "changes_only s m' m \<Longrightarrow> changes_only s m' (write_state now s st oom m)"
  "changes_only s m' m \<Longrightarrow> changes_only s m' (say_state s st tg oom m)"
  "changes_only s m' m \<Longrightarrow> changes_only s m' (put_token s tok m)"
  "changes_only s m' m \<Longrightarrow> changes_only s m' (fst (watch s m))"
  "changes_only s m' m \<Longrightarrow> changes_only s m' (m\<lparr>m_hub := h\<rparr>)"
  "changes_only s m' m \<Longrightarrow> changes_only s m' (m\<lparr>m_spawned := sp\<rparr>)"
  by (auto simp: changes_only_def write_state_def put_token_def set_update split: if_splits)

lemma attended_changes:
  assumes "attended m" "changes_only s m m'"
    "s \<in> m_watched m' \<or> (\<forall>r \<in> set (m_servers m'). srv_id r = s \<longrightarrow> \<not> claims_to_run r)"
  shows "attended m'"
  unfolding attended_def
proof (intro ballI impI)
  fix r assume r: "r \<in> set (m_servers m')" "claims_to_run r"
  show "srv_id r \<in> m_watched m'"
  proof (cases "srv_id r = s")
    case True
    with assms(3) r show ?thesis by blast
  next
    case False
    with assms(2) r(1) have "r \<in> set (m_servers m)" "m_watched m \<subseteq> m_watched m'"
      by (auto simp: changes_only_def)
    with assms(1) r(2) show ?thesis unfolding attended_def by blast
  qed
qed

lemma written_state:
  assumes "r \<in> set (m_servers (write_state now s st oom m))" "srv_id r = s"
  shows "pr_power r = st"
proof -
  obtain r0 where r0: "r = (if srv_id r0 = s then r0\<lparr>pr_power := st, pr_oom := oom,
            pr_running_since := (if st = PowerRunning
              then Some (case pr_running_since r0 of None \<Rightarrow> now | Some t \<Rightarrow> t) else None)\<rparr> else r0)"
    using assms(1) by (simp add: write_state_def in_update) blast
  show ?thesis
  proof (cases "srv_id r0 = s")
    case False
    with r0 assms(2) show ?thesis by simp
  qed (simp add: r0)
qed

lemma start_attended:
  assumes "attended m"
  shows "attended (fst (start row l m))"
proof (cases "may_start m row l")
  case (Inr program)
  show ?thesis
  proof (cases "l_spawns l")
    case True
    then show ?thesis
      by (intro attended_changes [OF assms, of "srv_id row"])
        (auto simp: start_def Inr Let_def)
  next
    case False
    then show ?thesis
      by (intro attended_changes [OF assms, of "srv_id row"])
        (auto simp: start_def Inr Let_def claims_to_run_def dest: written_state)
  qed
qed (simp add: start_def assms)

lemma ask_to_stop_attended:
  assumes "attended m"
  shows "attended (fst (ask_to_stop server target now listening m))"
proof (cases "link_of m server")
  case None
  then show ?thesis by (intro attended_changes [OF assms, of server])
    (auto simp: ask_to_stop_def Let_def claims_to_run_def dest: written_state)
next
  case (Some r)
  show ?thesis
  proof (cases listening)
    case True
    with Some show ?thesis by (intro attended_changes [OF assms, of server])
      (auto simp: ask_to_stop_def Let_def)
  qed (simp add: ask_to_stop_def Let_def Some assms)
qed

lemma kill_attended:
  assumes "attended m"
  shows "attended (fst (kill_server server now listening m))"
proof (cases "link_of m server")
  case None
  then show ?thesis by (intro attended_changes [OF assms, of server])
    (auto simp: kill_server_def Let_def)
next
  case (Some r)
  show ?thesis
  proof (cases listening)
    case True
    with Some show ?thesis by (intro attended_changes [OF assms, of server])
      (auto simp: kill_server_def Let_def)
  qed (simp add: kill_server_def Let_def Some assms)
qed

lemma power_attended_lib:
  assumes "attended m"
  shows "attended (fst (power busy server action l listening m))"
  using start_attended [OF assms] ask_to_stop_attended [OF assms] kill_attended [OF assms] assms
  by (auto simp: power_def Let_def split_beta split: option.splits sum.splits power_action.splits)

subsection \<open>The rows a transition leaves\<close>

lemma fetch_row_update:
  assumes "\<And>r. srv_id (f r) = srv_id r"
  shows "fetch_optional (\<lambda>r. srv_id r = s) (update_where (\<lambda>r. srv_id r = s) f t) =
    map_option f (fetch_optional (\<lambda>r. srv_id r = s) t)"
proof -
  have "fetch_optional (\<lambda>r. srv_id r = s) (update_where (\<lambda>r. srv_id r = s) f t) =
      map_option (\<lambda>r. if srv_id r = s then f r else r) (fetch_optional (\<lambda>r. srv_id r = s) t)"
    by (rule fetch_update) (simp_all add: assms)
  also have "\<dots> = map_option f (fetch_optional (\<lambda>r. srv_id r = s) t)"
    by (rule option.map_cong) (auto dest: fetch_SomeD)
  finally show ?thesis .
qed

lemma row_of_pieces [simp]:
  "row_of (set_wish s w m) q = row_of m q" "row_of (say_state s st tg oom m) q = row_of m q"
  "row_of (fst (watch s m)) q = row_of m q" "row_of (m\<lparr>m_hub := h\<rparr>) q = row_of m q"
  "row_of (m\<lparr>m_watched := x\<rparr>) q = row_of m q" "row_of (m\<lparr>m_spawned := sp\<rparr>) q = row_of m q"
  by (simp_all add: row_of_def)

lemma row_written:
  assumes "row_of m s = Some row"
  shows "\<exists>since. row_of (write_state now s st oom m) s =
      Some (row\<lparr>pr_power := st, pr_oom := oom, pr_running_since := since\<rparr>)"
    and "row_of (put_token s tok m) s = Some (row\<lparr>pr_token := Some tok, pr_power := PowerStarting,
      pr_running_since := None, pr_oom := False\<rparr>)"
  using assms by (auto simp: row_of_def write_state_def put_token_def fetch_row_update)

lemma row_settled:
  assumes "row_of m s = Some row"
  obtains row' where "row_of (write_state now s st oom m) s = Some row'" "srv_id row' = srv_id row"
    "srv_owner row' = srv_owner row" "srv_status row' = srv_status row" "pr_power row' = st"
    "pr_oom row' = oom" "pr_token row' = pr_token row"
  using row_written(1) [OF assms, of now st oom] by auto

lemma allocated_update:
  assumes "\<And>r. srv_owner (f r) = srv_owner r" "\<And>r. srv_status (f r) = srv_status r"
    "\<And>r. pr_memory (f r) = pr_memory r"
  shows "allocated_mib (update_where p f rows) owner = allocated_mib rows owner"
proof -
  have "sum_list (map pr_memory (filter (\<lambda>r. srv_owner r = owner \<and> srv_status r \<noteq> ServerDeleting)
      (update_where p f rows))) = sum_list (map pr_memory
      (filter (\<lambda>r. srv_owner r = owner \<and> srv_status r \<noteq> ServerDeleting) rows))"
    by (induction rows) (auto simp: update_where_def assms)
  then show ?thesis by (simp only: allocated_mib_def)
qed

lemma may_start_after:
  assumes "srv_status row' = srv_status row" "srv_owner row' = srv_owner row"
  shows "may_start (set_wish s w (say_state s st tg oom
      ((write_state now s st oom m)\<lparr>m_hub := h\<rparr>))) row' l = may_start m row l"
  unfolding may_start_def using assms
  by (simp add: write_state_def allocated_update cong: if_cong)

lemma started_row:
  assumes "row_of m (srv_id row) = Some row" "may_start m row l = Inr program" "l_spawns l"
  obtains row' where "row_of (fst (start row l m)) (srv_id row) = Some row'"
    "pr_power row' = PowerStarting" "pr_token row' = Some (l_token l)"
proof -
  let ?s = "srv_id row"
  let ?w = "\<lparr>wish_target = Some TargetStart, wish_killed = False, wish_undelivered = False\<rparr>"
  obtain r1 where "row_of (put_token ?s (l_token l) m) ?s = Some r1" and tok: "pr_token r1 = Some (l_token l)"
    using row_written(2) [OF assms(1)] by auto
  then have "row_of (set_wish ?s ?w (put_token ?s (l_token l) m)) ?s = Some r1" by simp
  then obtain r2 where "row_of (write_state (l_now l) ?s PowerStarting False
      (set_wish ?s ?w (put_token ?s (l_token l) m))) ?s = Some r2"
    "pr_power r2 = PowerStarting" "pr_token r2 = pr_token r1" by (rule row_settled)
  with tok assms(2,3) show ?thesis by (intro that [of r2]) (simp_all add: start_def Let_def)
qed

lemma start_hub:
  assumes "may_start m row l = Inr program" "l_spawns l"
  shows "m_hub (fst (start row l m)) = Supervise.set_token (m_name m (srv_id row)) (l_token l) (m_hub m)"
    and "m_name (fst (start row l m)) = m_name m"
    and "srv_id row \<in> m_watched (fst (start row l m))"
  using assms by (simp_all add: start_def Let_def put_token_def)

lemma power_row_of_row: "row_of m s = Some row \<Longrightarrow> power_row_of m s = Inr row"
  by (simp add: power_row_of_def row_of_def)

text \<open>The manager after the first half of \<open>settle\<close>, before a restart starts again.\<close>

definition put_down :: "id \<Rightarrow> run_state \<Rightarrow> moment \<Rightarrow> manager \<Rightarrow> manager" where
  "put_down server ended now m =
     (let (st, oom) = settled_state (wish_of m server) ended;
          m = write_state now server st oom m;
          m = m\<lparr>m_hub := forget_token (m_name m server) (m_hub m)\<rparr>
      in set_wish server no_wish (say_state server st None oom m))"

lemma settle_split:
  "settle_server server ended l m =
     (let m' = put_down server ended (l_now l) m in
      if wish_target (wish_of m server) = Some TargetRestart then start_again server l m' else m')"
  by (simp add: settle_server_def put_down_def Let_def split_beta)

lemma settled_dead: "fst (settled_state w e) \<in> {PowerStopped, PowerCrashed}"
  by (simp add: settled_state_def)

lemma put_down_row:
  assumes "row_of m s = Some row"
  obtains row' where "row_of (put_down s e now m) s = Some row'" "srv_id row' = srv_id row"
    "srv_owner row' = srv_owner row" "srv_status row' = srv_status row"
    "(pr_power row', pr_oom row') = settled_state (wish_of m s) e"
proof -
  obtain st oom where s: "settled_state (wish_of m s) e = (st, oom)" by fastforce
  from assms obtain row' where "row_of (write_state now s st oom m) s = Some row'"
    "srv_id row' = srv_id row" "srv_owner row' = srv_owner row" "srv_status row' = srv_status row"
    "pr_power row' = st" "pr_oom row' = oom" by (rule row_settled)
  then show ?thesis by (intro that [of row']) (simp_all add: put_down_def s)
qed

lemma put_down_fields [simp]:
  "m_watched (put_down s e now m) = m_watched m" "m_name (put_down s e now m) = m_name m"
  "hub_tokens (m_hub (put_down s e now m)) (m_name m s) = None"
  "wish_of (put_down s e now m) s = no_wish"
  by (simp_all add: put_down_def Let_def split_beta forget_token_def wish_of_def set_wish_def)

lemma put_down_may_start:
  assumes "srv_status row' = srv_status row" "srv_owner row' = srv_owner row"
  shows "may_start (put_down s e now m) row' l = may_start m row l"
  by (simp add: put_down_def Let_def split_beta may_start_after [OF assms])

lemma put_down_changes: "changes_only s m (put_down s e now m)"
  by (simp add: put_down_def Let_def split_beta)

lemma put_down_quiet:
  assumes "r \<in> set (m_servers (put_down s e now m))" "srv_id r = s"
  shows "\<not> claims_to_run r"
proof -
  have "pr_power r = fst (settled_state (wish_of m s) e)"
    using assms written_state by (simp add: put_down_def Let_def split_beta)
  then show ?thesis using settled_dead [of "wish_of m s" e] by (auto simp: claims_to_run_def)
qed

lemma settled_attended:
  assumes "attended m" "wish_target (wish_of m s) \<noteq> Some TargetRestart"
  shows "attended (watch_ends s e l m)"
proof -
  have "watch_ends s e l m = (put_down s e (l_now l) m)\<lparr>m_watched := m_watched m - {s}\<rparr>"
    using assms(2) by (simp add: watch_ends_def settle_split Let_def)
  moreover have "srv_id r \<in> m_watched m - {s}"
    if r: "r \<in> set (m_servers (put_down s e (l_now l) m))" "claims_to_run r" for r
  proof -
    have "srv_id r \<noteq> s" using put_down_quiet r by blast
    with r(1) put_down_changes have "r \<in> set (m_servers m)" unfolding changes_only_def by blast
    with assms(1) r(2) \<open>srv_id r \<noteq> s\<close> show ?thesis by (simp add: attended_def)
  qed
  ultimately show ?thesis by (simp add: attended_def)
qed

text \<open>
  The second half of a restart calls \<open>watch\<close> while the list still holds the server, so no new
  task starts; then the old one takes the server off the list.
\<close>

lemma restart_leaves_unwatched:
  assumes row: "row_of m s = Some row" and wish: "wish_target (wish_of m s) = Some TargetRestart"
    and start: "may_start m row l = Inr program" "l_spawns l" and id: "srv_id row = s"
  shows "s \<notin> m_watched (watch_ends s e l m) \<and>
    (\<exists>r. row_of (watch_ends s e l m) s = Some r \<and> pr_power r = PowerStarting \<and>
       pr_token r = Some (l_token l)) \<and>
    hub_tokens (m_hub (watch_ends s e l m)) (m_name m s) = Some (l_token l)"
proof -
  let ?m = "put_down s e (l_now l) m"
  from row obtain row' where r: "row_of ?m s = Some row'" "srv_id row' = srv_id row"
    "srv_owner row' = srv_owner row" "srv_status row' = srv_status row"
    by (rule put_down_row) blast
  have may: "may_start ?m row' l = Inr program"
    using put_down_may_start [OF r(4,3)] start(1) by simp
  have w: "watch_ends s e l m = (fst (start row' l ?m))\<lparr>m_watched := m_watched (fst (start row' l ?m)) - {s}\<rparr>"
    using wish r(1) by (simp add: watch_ends_def settle_split Let_def start_again_def power_row_of_row)
  have "row_of ?m (srv_id row') = Some row'" using r id by simp
  then obtain r2 where "row_of (fst (start row' l ?m)) (srv_id row') = Some r2"
    "pr_power r2 = PowerStarting" "pr_token r2 = Some (l_token l)"
    using may start(2) by (rule started_row)
  then show ?thesis using r(2) id start_hub(1) [OF may start(2)]
    by (auto simp: w Supervise.set_token_def)
qed

subsection \<open>Who is alive after a restart of the panel\<close>

definition claims :: "power_row list \<Rightarrow> id list" where
  "claims rows = map srv_id (filter claims_to_run rows)"

definition claim_ids :: "manager \<Rightarrow> id set" where
  "claim_ids m = set (claims (m_servers m))"

lemma attended_claims: "attended m \<longleftrightarrow> claim_ids m \<subseteq> m_watched m"
  by (auto simp: attended_def claim_ids_def claims_def)

lemma claims_update:
  assumes "\<And>r. srv_id (f r) = srv_id r" "\<And>r. claims_to_run (f r) = claims_to_run r"
  shows "claims (update_where p f t) = claims t"
  by (induction t) (auto simp: claims_def update_where_def assms)

lemma claims_stopped:
  assumes "\<And>r. \<not> claims_to_run (f r)"
  shows "claims (update_where (\<lambda>r. srv_id r = s) f t) = filter (\<lambda>i. i \<noteq> s) (claims t)"
  by (induction t) (auto simp: claims_def update_where_def assms)

lemma claims_clear: "claim_ids (clear_server now s m) = claim_ids m - {s}"
proof -
  have "claims (m_servers (clear_server now s m)) = filter (\<lambda>i. i \<noteq> s) (claims (m_servers m))"
    unfolding clear_server_def Let_def
    by (simp add: claims_update claims_to_run_def)
      (simp add: write_state_def claims_stopped claims_to_run_def)
  then show ?thesis by (auto simp: claim_ids_def)
qed

lemma reconciled_claims:
  "claim_ids (reconcile_claims now A ss m) = claim_ids m - (set ss - A) \<and>
   m_watched (reconcile_claims now A ss m) = m_watched m \<union> (set ss \<inter> A)"
proof (induction ss arbitrary: m)
  case (Cons s ss)
  have "claim_ids (fst (watch s m)) = claim_ids m" by (simp add: claim_ids_def)
  moreover have "m_watched (clear_server now s m) = m_watched m"
    by (simp add: clear_server_def Let_def)
  ultimately show ?case using Cons.IH claims_clear by auto
qed simp

lemma broken_claims:
  "claim_ids (fold mark_broken ss m) = claim_ids m \<and> m_watched (fold mark_broken ss m) = m_watched m"
proof (induction ss arbitrary: m)
  case (Cons s ss)
  have "claim_ids (mark_broken s m) = claim_ids m"
    unfolding claim_ids_def mark_broken_def by (simp add: claims_update claims_to_run_def)
  moreover have "m_watched (mark_broken s m) = m_watched m" by (simp add: mark_broken_def)
  ultimately show ?case using Cons.IH by simp
qed simp

lemma reconciled:
  "claim_ids (reconcile now open_ops m) = claim_ids m \<inter> attached_ids m"
  "attended (reconcile now open_ops m)"
proof -
  let ?ss = "map srv_id (filter claims_to_run (m_servers m))"
  have ss: "set ?ss = claim_ids m" by (simp add: claim_ids_def claims_def)
  show eq: "claim_ids (reconcile now open_ops m) = claim_ids m \<inter> attached_ids m"
    unfolding reconcile_def Let_def using broken_claims reconciled_claims ss by auto
  have "m_watched (reconcile now open_ops m) = m_watched m \<union> (set ?ss \<inter> attached_ids m)"
    unfolding reconcile_def Let_def using broken_claims reconciled_claims by auto
  then show "attended (reconcile now open_ops m)"
    unfolding attended_claims eq ss by blast
qed

end
