(* ===== verification/Console.thy ===== *)
theory Console
  imports Supervise
begin

text \<open>
  The console of a server as the panel keeps it: \<open>ops/console.rs\<close> (tidying a line, the history
  and its bounds), the console, socket and snapshot parts of a \<open>Channel\<close> in \<open>ops/events.rs\<close>,
  and the bundles of \<open>ops/follow.rs\<close>.
\<close>

definition MAX_LINES :: nat where "MAX_LINES = 10000"
definition MAX_BYTES :: nat where "MAX_BYTES = 4 * 1024 * 1024"
definition MAX_LINE_BYTES :: nat where "MAX_LINE_BYTES = 8 * 1024"
definition TRUNCATION_MARK :: ustr where "TRUNCATION_MARK = lit '' [truncated]''"

subsection \<open>Tidying a line\<close>

definition is_ascii_alphabetic :: "nat \<Rightarrow> bool" where
  "is_ascii_alphabetic c = (ascii_upper c \<or> ascii_lower c)"

text \<open>\<open>chars.by_ref()\<close> up to and with the first character that ends the sequence.\<close>

definition skip_past :: "(nat \<Rightarrow> bool) \<Rightarrow> ustr \<Rightarrow> ustr" where
  "skip_past p cs = drop 1 (dropWhile (\<lambda>c. \<not> p c) cs)"

lemma skip_past_length: "length (skip_past p cs) \<le> length cs"
  unfolding skip_past_def by (metis diff_le_self length_drop length_dropWhile_le le_trans)

function tidy_chars :: "ustr \<Rightarrow> ustr" where
  "tidy_chars [] = []"
| "tidy_chars (c # cs) =
     (if c = 27 then
        (case cs of
           [] \<Rightarrow> []
         | d # ds \<Rightarrow>
             if d = 91 then tidy_chars (skip_past is_ascii_alphabetic ds)
             else if d = 93 then tidy_chars (skip_past (\<lambda>e. e = 7 \<or> e = 156) ds)
             else tidy_chars ds)
      else if c = 9 then c # tidy_chars cs
      else if c = 13 \<or> c = 10 then tidy_chars cs
      else if is_control c then tidy_chars cs
      else c # tidy_chars cs)"
  by pat_completeness auto
termination
  by (relation "measure length") (auto simp: le_imp_less_Suc le_SucI skip_past_length)

text \<open>\<open>truncate\<close> at the last character boundary that is not beyond the given byte.\<close>

fun truncate_bytes :: "nat \<Rightarrow> ustr \<Rightarrow> ustr" where
  "truncate_bytes n [] = []"
| "truncate_bytes n (c # cs) =
     (if utf8_len c \<le> n then c # truncate_bytes (n - utf8_len c) cs else [])"

definition strip_bom :: "ustr \<Rightarrow> ustr" where
  "strip_bom raw = (case raw of [] \<Rightarrow> [] | c # cs \<Rightarrow> if c = 65279 then cs else raw)"

definition tidy :: "ustr \<Rightarrow> ustr" where
  "tidy raw =
     (let out = tidy_chars (strip_bom raw) in
      if MAX_LINE_BYTES < byte_len out
      then truncate_bytes (MAX_LINE_BYTES - byte_len TRUNCATION_MARK) out @ TRUNCATION_MARK
      else out)"

lemma truncate_bytes_le: "byte_len (truncate_bytes n cs) \<le> n"
  by (induction n cs rule: truncate_bytes.induct) auto

lemma truncate_bytes_prefix: "prefix (truncate_bytes n cs) cs"
  by (induction n cs rule: truncate_bytes.induct) auto

lemma tidy_chars_clean: "c \<in> set (tidy_chars cs) \<Longrightarrow> c = 9 \<or> \<not> is_control c"
  by (induction cs rule: tidy_chars.induct) (auto split: if_splits list.splits)

lemma mark_length: "byte_len TRUNCATION_MARK = 12"
  by (simp add: TRUNCATION_MARK_def lit_def utf8_len_def)

lemma tidy_bounded: "byte_len (tidy raw) \<le> MAX_LINE_BYTES"
  using truncate_bytes_le [of "MAX_LINE_BYTES - 12" "tidy_chars (strip_bom raw)"]
  by (auto simp: tidy_def Let_def mark_length MAX_LINE_BYTES_def)

lemma tidy_clean: "c \<in> set (tidy raw) \<Longrightarrow> c = 9 \<or> \<not> is_control c"
proof -
  assume c: "c \<in> set (tidy raw)"
  have mark: "\<forall>c \<in> set TRUNCATION_MARK. \<not> is_control c"
    by (simp add: TRUNCATION_MARK_def lit_def is_control_def)
  have "set (truncate_bytes n cs) \<subseteq> set cs" for n cs
    using truncate_bytes_prefix set_mono_prefix by blast
  with c mark have "c \<in> set (tidy_chars (strip_bom raw)) \<or> \<not> is_control c"
    by (auto simp: tidy_def Let_def split: if_splits)
  then show ?thesis by (auto dest: tidy_chars_clean)
qed

text \<open>A line without control characters that is short enough is kept as it is.\<close>

lemma tidy_chars_plain: "\<forall>c \<in> set cs. c = 9 \<or> \<not> is_control c \<Longrightarrow> tidy_chars cs = cs"
proof (induction cs rule: tidy_chars.induct)
  case (2 c cs)
  then show ?case by (cases "c = 9") (auto simp: is_control_def)
qed simp

lemma tidy_idempotent: "tidy (tidy raw) = tidy raw" if "tidy raw = [] \<or> hd (tidy raw) \<noteq> 65279"
proof -
  have "strip_bom (tidy raw) = tidy raw" using that by (auto simp: strip_bom_def split: list.splits)
  moreover have "tidy_chars (tidy raw) = tidy raw" by (rule tidy_chars_plain) (auto dest: tidy_clean)
  ultimately show ?thesis using tidy_bounded [of raw] by (simp add: tidy_def [of "tidy raw"])
qed

subsection \<open>The history\<close>

record history =
  h_first_seq :: nat
  h_lines :: "ustr list"
  h_dropped :: nat

record console =
  con_lines :: "ustr list"
  con_bytes :: nat
  con_next_seq :: nat
  con_first_seq :: nat
  con_dropped :: nat

definition console_new :: "nat \<Rightarrow> console" where
  "console_new seq = \<lparr>con_lines = [], con_bytes = 0, con_next_seq = seq, con_first_seq = seq,
     con_dropped = 0\<rparr>"

definition over_limit :: "console \<Rightarrow> bool" where
  "over_limit c = (MAX_LINES < length (con_lines c) \<or>
     MAX_BYTES < con_bytes c \<and> 1 < length (con_lines c))"

definition drop_first :: "console \<Rightarrow> console" where
  "drop_first c = c\<lparr>con_lines := tl (con_lines c), con_bytes := con_bytes c - byte_len (hd (con_lines c)),
     con_first_seq := con_first_seq c + 1, con_dropped := con_dropped c + 1\<rparr>"

function trim_console :: "console \<Rightarrow> console" where
  "trim_console c = (if over_limit c then trim_console (drop_first c) else c)"
  by pat_completeness auto
termination
  by (relation "measure (length \<circ> con_lines)") (auto simp: over_limit_def drop_first_def MAX_LINES_def)

declare trim_console.simps [simp del]

definition console_push :: "ustr \<Rightarrow> console \<Rightarrow> console" where
  "console_push raw c =
     (let line = tidy raw in
      trim_console (c\<lparr>con_bytes := con_bytes c + byte_len line, con_lines := con_lines c @ [line],
        con_next_seq := con_next_seq c + 1\<rparr>))"

definition console_clear :: "console \<Rightarrow> console" where
  "console_clear c = c\<lparr>con_lines := [], con_bytes := 0, con_first_seq := con_next_seq c\<rparr>"

definition history_of :: "console \<Rightarrow> history" where
  "history_of c = \<lparr>h_first_seq = con_first_seq c, h_lines = con_lines c, h_dropped = con_dropped c\<rparr>"

definition counted_lines :: "console \<Rightarrow> bool" where
  "counted_lines c = (con_bytes c = sum_list (map byte_len (con_lines c)) \<and>
     con_first_seq c + length (con_lines c) = con_next_seq c \<and>
     (\<forall>l \<in> set (con_lines c). byte_len l \<le> MAX_LINE_BYTES \<and> (\<forall>x \<in> set l. x = 9 \<or> \<not> is_control x)))"

definition console_ok :: "console \<Rightarrow> bool" where
  "console_ok c = (counted_lines c \<and> length (con_lines c) \<le> MAX_LINES \<and> con_bytes c \<le> MAX_BYTES)"

lemma drop_first_counted:
  "counted_lines c \<Longrightarrow> con_lines c \<noteq> [] \<Longrightarrow> counted_lines (drop_first c)"
  by (cases "con_lines c") (auto simp: counted_lines_def drop_first_def)

lemma trim_counted: "counted_lines c \<Longrightarrow> counted_lines (trim_console c)"
proof (induction c rule: trim_console.induct)
  case (1 c)
  show ?case
  proof (cases "over_limit c")
    case True
    then have "con_lines c \<noteq> []" by (auto simp: over_limit_def)
    then show ?thesis using 1 True drop_first_counted by (subst trim_console.simps) simp
  qed (use 1 in \<open>subst trim_console.simps, simp\<close>)
qed

lemma trim_fits: "\<not> over_limit (trim_console c)"
  by (induction c rule: trim_console.induct) (subst trim_console.simps, simp)

lemma trim_lines: "\<exists>gone. con_lines c = gone @ con_lines (trim_console c) \<and>
    con_dropped (trim_console c) = con_dropped c + length gone \<and>
    con_next_seq (trim_console c) = con_next_seq c"
proof (induction c rule: trim_console.induct)
  case (1 c)
  show ?case
  proof (cases "over_limit c")
    case True
    then obtain l ls where ls: "con_lines c = l # ls" by (cases "con_lines c") (auto simp: over_limit_def)
    from 1 [OF True] obtain gone where "con_lines (drop_first c) = gone @ con_lines (trim_console (drop_first c))"
      "con_dropped (trim_console (drop_first c)) = con_dropped (drop_first c) + length gone"
      "con_next_seq (trim_console (drop_first c)) = con_next_seq (drop_first c)" by blast
    with ls True show ?thesis
      by (subst (1 2 3) trim_console.simps) (intro exI [of _ "l # gone"], simp add: drop_first_def)
  qed (subst (1 2 3) trim_console.simps, simp)
qed

lemma push_counted:
  assumes "counted_lines c"
  shows "counted_lines (console_push raw c)"
  unfolding console_push_def Let_def
  by (rule trim_counted) (use assms tidy_bounded tidy_clean in \<open>auto simp: counted_lines_def\<close>)

lemma fits_bytes: "counted_lines c \<Longrightarrow> \<not> over_limit c \<Longrightarrow> console_ok c"
proof -
  assume c: "counted_lines c" and fits: "\<not> over_limit c"
  have "con_bytes c \<le> MAX_BYTES"
  proof (cases "con_lines c")
    case (Cons l ls)
    with c fits show ?thesis
      by (cases ls) (auto simp: counted_lines_def over_limit_def MAX_BYTES_def MAX_LINE_BYTES_def)
  qed (use c in \<open>simp add: counted_lines_def\<close>)
  with c fits show ?thesis by (simp add: console_ok_def over_limit_def)
qed

lemma push_ok: "console_ok c \<Longrightarrow> console_ok (console_push raw c)"
  by (rule fits_bytes) (simp_all add: push_counted console_ok_def, simp add: console_push_def Let_def trim_fits)

lemma clear_ok: "console_ok c \<Longrightarrow> console_ok (console_clear c)"
  by (simp add: console_ok_def console_clear_def counted_lines_def)

lemma new_ok: "console_ok (console_new n)"
  by (simp add: console_ok_def console_new_def counted_lines_def)

lemma push_lines:
  assumes "console_ok c"
  obtains gone where "con_lines c @ [tidy raw] = gone @ con_lines (console_push raw c)"
    "con_dropped (console_push raw c) = con_dropped c + length gone"
    "con_next_seq (console_push raw c) = con_next_seq c + 1"
    "con_lines (console_push raw c) \<noteq> []"
proof -
  let ?c = "c\<lparr>con_bytes := con_bytes c + byte_len (tidy raw), con_lines := con_lines c @ [tidy raw],
        con_next_seq := con_next_seq c + 1\<rparr>"
  have push: "console_push raw c = trim_console ?c" by (simp add: console_push_def Let_def)
  obtain gone where gone: "con_lines c @ [tidy raw] = gone @ con_lines (console_push raw c)"
    "con_dropped (console_push raw c) = con_dropped c + length gone"
    "con_next_seq (console_push raw c) = con_next_seq c + 1"
    using trim_lines [of ?c] push by auto
  have "trim_console d \<noteq> d \<longrightarrow> con_lines (trim_console d) \<noteq> []" for d
  proof (induction d rule: trim_console.induct)
    case (1 d)
    show ?case
    proof (cases "over_limit d")
      case True
      then have "con_lines (drop_first d) \<noteq> []"
        by (cases "con_lines d"; cases "tl (con_lines d)")
          (auto simp: over_limit_def drop_first_def MAX_LINES_def)
      with 1 [OF True] True show ?thesis
        by (cases "trim_console (drop_first d) = drop_first d") (simp_all add: trim_console.simps [of d])
    qed (simp add: trim_console.simps [of d])
  qed
  then have "con_lines (console_push raw c) \<noteq> []"
    using push by (cases "trim_console ?c = ?c") auto
  with gone show ?thesis using that by blast
qed

lemma push_last: "console_ok c \<Longrightarrow> last (con_lines (console_push raw c)) = tidy raw"
  by (rule push_lines [of c raw]) (assumption, metis last_appendR last_snoc)

subsection \<open>A channel: console, sockets, snapshots (\<open>ops/events.rs\<close>)\<close>

datatype ws_message = WsConsole nat "ustr list" | WsConsoleCleared

definition MAX_SOCKETS_PER_SESSION :: nat where "MAX_SOCKETS_PER_SESSION = 4"
definition SNAPSHOT_INTERVAL :: instant where "SNAPSHOT_INTERVAL = secs 1"

record throttle =
  thr_last :: "instant option"
  thr_pending :: bool

text \<open>\<open>ch_said\<close> is every message broadcast so far.\<close>

record channel =
  ch_console :: console
  ch_primed :: bool
  ch_said :: "ws_message list"
  ch_sockets :: "id \<rightharpoonup> nat"
  ch_throttle :: throttle

definition channel_new :: channel where
  "channel_new = \<lparr>ch_console = console_new 0, ch_primed = False, ch_said = [],
     ch_sockets = Map.empty, ch_throttle = \<lparr>thr_last = None, thr_pending = False\<rparr>\<rparr>"

definition prime :: "nat \<Rightarrow> ustr list \<Rightarrow> channel \<Rightarrow> channel" where
  "prime seq ls ch =
     (if ch_primed ch then ch
      else ch\<lparr>ch_primed := True, ch_console := fold console_push ls (console_new seq)\<rparr>)"

definition console_lines :: "ustr list \<Rightarrow> channel \<Rightarrow> channel" where
  "console_lines ls ch =
     (if ls = [] then ch
      else ch\<lparr>ch_console := fold console_push ls (ch_console ch),
             ch_said := ch_said ch @ [WsConsole (con_next_seq (ch_console ch)) (map tidy ls)]\<rparr>)"

definition clear_console :: "channel \<Rightarrow> channel" where
  "clear_console ch = ch\<lparr>ch_console := console_clear (ch_console ch),
     ch_said := ch_said ch @ [WsConsoleCleared]\<rparr>"

text \<open>\<open>attach\<close>: the history at the moment of subscribing, and where in \<open>ch_said\<close> the events begin.\<close>

definition channel_attach :: "channel \<Rightarrow> history \<times> nat" where
  "channel_attach ch = (history_of (ch_console ch), length (ch_said ch))"

definition open_socket :: "id \<Rightarrow> channel \<Rightarrow> channel \<times> bool" where
  "open_socket session ch =
     (let count = (case ch_sockets ch session of None \<Rightarrow> 0 | Some n \<Rightarrow> n) in
      if MAX_SOCKETS_PER_SESSION \<le> count
      then (ch\<lparr>ch_sockets := (ch_sockets ch)(session \<mapsto> count)\<rparr>, False)
      else (ch\<lparr>ch_sockets := (ch_sockets ch)(session \<mapsto> count + 1)\<rparr>, True))"

definition drop_socket :: "id \<Rightarrow> channel \<Rightarrow> channel" where
  "drop_socket session ch =
     (case ch_sockets ch session of
        None \<Rightarrow> ch
      | Some n \<Rightarrow> ch\<lparr>ch_sockets := (if n - 1 = 0 then (ch_sockets ch)(session := None)
                                    else (ch_sockets ch)(session \<mapsto> n - 1))\<rparr>)"

datatype due = DueNow | DueAfter instant | DuePending

definition claim_snapshot :: "bool \<Rightarrow> instant \<Rightarrow> throttle \<Rightarrow> throttle \<times> due" where
  "claim_snapshot urgent now t =
     (let waited = map_option (\<lambda>l. now - l) (thr_last t) in
      if urgent \<or> (case waited of None \<Rightarrow> True | Some w \<Rightarrow> SNAPSHOT_INTERVAL \<le> w)
      then (t\<lparr>thr_last := Some now\<rparr>, DueNow)
      else if thr_pending t then (t, DuePending)
      else (t\<lparr>thr_pending := True\<rparr>, DueAfter (SNAPSHOT_INTERVAL - the waited)))"

definition snapshot_sent :: "instant \<Rightarrow> throttle \<Rightarrow> throttle" where
  "snapshot_sent now t = t\<lparr>thr_pending := False, thr_last := Some now\<rparr>"

definition sockets_ok :: "channel \<Rightarrow> bool" where
  "sockets_ok ch = (\<forall>s n. ch_sockets ch s = Some n \<longrightarrow> 1 \<le> n \<and> n \<le> MAX_SOCKETS_PER_SESSION)"

lemma fold_push_ok: "console_ok c \<Longrightarrow> console_ok (fold console_push ls c)"
  by (induction ls arbitrary: c) (auto simp: push_ok)

lemma fold_push_seq: "console_ok c \<Longrightarrow> con_next_seq (fold console_push ls c) = con_next_seq c + length ls"
proof (induction ls arbitrary: c)
  case (Cons l ls)
  then show ?case using push_ok [OF Cons.prems, of l] by (auto elim: push_lines [of c l])
qed simp

lemma fold_push_lines:
  "console_ok c \<Longrightarrow> \<exists>gone. con_lines c @ map tidy ls = gone @ con_lines (fold console_push ls c) \<and>
    con_dropped (fold console_push ls c) = con_dropped c + length gone"
proof (induction ls arbitrary: c)
  case (Cons l ls)
  obtain g where g: "con_lines c @ [tidy l] = g @ con_lines (console_push l c)"
    "con_dropped (console_push l c) = con_dropped c + length g"
    using push_lines [OF Cons.prems] by metis
  obtain h where "con_lines (console_push l c) @ map tidy ls = h @ con_lines (fold console_push ls (console_push l c))"
    "con_dropped (fold console_push ls (console_push l c)) = con_dropped (console_push l c) + length h"
    using Cons.IH [OF push_ok [OF Cons.prems]] by blast
  with g have "con_lines c @ map tidy (l # ls) = (g @ h) @ con_lines (fold console_push (l # ls) c)"
    "con_dropped (fold console_push (l # ls) c) = con_dropped c + length (g @ h)"
    by (simp_all, metis append.assoc append_Cons append_Nil)
  then show ?case by blast
qed simp

lemma channel_console_ok:
  "console_ok (ch_console channel_new)"
  "console_ok (ch_console ch) \<Longrightarrow> console_ok (ch_console (prime n ls ch))"
  "console_ok (ch_console ch) \<Longrightarrow> console_ok (ch_console (console_lines ls ch))"
  "console_ok (ch_console ch) \<Longrightarrow> console_ok (ch_console (clear_console ch))"
  by (simp_all add: channel_new_def prime_def console_lines_def clear_console_def new_ok
      fold_push_ok clear_ok)

text \<open>
  What a socket reads is gapless: the history ends where the next message begins, and each
  message ends where the one after it begins.
\<close>

lemma history_then_lines:
  assumes "console_ok (ch_console ch)" "channel_attach ch = (h, from)" "ls \<noteq> []"
  shows "drop from (ch_said (console_lines ls ch)) =
    [WsConsole (h_first_seq h + length (h_lines h)) (map tidy ls)]"
  using assms
  by (auto simp: channel_attach_def console_lines_def history_of_def console_ok_def counted_lines_def)

lemma lines_then_lines:
  assumes "console_ok (ch_console ch)" "ls \<noteq> []" "ks \<noteq> []"
  shows "ch_said (console_lines ks (console_lines ls ch)) = ch_said ch @
    [WsConsole (con_next_seq (ch_console ch)) (map tidy ls),
     WsConsole (con_next_seq (ch_console ch) + length ls) (map tidy ks)]"
  using assms by (simp add: console_lines_def fold_push_seq)

lemma open_socket_ok:
  "sockets_ok ch \<Longrightarrow> sockets_ok (fst (open_socket s ch))"
  by (auto simp: sockets_ok_def open_socket_def Let_def MAX_SOCKETS_PER_SESSION_def split: option.splits)
    (metis le_antisym)

lemma drop_socket_ok: "sockets_ok ch \<Longrightarrow> sockets_ok (drop_socket s ch)"
  by (auto simp: sockets_ok_def drop_socket_def split: option.splits if_splits)
    (metis One_nat_def Suc_leI diff_le_self le_trans not_gr_zero)+

subsection \<open>Bundles (\<open>ops/follow.rs\<close>)\<close>

definition BUNDLE_LINES :: nat where "BUNDLE_LINES = 500"
definition BUNDLE_BYTES :: nat where "BUNDLE_BYTES = 64 * 1024"

record line_bundle =
  bun_lines :: "ustr list"
  bun_bytes :: nat

definition bundle_take :: "ustr \<Rightarrow> line_bundle \<Rightarrow> line_bundle \<times> bool" where
  "bundle_take line b =
     (let b = b\<lparr>bun_bytes := bun_bytes b + byte_len line, bun_lines := bun_lines b @ [line]\<rparr> in
      (b, BUNDLE_LINES \<le> length (bun_lines b) \<or> BUNDLE_BYTES \<le> bun_bytes b))"

definition bundle_flush :: "line_bundle \<Rightarrow> line_bundle \<times> ustr list" where
  "bundle_flush b = (b\<lparr>bun_bytes := 0, bun_lines := []\<rparr>, bun_lines b)"

end
