(* ===== verification/Ops.thy ===== *)
theory Ops
  imports Access
begin

text \<open>
  The operations of the servers (\<open>ops/store.rs\<close>, \<open>Operations\<close> in \<open>ops/mod.rs\<close>): rows that are
  queued, run one at a time per server and a bounded number at a time overall, and end as done,
  failed or cancelled. A statement that writes is a transaction; the model runs each as one step
  over the tables. \<open>finished_at\<close> and the like are whole seconds; \<open>new_id\<close> and \<open>now\<close> are what
  \<open>Id::new\<close> and \<open>Timestamp::now\<close> answer.
\<close>

datatype payload = PayloadNone | PayloadExpected | PayloadDelivered

record op_error =
  err_code :: string
  err_step :: operation_error_step

text \<open>\<open>op_progress\<close> is a \<open>f64\<close> between 0 and 1; the code only stores it and clamps it.\<close>

record op_row =
  op_id :: id
  op_server :: id
  op_kind :: operation_kind
  op_state :: operation_state
  op_phase :: "operation_phase option"
  op_progress :: rat
  op_message :: "ustr option"
  op_src :: "ustr option"
  op_bytes :: "nat option"
  op_files :: "nat option"
  op_current_file :: "ustr option"
  op_error :: "op_error option"
  op_cancellable :: bool
  op_target :: "id option"
  op_parent :: "id option"
  op_started_by :: "id option"
  op_input :: "ustr option"
  op_payload :: payload
  op_cancel_requested :: bool
  op_created_at :: moment
  op_started_at :: "moment option"
  op_finished_at :: "moment option"
  op_dismissed_at :: "moment option"
  op_progressed_at :: "moment option"
  op_applied_at :: "moment option"

record new_operation =
  new_server :: id
  new_kind :: operation_kind
  new_started_by :: "id option"
  new_src :: "ustr option"
  new_target :: "id option"
  new_parent :: "id option"
  new_input :: "ustr option"
  expects_payload :: bool
  new_message :: "ustr option"

record step =
  st_phase :: "operation_phase option"
  st_progress :: "rat option"
  st_message :: "ustr option"
  st_bytes :: "nat option"
  st_files :: "nat option"
  st_current_file :: "ustr option"
  st_cancellable :: "bool option"

definition is_urgent :: "step \<Rightarrow> bool" where
  "is_urgent s = (st_phase s \<noteq> None \<or> st_cancellable s \<noteq> None)"

text \<open>
  The tables: the operations, the servers, the ids of the backups and those of them a Drive
  upload refers to, and \<open>max_concurrent_operations\<close>.
\<close>

record ops_db =
  operations :: "op_row list"
  ops_servers :: "server_row list"
  ops_backups :: "id list"
  ops_uploads :: "id list"
  ops_width :: int

definition operation_not_found :: failure where
  "operation_not_found = not_found ''operation_not_found''"

definition bump_revision :: "id \<Rightarrow> ops_db \<Rightarrow> ops_db" where
  "bump_revision server db = db\<lparr>ops_servers := update_where (\<lambda>s. srv_id s = server)
     (\<lambda>s. s\<lparr>srv_operations_revision := srv_operations_revision s + 1\<rparr>) (ops_servers db)\<rparr>"

definition op_fetch :: "ops_db \<Rightarrow> id \<Rightarrow> op_row result" where
  "op_fetch db i = (case fetch_optional (\<lambda>q. op_id q = i) (operations db) of
     None \<Rightarrow> Inl operation_not_found | Some q \<Rightarrow> Inr q)"

definition op_fetch_of_server :: "ops_db \<Rightarrow> id \<Rightarrow> id \<Rightarrow> op_row result" where
  "op_fetch_of_server db server i = and_then (op_fetch db i) (\<lambda>q.
     if op_server q \<noteq> server then Inl operation_not_found else Inr q)"

text \<open>
  The unique indices of the table: one open \<open>backup_create\<close> and one open \<open>backup_restore\<close> per
  server. \<open>references_exist\<close> is its foreign keys, but for the one to the users.
\<close>

definition collides :: "op_row list \<Rightarrow> id \<Rightarrow> operation_kind \<Rightarrow> bool" where
  "collides ops server kind = (kind \<in> {OpBackupCreate, OpBackupRestore} \<and>
     (\<exists>q \<in> set ops. op_server q = server \<and> op_kind q = kind \<and> is_open (op_state q)))"

definition references_exist :: "ops_db \<Rightarrow> new_operation \<Rightarrow> bool" where
  "references_exist db new = (new_server new \<in> set (map srv_id (ops_servers db)) \<and>
     (case new_target new of None \<Rightarrow> True | Some t \<Rightarrow> t \<in> set (ops_backups db)) \<and>
     (case new_parent new of None \<Rightarrow> True | Some p \<Rightarrow> p \<in> set (map op_id (operations db))))"

definition queued_row :: "id \<Rightarrow> moment \<Rightarrow> new_operation \<Rightarrow> op_row" where
  "queued_row i now new =
     \<lparr>op_id = i, op_server = new_server new, op_kind = new_kind new, op_state = Queued,
      op_phase = None, op_progress = 0, op_message = new_message new, op_src = new_src new,
      op_bytes = None, op_files = None, op_current_file = None, op_error = None,
      op_cancellable = is_cancellable (new_kind new), op_target = new_target new,
      op_parent = new_parent new, op_started_by = new_started_by new, op_input = new_input new,
      op_payload = (if expects_payload new then PayloadExpected else PayloadNone),
      op_cancel_requested = False, op_created_at = now, op_started_at = None,
      op_finished_at = None, op_dismissed_at = None, op_progressed_at = None,
      op_applied_at = None\<rparr>"

definition op_insert :: "id \<Rightarrow> moment \<Rightarrow> new_operation \<Rightarrow> ops_db \<Rightarrow> ops_db \<times> op_row result" where
  "op_insert i now new db =
     (if i \<in> set (map op_id (operations db)) \<or> collides (operations db) (new_server new) (new_kind new)
      then (db, Inl (conflict ''server_busy''))
      else if \<not> references_exist db new then (db, Inl internal)
      else (let db = bump_revision (new_server new)
                       (db\<lparr>operations := operations db @ [queued_row i now new]\<rparr>)
            in (db, op_fetch db i)))"

definition standing_failure :: "server_row list \<Rightarrow> op_row \<Rightarrow> bool" where
  "standing_failure servers q = (op_kind q = OpServerDelete \<and> op_state q = Failed \<and>
     (\<exists>s \<in> set servers. srv_id s = op_server q \<and> srv_status s = ServerDeleting))"

definition list_for_server :: "ops_db \<Rightarrow> id \<Rightarrow> bool \<Rightarrow> bool \<Rightarrow> nat \<Rightarrow> id option \<Rightarrow> op_row list" where
  "list_for_server db server active_only include_dismissed limit before =
     take limit (order_by_desc op_id (filter (\<lambda>q. op_server q = server \<and>
       (active_only \<longrightarrow> is_open (op_state q)) \<and>
       (include_dismissed \<or> op_dismissed_at q = None \<or> standing_failure (ops_servers db) q) \<and>
       (case before of None \<Rightarrow> True | Some b \<Rightarrow> op_id q < b)) (operations db)))"

definition list_for_servers :: "ops_db \<Rightarrow> id list \<Rightarrow> bool \<Rightarrow> nat \<Rightarrow> id option \<Rightarrow> op_row list" where
  "list_for_servers db servers active_only limit before =
     take limit (order_by_desc op_id (filter (\<lambda>q. op_dismissed_at q = None \<and>
       op_server q \<in> set servers \<and> (active_only \<longrightarrow> is_open (op_state q)) \<and>
       (case before of None \<Rightarrow> True | Some b \<Rightarrow> op_id q < b)) (operations db)))"

definition reasons_of :: "operation_kind list \<Rightarrow> busy_reason list" where
  "reasons_of kinds = remdups_adj (sort (List.map_filter kind_busy_reason kinds))"

definition busy_reasons :: "ops_db \<Rightarrow> id \<Rightarrow> busy_reason list" where
  "busy_reasons db server = reasons_of (remdups (map op_kind
     (filter (\<lambda>q. op_server q = server \<and> is_open (op_state q)) (operations db))))"

definition guard_write :: "ops_db \<Rightarrow> id \<Rightarrow> unit result" where
  "guard_write db server = (case busy_reasons db server of
     [] \<Rightarrow> Inr () | r # rs \<Rightarrow> Inl (conflict ''server_busy''))"

definition revision :: "ops_db \<Rightarrow> id \<Rightarrow> int" where
  "revision db server = (case fetch_optional (\<lambda>s. srv_id s = server) (ops_servers db) of
     None \<Rightarrow> 0 | Some s \<Rightarrow> srv_operations_revision s)"

definition SNAPSHOT_LIMIT :: nat where "SNAPSHOT_LIMIT = 200"

definition ops_snapshot :: "ops_db \<Rightarrow> id \<Rightarrow> int \<times> op_row list \<times> busy_reason list" where
  "ops_snapshot db server = (revision db server,
     list_for_server db server False False SNAPSHOT_LIMIT None, busy_reasons db server)"

definition ongoing :: "op_row \<Rightarrow> bool" where
  "ongoing q = (op_state q = Ongoing)"

definition op_begin :: "moment \<Rightarrow> id \<Rightarrow> ops_db \<Rightarrow> ops_db \<times> op_row option result" where
  "op_begin now i db =
     (case op_fetch db i of
        Inl f \<Rightarrow> (db, Inl f)
      | Inr q \<Rightarrow>
          if op_state q \<noteq> Queued \<or> op_payload q = PayloadExpected then (db, Inr None)
          else if 0 < count_where (\<lambda>p. op_server p = op_server q \<and> ongoing p) (operations db) \<or>
                  ops_width db \<le> int (count_where ongoing (operations db))
          then (db, Inr None)
          else (let db = db\<lparr>operations := update_where (\<lambda>p. op_id p = i \<and> op_state p = Queued)
                          (\<lambda>p. p\<lparr>op_state := Ongoing, op_started_at := Some now,
                                 op_progressed_at := Some now\<rparr>) (operations db)\<rparr>;
                    db = bump_revision (op_server q) db
                in (db, and_then (op_fetch db i) (\<lambda>p. Inr (Some p)))))"

text \<open>\<open>BTreeSet::insert\<close> as a filter: the first row of each server.\<close>

fun first_per_server :: "id set \<Rightarrow> op_row list \<Rightarrow> op_row list" where
  "first_per_server seen [] = []"
| "first_per_server seen (q # qs) =
     (if op_server q \<in> seen then first_per_server seen qs
      else q # first_per_server (insert (op_server q) seen) qs)"

definition runnable :: "ops_db \<Rightarrow> id list" where
  "runnable db =
     (let running = map op_server (filter ongoing (operations db));
          rows = order_by op_id (filter (\<lambda>q. op_state q = Queued \<and> op_payload q \<noteq> PayloadExpected \<and>
                   op_server q \<notin> set running) (operations db));
          free = nat (max (ops_width db - int (count_where ongoing (operations db))) 0)
      in take free (map op_id (first_per_server {} rows)))"

text \<open>One row is written and its server's revision moves: what every other statement does.\<close>

definition write_op :: "id \<Rightarrow> (op_row \<Rightarrow> bool) \<Rightarrow> (op_row \<Rightarrow> op_row) \<Rightarrow> ops_db \<Rightarrow> ops_db \<times> op_row result" where
  "write_op i p f db =
     (case op_fetch db i of
        Inl e \<Rightarrow> (db, Inl e)
      | Inr q \<Rightarrow>
          (let db = bump_revision (op_server q)
                      (db\<lparr>operations := update_where (\<lambda>r. op_id r = i \<and> p r) f (operations db)\<rparr>)
           in (db, op_fetch db i)))"

definition coalesce :: "'a option \<Rightarrow> 'a option \<Rightarrow> 'a option" where
  "coalesce a b = (case a of None \<Rightarrow> b | Some x \<Rightarrow> Some x)"

definition apply_step :: "moment \<Rightarrow> step \<Rightarrow> op_row \<Rightarrow> op_row" where
  "apply_step now s r = r\<lparr>
     op_phase := coalesce (st_phase s) (op_phase r),
     op_progress := (case st_progress s of None \<Rightarrow> op_progress r | Some x \<Rightarrow> max 0 (min 1 x)),
     op_message := coalesce (st_message s) (op_message r),
     op_bytes := coalesce (st_bytes s) (op_bytes r),
     op_files := coalesce (st_files s) (op_files r),
     op_current_file := coalesce (st_current_file s) (op_current_file r),
     op_cancellable := (case st_cancellable s of None \<Rightarrow> op_cancellable r | Some b \<Rightarrow> b),
     op_progressed_at := Some now\<rparr>"

definition op_advance :: "moment \<Rightarrow> step \<Rightarrow> id \<Rightarrow> ops_db \<Rightarrow> ops_db \<times> op_row result" where
  "op_advance now s i = write_op i (\<lambda>_. True) (apply_step now s)"

definition settled_row :: "moment \<Rightarrow> operation_state \<Rightarrow> op_error option \<Rightarrow> op_row \<Rightarrow> op_row" where
  "settled_row now st e r = r\<lparr>op_state := st, op_finished_at := Some now, op_cancellable := False,
     op_progress := (if st = Done then 1 else op_progress r), op_error := e\<rparr>"

definition op_settle ::
  "moment \<Rightarrow> operation_state \<Rightarrow> op_error option \<Rightarrow> id \<Rightarrow> ops_db \<Rightarrow> ops_db \<times> op_row result" where
  "op_settle now st e i = write_op i (\<lambda>_. True) (settled_row now st e)"

definition op_finish :: "moment \<Rightarrow> id \<Rightarrow> ops_db \<Rightarrow> ops_db \<times> op_row result" where
  "op_finish now = op_settle now Done None"

definition op_fail :: "moment \<Rightarrow> op_error \<Rightarrow> id \<Rightarrow> ops_db \<Rightarrow> ops_db \<times> op_row result" where
  "op_fail now e = op_settle now Failed (Some e)"

definition op_cancelled :: "moment \<Rightarrow> id \<Rightarrow> ops_db \<Rightarrow> ops_db \<times> op_row result" where
  "op_cancelled now = op_settle now Cancelled
     (Some \<lparr>err_code = ''cancelled_by_user'', err_step = StepInternal\<rparr>)"

definition op_request_cancel :: "id \<Rightarrow> ops_db \<Rightarrow> ops_db \<times> op_row result" where
  "op_request_cancel i = write_op i (\<lambda>_. True) (\<lambda>r. r\<lparr>op_cancel_requested := True\<rparr>)"

definition op_cancel_is_requested :: "ops_db \<Rightarrow> id \<Rightarrow> bool" where
  "op_cancel_is_requested db i = (case fetch_optional (\<lambda>r. op_id r = i) (operations db) of
     None \<Rightarrow> False | Some r \<Rightarrow> op_cancel_requested r)"

definition op_dismiss :: "moment \<Rightarrow> id \<Rightarrow> ops_db \<Rightarrow> ops_db \<times> unit result" where
  "op_dismiss now i db =
     (let (db, r) = write_op i (\<lambda>r. op_dismissed_at r = None) (\<lambda>r. r\<lparr>op_dismissed_at := Some now\<rparr>) db
      in (db, and_then r (\<lambda>_. Inr ())))"

definition op_payload_state :: "ops_db \<Rightarrow> id \<Rightarrow> payload result" where
  "op_payload_state db i = and_then (op_fetch db i) (\<lambda>r. Inr (op_payload r))"

definition op_set_payload :: "payload \<Rightarrow> id \<Rightarrow> ops_db \<Rightarrow> ops_db \<times> op_row result" where
  "op_set_payload pl i = write_op i (\<lambda>_. True) (\<lambda>r. r\<lparr>op_payload := pl\<rparr>)"

definition interruption :: "operation_kind \<Rightarrow> bool \<Rightarrow> op_error" where
  "interruption kind applied =
     (case kind of
        OpBackupRestore \<Rightarrow> \<lparr>err_code = ''restore_interrupted'', err_step = StepFilesystem\<rparr>
      | OpUnarchive \<Rightarrow>
          if applied then \<lparr>err_code = ''interrupted_while_applying'', err_step = StepFilesystem\<rparr>
          else \<lparr>err_code = ''panel_restarted'', err_step = StepInternal\<rparr>
      | _ \<Rightarrow> \<lparr>err_code = ''panel_restarted'', err_step = StepInternal\<rparr>)"

text \<open>
  Deleting a backup sets the \<open>target_id\<close> of its operations to null (\<open>ON DELETE SET NULL\<close>).
\<close>

definition delete_backup :: "id \<Rightarrow> ops_db \<Rightarrow> ops_db" where
  "delete_backup b db =
     (if b \<in> set (ops_uploads db) \<or> b \<notin> set (ops_backups db) then db
      else db\<lparr>ops_backups := filter (\<lambda>x. x \<noteq> b) (ops_backups db),
              operations := update_where (\<lambda>r. op_target r = Some b) (\<lambda>r. r\<lparr>op_target := None\<rparr>)
                (operations db)\<rparr>)"

definition clean_up_after :: "operation_kind \<Rightarrow> id \<Rightarrow> id option \<Rightarrow> ops_db \<Rightarrow> ops_db" where
  "clean_up_after kind server target db =
     (if kind = OpServerCreate
      then db\<lparr>ops_servers := update_where (\<lambda>s. srv_id s = server)
             (\<lambda>s. s\<lparr>srv_status := ServerBroken, srv_flows_intro := True\<rparr>) (ops_servers db)\<rparr>
      else if kind \<in> {OpInstallLoader, OpRepairContent, OpResetServer, OpInstallModpack,
                      OpChangeGameVersion, OpBackupRestore}
      then db\<lparr>ops_servers := update_where (\<lambda>s. srv_id s = server)
             (\<lambda>s. s\<lparr>srv_status := ServerBroken\<rparr>) (ops_servers db)\<rparr>
      else if kind = OpBackupCreate
      then (case target of None \<Rightarrow> db | Some b \<Rightarrow> delete_backup b db)
      else db)"

definition recover_one :: "moment \<Rightarrow> op_row \<Rightarrow> ops_db \<Rightarrow> ops_db" where
  "recover_one now r db =
     clean_up_after (op_kind r) (op_server r) (op_target r)
       (fst (op_settle now Failed (Some (interruption (op_kind r) (op_applied_at r \<noteq> None))) (op_id r) db))"

definition recoverable :: "op_row \<Rightarrow> bool" where
  "recoverable r = (is_open (op_state r) \<and> op_kind r \<noteq> OpServerDelete)"

definition ops_recover :: "moment \<Rightarrow> ops_db \<Rightarrow> ops_db" where
  "ops_recover now db = fold (recover_one now) (order_by op_id (filter recoverable (operations db))) db"

definition purge_finished :: "moment \<Rightarrow> ops_db \<Rightarrow> ops_db" where
  "purge_finished before db = db\<lparr>operations := delete_where
     (\<lambda>r. op_state r \<in> {Done, Failed, Cancelled} \<and>
          (case op_finished_at r of None \<Rightarrow> False | Some t \<Rightarrow> t < before) \<and>
          \<not> standing_failure (ops_servers db) r) (operations db)\<rparr>"

definition last_sign :: "op_row \<Rightarrow> moment" where
  "last_sign r = the (coalesce (op_progressed_at r) (coalesce (op_started_at r) (Some (op_created_at r))))"

definition sweep_timeouts :: "moment \<Rightarrow> moment \<Rightarrow> moment \<Rightarrow> ops_db \<Rightarrow> ops_db" where
  "sweep_timeouts now stalled_before unpaid_before db =
     (let stalled = map op_id (filter (\<lambda>r. ongoing r \<and> last_sign r < stalled_before) (operations db));
          unpaid = map op_id (filter (\<lambda>r. op_state r = Queued \<and> op_payload r = PayloadExpected \<and>
                     op_created_at r < unpaid_before) (operations db));
          db = fold (\<lambda>i db. fst (op_settle now Failed
                 (Some \<lparr>err_code = ''timeout'', err_step = StepInternal\<rparr>) i db)) stalled db
      in fold (\<lambda>i db. fst (op_settle now Failed
                 (Some \<lparr>err_code = ''payload_timeout'', err_step = StepInternal\<rparr>) i db)) unpaid db)"

definition RETENTION :: moment where "RETENTION = 7 * 24 * 60 * 60"
definition STALL_LIMIT :: moment where "STALL_LIMIT = 10 * 60"
definition PAYLOAD_LIMIT :: moment where "PAYLOAD_LIMIT = 15 * 60"

definition housekeeping :: "moment \<Rightarrow> ops_db \<Rightarrow> ops_db" where
  "housekeeping now db =
     purge_finished (now - RETENTION) (sweep_timeouts now (now - STALL_LIMIT) (now - PAYLOAD_LIMIT) db)"

subsection \<open>Well-formed tables\<close>

lemma is_open_simps [simp]:
  "is_open Queued" "is_open Ongoing" "\<not> is_open Done" "\<not> is_open Failed" "\<not> is_open Cancelled"
  by (simp_all add: is_open_def is_terminal_def)

definition open_of :: "op_row list \<Rightarrow> id \<Rightarrow> operation_kind \<Rightarrow> nat" where
  "open_of ops server kind =
     count_where (\<lambda>r. op_server r = server \<and> op_kind r = kind \<and> is_open (op_state r)) ops"

definition running_on :: "op_row list \<Rightarrow> id \<Rightarrow> nat" where
  "running_on ops server = count_where (\<lambda>r. op_server r = server \<and> ongoing r) ops"

definition finished_iff :: "op_row \<Rightarrow> bool" where
  "finished_iff r = ((op_finished_at r = None) = is_open (op_state r))"

definition ops_ok :: "ops_db \<Rightarrow> bool" where
  "ops_ok db = (distinct (map op_id (operations db)) \<and>
     (\<forall>s. running_on (operations db) s \<le> 1) \<and>
     (\<forall>s. \<forall>k \<in> {OpBackupCreate, OpBackupRestore}. open_of (operations db) s k \<le> 1) \<and>
     (\<forall>r \<in> set (operations db). finished_iff r))"

lemma ops_okD:
  assumes "ops_ok db"
  shows "distinct (map op_id (operations db))" "running_on (operations db) s \<le> 1"
    "k \<in> {OpBackupCreate, OpBackupRestore} \<Longrightarrow> open_of (operations db) s k \<le> 1"
    "r \<in> set (operations db) \<Longrightarrow> finished_iff r"
  using assms by (auto simp: ops_ok_def)

lemma bump_operations [simp]: "operations (bump_revision s db) = operations db"
  "ops_width (bump_revision s db) = ops_width db" "ops_backups (bump_revision s db) = ops_backups db"
  "ops_uploads (bump_revision s db) = ops_uploads db"
  by (simp_all add: bump_revision_def)

lemma op_fetch_Inr:
  "op_fetch db i = Inr q \<Longrightarrow> q \<in> set (operations db) \<and> op_id q = i"
  by (auto simp: op_fetch_def split: option.splits dest: fetch_SomeD)

lemma op_fetch_known:
  "distinct (map op_id (operations db)) \<Longrightarrow> q \<in> set (operations db) \<Longrightarrow> op_fetch db (op_id q) = Inr q"
  using fetch_Some_iff [of op_id "operations db" q] by (simp add: op_fetch_def)

text \<open>A rewrite of rows that opens nothing and starts nothing keeps the tables well formed.\<close>

lemma count_update_le:
  assumes "\<And>r. r \<in> set t \<Longrightarrow> p r \<Longrightarrow> q (f r) \<Longrightarrow> q r"
  shows "count_where q (update_where p f t) \<le> count_where q t"
  using assms by (induction t) (auto simp: count_where_def update_where_def le_SucI)

lemma ops_ok_update:
  assumes ok: "ops_ok db" and ops: "operations db' = update_where p f (operations db)"
    and id: "\<And>r. op_id (f r) = op_id r" and server: "\<And>r. op_server (f r) = op_server r"
    and kind: "\<And>r. op_kind (f r) = op_kind r"
    and opens: "\<And>r. is_open (op_state (f r)) \<Longrightarrow> is_open (op_state r)"
    and starts: "\<And>r. ongoing (f r) \<Longrightarrow> ongoing r"
    and fin: "\<And>r. finished_iff r \<Longrightarrow> finished_iff (f r)"
  shows "ops_ok db'"
proof -
  have "distinct (map op_id (operations db'))"
    using ops_okD(1) [OF ok] by (simp add: ops map_update id)
  moreover have "running_on (operations db') s \<le> 1" for s
    using count_update_le [of "operations db" p "\<lambda>r. op_server r = s \<and> ongoing r" f]
      ops_okD(2) [OF ok, of s] server starts by (simp add: ops running_on_def)
  moreover have "open_of (operations db') s k \<le> 1" if "k \<in> {OpBackupCreate, OpBackupRestore}" for s k
    using count_update_le [of "operations db" p
        "\<lambda>r. op_server r = s \<and> op_kind r = k \<and> is_open (op_state r)" f]
      ops_okD(3) [OF ok that, of s] server kind opens by (simp add: ops open_of_def)
  moreover have "finished_iff r" if r: "r \<in> set (operations db')" for r
  proof -
    obtain r0 where "r0 \<in> set (operations db)" "r = (if p r0 then f r0 else r0)"
      using r by (auto simp: ops in_update)
    then show ?thesis using ops_okD(4) [OF ok, of r0] fin by simp
  qed
  ultimately show ?thesis by (simp add: ops_ok_def)
qed

lemma write_op_ok:
  assumes "ops_ok db" "\<And>r. op_id (f r) = op_id r" "\<And>r. op_server (f r) = op_server r"
    "\<And>r. op_kind (f r) = op_kind r" "\<And>r. is_open (op_state (f r)) \<Longrightarrow> is_open (op_state r)"
    "\<And>r. ongoing (f r) \<Longrightarrow> ongoing r" "\<And>r. finished_iff r \<Longrightarrow> finished_iff (f r)"
  shows "ops_ok (fst (write_op i p f db))"
proof (cases "op_fetch db i")
  case (Inr q)
  then have "operations (fst (write_op i p f db)) = update_where (\<lambda>r. op_id r = i \<and> p r) f (operations db)"
    by (simp add: write_op_def Let_def)
  from assms(1) this assms(2-7) show ?thesis by (rule ops_ok_update)
qed (simp add: write_op_def assms(1))

lemma not_open_terminal: "is_terminal st \<Longrightarrow> \<not> is_open st" "is_terminal st \<Longrightarrow> st \<noteq> Ongoing"
  by (cases st; simp add: is_terminal_def is_open_def)+

lemma advance_ok: "ops_ok db \<Longrightarrow> ops_ok (fst (op_advance now s i db))"
  unfolding op_advance_def
  by (rule write_op_ok) (simp_all add: apply_step_def ongoing_def finished_iff_def)

lemma settle_ok: "ops_ok db \<Longrightarrow> is_terminal st \<Longrightarrow> ops_ok (fst (op_settle now st e i db))"
  unfolding op_settle_def
  by (rule write_op_ok) (simp_all add: settled_row_def ongoing_def finished_iff_def not_open_terminal)

lemma request_cancel_ok: "ops_ok db \<Longrightarrow> ops_ok (fst (op_request_cancel i db))"
  unfolding op_request_cancel_def
  by (rule write_op_ok) (simp_all add: ongoing_def finished_iff_def)

lemma dismiss_ok: "ops_ok db \<Longrightarrow> ops_ok (fst (op_dismiss now i db))"
  unfolding op_dismiss_def split_beta Let_def fst_conv
  by (rule write_op_ok) (simp_all add: ongoing_def finished_iff_def)

lemma set_payload_ok: "ops_ok db \<Longrightarrow> ops_ok (fst (op_set_payload pl i db))"
  unfolding op_set_payload_def
  by (rule write_op_ok) (simp_all add: ongoing_def finished_iff_def)

lemma open_of_zero: "\<not> collides ops s k \<Longrightarrow> k \<in> {OpBackupCreate, OpBackupRestore} \<Longrightarrow> open_of ops s k = 0"
  unfolding collides_def open_of_def count_zero_iff by blast

lemma insert_ok:
  assumes "ops_ok db"
  shows "ops_ok (fst (op_insert i now new db))"
proof (cases "i \<in> set (map op_id (operations db)) \<or>
    collides (operations db) (new_server new) (new_kind new) \<or> \<not> references_exist db new")
  case True
  then have "fst (op_insert i now new db) = db" by (auto simp: op_insert_def)
  with assms show ?thesis by simp
next
  case False
  let ?r = "queued_row i now new"
  have ops: "operations (fst (op_insert i now new db)) = operations db @ [?r]"
    using False by (auto simp: op_insert_def Let_def)
  have "running_on (operations db @ [?r]) s \<le> 1" for s
    using ops_okD(2) [OF assms, of s] by (simp add: running_on_def count_snoc ongoing_def queued_row_def)
  moreover have "open_of (operations db @ [?r]) s k \<le> 1" if k: "k \<in> {OpBackupCreate, OpBackupRestore}" for s k
  proof (cases "s = new_server new \<and> k = new_kind new")
    case True
    with False k have "open_of (operations db) s k = 0" by (intro open_of_zero) auto
    then show ?thesis by (simp add: open_of_def count_snoc)
  next
    case other: False
    then have "open_of (operations db @ [?r]) s k = open_of (operations db) s k"
      by (auto simp: open_of_def count_snoc queued_row_def)
    with ops_okD(3) [OF assms k, of s] show ?thesis by simp
  qed
  moreover have "finished_iff ?r" by (simp add: finished_iff_def queued_row_def is_open_simps)
  ultimately show ?thesis using assms False by (auto simp: ops_ok_def ops queued_row_def)
qed

lemma begin_effect:
  assumes "op_begin now i db = (db', Inr (Some r))"
  obtains q where "op_fetch db i = Inr q" "op_state q = Queued" "op_payload q \<noteq> PayloadExpected"
    "running_on (operations db) (op_server q) = 0"
    "int (count_where ongoing (operations db)) < ops_width db"
    "operations db' = update_where (\<lambda>p. op_id p = i \<and> op_state p = Queued)
       (\<lambda>p. p\<lparr>op_state := Ongoing, op_started_at := Some now, op_progressed_at := Some now\<rparr>) (operations db)"
    "ops_width db' = ops_width db"
  using assms
  by (auto simp: op_begin_def Let_def running_on_def split: sum.splits if_splits)

definition started :: "moment \<Rightarrow> op_row \<Rightarrow> op_row" where
  "started now p = p\<lparr>op_state := Ongoing, op_started_at := Some now, op_progressed_at := Some now\<rparr>"

lemma begin_succeeds:
  assumes "op_fetch db i = Inr q" "op_state q = Queued" "op_payload q \<noteq> PayloadExpected"
    "running_on (operations db) (op_server q) = 0"
    "int (count_where ongoing (operations db)) < ops_width db"
  obtains db' where "op_begin now i db = (db', Inr (Some (started now q)))"
    "operations db' = update_where (\<lambda>p. op_id p = i \<and> op_state p = Queued) (started now) (operations db)"
    "ops_width db' = ops_width db"
proof -
  let ?u = "update_where (\<lambda>p. op_id p = i \<and> op_state p = Queued) (started now) (operations db)"
  have u: "update_where (\<lambda>p. op_id p = i \<and> op_state p = Queued)
      (\<lambda>p. p\<lparr>op_state := Ongoing, op_started_at := Some now, op_progressed_at := Some now\<rparr>)
      (operations db) = ?u"
    by (simp add: started_def [abs_def])
  have "fetch_optional (\<lambda>r. op_id r = i) ?u =
      map_option (\<lambda>r. if op_id r = i \<and> op_state r = Queued then started now r else r)
        (fetch_optional (\<lambda>r. op_id r = i) (operations db))"
    by (rule fetch_update) (simp_all add: started_def)
  moreover have "fetch_optional (\<lambda>r. op_id r = i) (operations db) = Some q"
    using assms(1) by (simp add: op_fetch_def split: option.splits)
  moreover have "op_id q = i" using op_fetch_Inr [OF assms(1)] by simp
  ultimately have "fetch_optional (\<lambda>r. op_id r = i) ?u = Some (started now q)"
    using assms(2) by simp
  with assms u have "op_begin now i db = (bump_revision (op_server q) (db\<lparr>operations := ?u\<rparr>),
      Inr (Some (started now q)))"
    by (simp add: op_begin_def Let_def running_on_def) (simp add: op_fetch_def)
  then show ?thesis by (rule that) simp_all
qed

lemma begun_ok:
  assumes ok: "ops_ok db" and q: "op_fetch db i = Inr q" "running_on (operations db) (op_server q) = 0"
    and ops: "operations db' = update_where (\<lambda>p. op_id p = i \<and> op_state p = Queued) (started now) (operations db)"
  shows "ops_ok db'"
proof -
  let ?p = "\<lambda>p. op_id p = i \<and> op_state p = Queued"
  have only: "r = q" if "r \<in> set (operations db)" "op_id r = i" for r
    using op_fetch_known [OF ops_okD(1) [OF ok] that(1)] that(2) q(1) by simp
  have "distinct (map op_id (operations db'))"
    using ops_okD(1) [OF ok] by (simp add: ops map_update started_def)
  moreover have "running_on (operations db') s \<le> 1" for s
  proof (cases "s = op_server q")
    case True
    have "running_on (operations db') s \<le> running_on (operations db) s + 1"
      unfolding running_on_def ops
      by (rule count_update_one [OF ops_okD(1) [OF ok]]) (simp add: started_def)
    with q(2) True show ?thesis by simp
  next
    case False
    have "running_on (operations db') s \<le> running_on (operations db) s"
      unfolding running_on_def ops
      by (rule count_update_le) (use only False in \<open>auto simp: started_def\<close>)
    with ops_okD(2) [OF ok, of s] show ?thesis by simp
  qed
  moreover have "open_of (operations db') s k \<le> 1" if k: "k \<in> {OpBackupCreate, OpBackupRestore}" for s k
  proof -
    have "open_of (operations db') s k \<le> open_of (operations db) s k"
      unfolding open_of_def ops by (rule count_update_le) (auto simp: started_def)
    with ops_okD(3) [OF ok k, of s] show ?thesis by simp
  qed
  moreover have "finished_iff r" if r: "r \<in> set (operations db')" for r
  proof -
    obtain r0 where r0: "r0 \<in> set (operations db)" "r = (if ?p r0 then started now r0 else r0)"
      using r by (auto simp: ops in_update)
    with ops_okD(4) [OF ok r0(1)] show ?thesis by (auto simp: finished_iff_def started_def)
  qed
  ultimately show ?thesis by (simp add: ops_ok_def)
qed

lemma begin_cases:
  obtains "fst (op_begin now i db) = db" | q where "op_fetch db i = Inr q" "op_state q = Queued"
    "op_payload q \<noteq> PayloadExpected" "running_on (operations db) (op_server q) = 0"
    "int (count_where ongoing (operations db)) < ops_width db"
proof (cases "op_fetch db i")
  case (Inr q)
  show ?thesis
  proof (cases "op_state q = Queued \<and> op_payload q \<noteq> PayloadExpected \<and>
      running_on (operations db) (op_server q) = 0 \<and> int (count_where ongoing (operations db)) < ops_width db")
    case False
    then have "fst (op_begin now i db) = db"
      by (auto simp: op_begin_def Inr running_on_def)
    then show ?thesis by (rule that(1))
  qed (use Inr that in blast)
qed (use that in \<open>simp add: op_begin_def\<close>)

lemma begin_ok:
  assumes "ops_ok db"
  shows "ops_ok (fst (op_begin now i db))"
proof (rule begin_cases [of now i db])
  fix q assume q: "op_fetch db i = Inr q" "op_state q = Queued" "op_payload q \<noteq> PayloadExpected"
    "running_on (operations db) (op_server q) = 0" "int (count_where ongoing (operations db)) < ops_width db"
  then obtain db' where "op_begin now i db = (db', Inr (Some (started now q)))"
    "operations db' = update_where (\<lambda>p. op_id p = i \<and> op_state p = Queued) (started now) (operations db)"
    by (rule begin_succeeds [where now = now])
  with begun_ok [OF assms q(1,4)] show ?thesis by simp
qed (use assms in simp)

text \<open>One more is running after a begin that succeeds.\<close>

lemma begun_count:
  assumes ok: "ops_ok db" and q: "op_fetch db i = Inr q" "op_state q = Queued"
    and ops: "operations db' = update_where (\<lambda>p. op_id p = i \<and> op_state p = Queued) (started now) (operations db)"
  shows "count_where ongoing (operations db') \<le> count_where ongoing (operations db) + 1"
    and "running_on (operations db') s = (if s = op_server q then running_on (operations db') s
           else running_on (operations db) s)"
    and "r \<in> set (operations db) \<Longrightarrow> op_id r \<noteq> i \<Longrightarrow> r \<in> set (operations db')"
proof -
  show "count_where ongoing (operations db') \<le> count_where ongoing (operations db) + 1"
    unfolding ops by (rule count_update_one [OF ops_okD(1) [OF ok]]) (simp add: started_def)
  show "r \<in> set (operations db) \<Longrightarrow> op_id r \<noteq> i \<Longrightarrow> r \<in> set (operations db')"
    by (force simp: ops in_update)
  show "running_on (operations db') s = (if s = op_server q then running_on (operations db') s
           else running_on (operations db) s)"
  proof (cases "s = op_server q")
    case False
    have only: "r = q" if "r \<in> set (operations db)" "op_id r = i" for r
      using op_fetch_known [OF ops_okD(1) [OF ok] that(1)] that(2) q(1) by simp
    have "filter (\<lambda>r. op_server r = s \<and> ongoing r) (update_where (\<lambda>p. op_id p = i \<and> op_state p = Queued) (started now) t)
        = filter (\<lambda>r. op_server r = s \<and> ongoing r) t" if "\<forall>r \<in> set t. op_id r = i \<longrightarrow> r = q" for t
      using that False q(2)
      by (induction t) (auto simp: update_where_def started_def ongoing_def)
    with only False show ?thesis by (simp add: running_on_def count_where_def ops)
  qed simp
qed

subsection \<open>The dispatcher's plan\<close>

text \<open>Every id of a list is waiting, their servers differ and are idle, and there is room for all.\<close>

definition startable :: "ops_db \<Rightarrow> op_row list \<Rightarrow> bool" where
  "startable db qs =
     (distinct (map op_server qs) \<and>
      (\<forall>q \<in> set qs. q \<in> set (operations db) \<and> op_state q = Queued \<and> op_payload q \<noteq> PayloadExpected \<and>
         running_on (operations db) (op_server q) = 0) \<and>
      (qs \<noteq> [] \<longrightarrow> int (count_where ongoing (operations db) + length qs) \<le> ops_width db))"

fun begin_all :: "moment \<Rightarrow> id list \<Rightarrow> ops_db \<Rightarrow> ops_db \<times> op_row option result list" where
  "begin_all now [] db = (db, [])"
| "begin_all now (i # is) db =
     (let (db, r) = op_begin now i db; (db, rs) = begin_all now is db in (db, r # rs))"

lemma startable_begins:
  assumes "ops_ok db" "startable db qs"
  shows "snd (begin_all now (map op_id qs) db) = map (\<lambda>q. Inr (Some (started now q))) qs"
  using assms
proof (induction qs arbitrary: db)
  case (Cons q qs)
  have q: "q \<in> set (operations db)" "op_state q = Queued" "op_payload q \<noteq> PayloadExpected"
    "running_on (operations db) (op_server q) = 0"
    and room: "int (count_where ongoing (operations db) + length (q # qs)) \<le> ops_width db"
    using Cons.prems(2) by (auto simp: startable_def)
  have f: "op_fetch db (op_id q) = Inr q" using op_fetch_known ops_okD(1) Cons.prems(1) q(1) by blast
  have "int (count_where ongoing (operations db)) < ops_width db" using room by simp
  from begin_succeeds [OF f q(2-4) this, where now = now] obtain db' where
    b: "op_begin now (op_id q) db = (db', Inr (Some (started now q)))" and
    ops: "operations db' = update_where (\<lambda>p. op_id p = op_id q \<and> op_state p = Queued) (started now) (operations db)"
    and w: "ops_width db' = ops_width db" by blast
  have ok: "ops_ok db'" using begun_ok [OF Cons.prems(1) f q(4) ops] .
  note eff = begun_count [OF Cons.prems(1) f q(2) ops]
  have "startable db' qs"
    unfolding startable_def
  proof (intro conjI ballI)
    show "distinct (map op_server qs)" using Cons.prems(2) by (simp add: startable_def)
    show "qs \<noteq> [] \<longrightarrow> int (count_where ongoing (operations db') + length qs) \<le> ops_width db'"
      using eff(1) room w by simp
    fix r assume r: "r \<in> set qs"
    have "op_server q \<notin> op_server ` set qs" using Cons.prems(2) by (simp add: startable_def)
    with r have other: "op_server r \<noteq> op_server q" by (metis image_eqI)
    have "\<forall>r \<in> set (q # qs). r \<in> set (operations db) \<and> op_state r = Queued \<and>
        op_payload r \<noteq> PayloadExpected \<and> running_on (operations db) (op_server r) = 0"
      using Cons.prems(2) unfolding startable_def by blast
    with r have old: "r \<in> set (operations db)" "op_state r = Queued" "op_payload r \<noteq> PayloadExpected"
      "running_on (operations db) (op_server r) = 0" by auto
    have "op_id r \<noteq> op_id q"
    proof
      assume "op_id r = op_id q"
      with f op_fetch_known [OF ops_okD(1) [OF Cons.prems(1)] old(1)] have "r = q" by simp
      with other show False by simp
    qed
    then show "r \<in> set (operations db')" using eff(3) old(1) by blast
    show "op_state r = Queued" "op_payload r \<noteq> PayloadExpected" by (rule old)+
    show "running_on (operations db') (op_server r) = 0" using eff(2) [of "op_server r"] old(4) other by simp
  qed
  from Cons.IH [OF ok this] b show ?case by (simp add: split_beta)
qed simp

lemma first_per_server_sub: "q \<in> set (first_per_server seen qs) \<Longrightarrow> q \<in> set qs \<and> op_server q \<notin> seen"
  by (induction seen qs rule: first_per_server.induct) (auto split: if_splits)

lemma first_per_server_distinct: "distinct (map op_server (first_per_server seen qs))"
  by (induction seen qs rule: first_per_server.induct) (auto dest: first_per_server_sub)

lemma runnable_startable:
  obtains qs where "runnable db = map op_id qs" "startable db qs"
proof
  let ?running = "map op_server (filter ongoing (operations db))"
  let ?rows = "order_by op_id (filter (\<lambda>q. op_state q = Queued \<and> op_payload q \<noteq> PayloadExpected \<and>
     op_server q \<notin> set ?running) (operations db))"
  let ?free = "nat (max (ops_width db - int (count_where ongoing (operations db))) 0)"
  let ?qs = "take ?free (first_per_server {} ?rows)"
  show "runnable db = map op_id ?qs" by (simp add: runnable_def Let_def take_map)
  show "startable db ?qs"
  proof (cases "?qs = []")
    case True
    then show ?thesis unfolding True by (simp add: startable_def)
  next
    case False
    then have "0 < ?free" by auto
    then have "int (length ?qs) \<le> ops_width db - int (count_where ongoing (operations db))" by simp
    moreover have "distinct (map op_server ?qs)"
      using first_per_server_distinct [of "{}" ?rows] by (simp add: take_map [symmetric])
    moreover have "q \<in> set (operations db) \<and> op_state q = Queued \<and> op_payload q \<noteq> PayloadExpected \<and>
         running_on (operations db) (op_server q) = 0" if "q \<in> set ?qs" for q
    proof -
      have "q \<in> set ?rows" using first_per_server_sub [OF in_set_takeD [OF that]] by blast
      then have q: "q \<in> set (operations db)" "op_state q = Queued" "op_payload q \<noteq> PayloadExpected"
        "op_server q \<notin> set ?running" by (simp_all add: set_order)
      have "\<not> (op_server r = op_server q \<and> ongoing r)" if "r \<in> set (operations db)" for r
        using that q(4) by (auto simp: image_iff)
      then have "running_on (operations db) (op_server q) = 0"
        unfolding running_on_def count_zero_iff by blast
      with q show ?thesis by blast
    qed
    moreover have "int (count_where ongoing (operations db) + length ?qs) \<le> ops_width db"
      using calculation(1) by linarith
    ultimately show ?thesis unfolding startable_def by blast
  qed
qed

subsection \<open>Recovery, timeouts, retention\<close>

lemma write_op_rows:
  "operations (fst (write_op i p f db)) =
     (case op_fetch db i of Inl _ \<Rightarrow> operations db
      | Inr _ \<Rightarrow> update_where (\<lambda>r. op_id r = i \<and> p r) f (operations db))"
  by (simp add: write_op_def Let_def split: sum.splits)

lemma settle_rows:
  "operations (fst (op_settle now st e i db)) =
     update_where (\<lambda>r. op_id r = i) (settled_row now st e) (operations db)"
proof (cases "op_fetch db i")
  case (Inl f)
  then have "\<forall>r \<in> set (operations db). op_id r \<noteq> i"
    by (auto simp: op_fetch_def fetch_None split: option.splits)
  then have "update_where (\<lambda>r. op_id r = i) (settled_row now st e) (operations db) = operations db"
    by (simp add: update_where_def map_idI)
  with Inl show ?thesis by (simp add: op_settle_def write_op_rows)
qed (simp add: op_settle_def write_op_rows)

lemma settle_all_rows:
  "operations (fold (\<lambda>i db. fst (op_settle now st e i db)) is db) =
     map (\<lambda>r. if op_id r \<in> set is then settled_row now st e r else r) (operations db)"
proof (induction "is" arbitrary: db)
  case (Cons i "is")
  have twice: "settled_row now st e (settled_row now st e r) = settled_row now st e r" for r
    by (simp add: settled_row_def)
  have "op_id (settled_row now st e r) = op_id r" for r by (simp add: settled_row_def)
  with Cons.IH twice show ?case by (auto simp: settle_rows update_where_def)
qed simp

lemma settle_all_ok:
  "ops_ok db \<Longrightarrow> is_terminal st \<Longrightarrow> ops_ok (fold (\<lambda>i db. fst (op_settle now st e i db)) is db)"
  by (induction "is" arbitrary: db) (auto simp: settle_ok)

lemma sweep_ok: "ops_ok db \<Longrightarrow> ops_ok (sweep_timeouts now s u db)"
  by (simp add: sweep_timeouts_def Let_def settle_all_ok is_terminal_def)

lemma sweep_rows:
  assumes "distinct (map op_id (operations db))"
  shows "operations (sweep_timeouts now s u db) = map (\<lambda>r.
    if ongoing r \<and> last_sign r < s
    then settled_row now Failed (Some \<lparr>err_code = ''timeout'', err_step = StepInternal\<rparr>) r
    else if op_state r = Queued \<and> op_payload r = PayloadExpected \<and> op_created_at r < u
    then settled_row now Failed (Some \<lparr>err_code = ''payload_timeout'', err_step = StepInternal\<rparr>) r
    else r) (operations db)"
proof -
  have ids: "op_id r \<in> set (map op_id (filter P (operations db))) \<longleftrightarrow> P r"
    if r: "r \<in> set (operations db)" for r and P
  proof
    assume "op_id r \<in> set (map op_id (filter P (operations db)))"
    then obtain q where "q \<in> set (operations db)" "P q" "op_id q = op_id r" by auto
    moreover from this have "q = r" using assms r by (metis distinct_map inj_on_def)
    ultimately show "P r" by blast
  next
    assume "P r"
    with r show "op_id r \<in> set (map op_id (filter P (operations db)))" by simp
  qed
  have keep: "op_id (settled_row now st e r) = op_id r" for st e r by (simp add: settled_row_def)
  show ?thesis unfolding sweep_timeouts_def Let_def settle_all_rows map_map comp_def
  proof (rule map_cong [OF refl])
    fix r assume r: "r \<in> set (operations db)"
    let ?u = "op_state r = Queued \<and> op_payload r = PayloadExpected \<and> op_created_at r < u"
    show "(if op_id (if op_id r \<in> set (map op_id (filter (\<lambda>r. ongoing r \<and> last_sign r < s) (operations db)))
            then settled_row now Failed (Some \<lparr>err_code = ''timeout'', err_step = StepInternal\<rparr>) r else r)
           \<in> set (map op_id (filter (\<lambda>r. op_state r = Queued \<and> op_payload r = PayloadExpected \<and>
               op_created_at r < u) (operations db)))
        then settled_row now Failed (Some \<lparr>err_code = ''payload_timeout'', err_step = StepInternal\<rparr>)
          (if op_id r \<in> set (map op_id (filter (\<lambda>r. ongoing r \<and> last_sign r < s) (operations db)))
            then settled_row now Failed (Some \<lparr>err_code = ''timeout'', err_step = StepInternal\<rparr>) r else r)
        else (if op_id r \<in> set (map op_id (filter (\<lambda>r. ongoing r \<and> last_sign r < s) (operations db)))
            then settled_row now Failed (Some \<lparr>err_code = ''timeout'', err_step = StepInternal\<rparr>) r else r)) =
      (if ongoing r \<and> last_sign r < s
       then settled_row now Failed (Some \<lparr>err_code = ''timeout'', err_step = StepInternal\<rparr>) r
       else if ?u then settled_row now Failed (Some \<lparr>err_code = ''payload_timeout'', err_step = StepInternal\<rparr>) r
       else r)"
      unfolding if_distrib [of op_id] keep if_cancel ids [OF r]
      by (cases "ongoing r \<and> last_sign r < s"; cases ?u) (auto simp: ongoing_def)
  qed
qed

lemma ops_ok_delete:
  assumes ok: "ops_ok db" and gone: "operations d = delete_where p (operations db)"
  shows "ops_ok d"
proof -
  have le: "count_where q (delete_where p t) \<le> count_where q t" for q p and t :: "op_row list"
    by (induction t) (auto simp: count_where_def delete_where_def)
  have "running_on (operations d) s \<le> 1" for s
    using le [of "\<lambda>r. op_server r = s \<and> ongoing r"] ops_okD(2) [OF ok, of s]
    by (simp add: gone running_on_def) (meson le_trans)
  moreover have "open_of (operations d) s k \<le> 1"
    if "k \<in> {OpBackupCreate, OpBackupRestore}" for s k
    using le [of "\<lambda>r. op_server r = s \<and> op_kind r = k \<and> is_open (op_state r)"] ops_okD(3) [OF ok that, of s]
    by (simp add: gone open_of_def) (meson le_trans)
  moreover have "distinct (map op_id (operations d))"
    using ops_okD(1) [OF ok] by (simp add: gone distinct_delete)
  moreover have "\<forall>r \<in> set (operations d). finished_iff r"
    using ops_okD(4) [OF ok] by (simp add: gone set_delete)
  ultimately show ?thesis by (simp add: ops_ok_def)
qed

lemma purge_ok: "ops_ok db \<Longrightarrow> ops_ok (purge_finished before db)"
  by (rule ops_ok_delete [where d = "purge_finished before db"]) (simp_all add: purge_finished_def)

lemma purge_rows:
  assumes "ops_ok db"
  shows "r \<in> set (operations (purge_finished before db)) \<longleftrightarrow> r \<in> set (operations db) \<and>
    (is_open (op_state r) \<or> standing_failure (ops_servers db) r \<or>
     (\<exists>t. op_finished_at r = Some t \<and> before \<le> t))"
proof (cases "r \<in> set (operations db)")
  case True
  then have "finished_iff r" using ops_okD(4) assms by blast
  with True show ?thesis
    by (cases "op_state r"; cases "op_finished_at r")
      (auto simp: purge_finished_def set_delete finished_iff_def)
qed (simp add: purge_finished_def set_delete)

lemma clean_up_rows:
  "map (\<lambda>r. (op_id r, op_state r, op_kind r, op_finished_at r, op_error r)) (operations (clean_up_after k s t db)) =
   map (\<lambda>r. (op_id r, op_state r, op_kind r, op_finished_at r, op_error r)) (operations db)"
  by (auto simp: clean_up_after_def delete_backup_def update_where_def split: option.splits)

text \<open>What matters of a row here; cleaning up may only take a backup off its target.\<close>

definition op_core :: "op_row \<Rightarrow> id \<times> operation_state \<times> operation_kind \<times> op_error option" where
  "op_core r = (op_id r, op_state r, op_kind r, op_error r)"

lemma clean_up_core: "map op_core (operations (clean_up_after k s t db)) = map op_core (operations db)"
proof -
  have "op_core (r\<lparr>op_target := x\<rparr>) = op_core r" for r x by (simp add: op_core_def)
  then show ?thesis
    by (auto simp: clean_up_after_def delete_backup_def map_update split: option.splits)
qed

fun fail_core :: "id \<Rightarrow> op_error \<Rightarrow> id \<times> operation_state \<times> operation_kind \<times> op_error option \<Rightarrow>
    id \<times> operation_state \<times> operation_kind \<times> op_error option" where
  "fail_core i e (j, st, k, er) = (if j = i then (j, Failed, k, Some e) else (j, st, k, er))"

lemma recover_one_core:
  "map op_core (operations (recover_one now r db)) =
    map (fail_core (op_id r) (interruption (op_kind r) (op_applied_at r \<noteq> None))) (map op_core (operations db))"
  by (simp add: recover_one_def clean_up_core settle_rows update_where_def op_core_def settled_row_def)

lemma recover_all_core:
  "map op_core (operations (fold (recover_one now) rs db)) =
    map (fold (\<lambda>r. fail_core (op_id r) (interruption (op_kind r) (op_applied_at r \<noteq> None))) rs)
      (map op_core (operations db))"
  by (induction rs arbitrary: db) (simp_all add: recover_one_core del: map_map, simp add: comp_def)

lemma fold_fail_other:
  "\<forall>r \<in> set rs. op_id r \<noteq> fst c \<Longrightarrow> fold (\<lambda>r. fail_core (op_id r) (e r)) rs c = c"
  by (induction rs) (cases c; auto)+

lemma fold_fail_one:
  "distinct (map op_id rs) \<Longrightarrow> r \<in> set rs \<Longrightarrow>
    fold (\<lambda>r. fail_core (op_id r) (e r)) rs (op_id r, st, k, er) = (op_id r, Failed, k, Some (e r))"
proof (induction rs)
  case (Cons q rs)
  show ?case
  proof (cases "r = q")
    case True
    with Cons.prems(1) have "\<forall>p \<in> set rs. op_id p \<noteq> op_id r" by (auto simp: image_iff)
    then have "fold (\<lambda>r. fail_core (op_id r) (e r)) rs (op_id r, Failed, k, Some (e r)) =
        (op_id r, Failed, k, Some (e r))"
      by (intro fold_fail_other) simp
    then show ?thesis by (simp add: True)
  next
    case False
    with Cons.prems have "r \<in> set rs" by simp
    moreover from this Cons.prems(1) have "op_id r \<noteq> op_id q" by (auto simp: image_iff)
    ultimately show ?thesis using Cons by simp
  qed
qed simp

text \<open>
  After the recovery an operation is open only if it deletes its server; one that was open and
  does not is failed, with the error that names the interruption; all others are as they were.
\<close>

lemma recovered_core:
  assumes ok: "ops_ok db"
  shows "map op_core (operations (ops_recover now db)) = map (\<lambda>r. if recoverable r
    then (op_id r, Failed, op_kind r, Some (interruption (op_kind r) (op_applied_at r \<noteq> None)))
    else op_core r) (operations db)"
proof -
  let ?rs = "order_by op_id (filter recoverable (operations db))"
  let ?e = "\<lambda>r. interruption (op_kind r) (op_applied_at r \<noteq> None)"
  have "distinct (map op_id (filter recoverable (operations db)))"
    using ops_okD(1) [OF ok] by (rule distinct_map_filter)
  then have dist: "distinct (map op_id ?rs)"
    by (simp add: distinct_map order_by_def)
  have one: "fold (\<lambda>r. fail_core (op_id r) (?e r)) ?rs (op_core r) =
      (if recoverable r then (op_id r, Failed, op_kind r, Some (?e r)) else op_core r)"
    if r: "r \<in> set (operations db)" for r
  proof (cases "recoverable r")
    case True
    with r have "r \<in> set ?rs" by (simp add: set_order)
    then show ?thesis using True fold_fail_one [OF dist] by (simp add: op_core_def)
  next
    case False
    have "op_id q \<noteq> fst (op_core r)" if q: "q \<in> set ?rs" for q
    proof
      assume "op_id q = fst (op_core r)"
      moreover from q have "q \<in> set (operations db)" "recoverable q" by (simp_all add: set_order)
      ultimately have "q = r" using r ops_okD(1) [OF ok]
        by (metis op_core_def fst_conv distinct_map inj_on_def)
      with \<open>recoverable q\<close> False show False by simp
    qed
    then have "\<forall>q \<in> set ?rs. op_id q \<noteq> fst (op_core r)" by blast
    then show ?thesis using False by (simp only: fold_fail_other if_False)
  qed
  have "map op_core (operations (ops_recover now db)) =
      map (fold (\<lambda>r. fail_core (op_id r) (?e r)) ?rs \<circ> op_core) (operations db)"
    by (simp only: ops_recover_def recover_all_core map_map)
  also have "\<dots> = map (\<lambda>r. if recoverable r then (op_id r, Failed, op_kind r, Some (?e r))
      else op_core r) (operations db)"
    by (rule map_cong [OF refl]) (simp only: comp_def one)
  finally show ?thesis .
qed

lemma open_after_recover:
  assumes "ops_ok db" "q \<in> set (operations (ops_recover now db))" "is_open (op_state q)"
  shows "op_kind q = OpServerDelete"
proof -
  have "op_core q \<in> set (map op_core (operations (ops_recover now db)))" using assms(2) by simp
  from this [unfolded recovered_core [OF assms(1)] set_map]
  obtain r where r: "op_core q = (if recoverable r
    then (op_id r, Failed, op_kind r, Some (interruption (op_kind r) (op_applied_at r \<noteq> None)))
    else op_core r)"
    by (rule imageE)
  show ?thesis
  proof (cases "recoverable r")
    case True
    with r assms(3) show ?thesis by (simp add: op_core_def)
  next
    case False
    with r have "op_state q = op_state r" "op_kind q = op_kind r" by (simp_all add: op_core_def)
    with False assms(3) show ?thesis by (simp add: recoverable_def)
  qed
qed

lemma distinct_remdups_sorted: "sorted xs \<Longrightarrow> distinct (remdups_adj xs)" for xs :: "'a::linorder list"
proof (induction xs rule: remdups_adj.induct)
  case (3 x y xs)
  then show ?case by (cases "x = y") (auto dest: order.antisym)
qed auto

lemma set_reasons: "set (reasons_of ks) = {b. \<exists>k \<in> set ks. kind_busy_reason k = Some b}"
  by (force simp: reasons_of_def map_filter_def)

lemma busy_reasons_set:
  "set (busy_reasons db s) = {b. \<exists>r \<in> set (operations db). op_server r = s \<and> is_open (op_state r) \<and>
     kind_busy_reason (op_kind r) = Some b}"
  by (auto simp: busy_reasons_def set_reasons)

lemma busy_reasons_sorted: "sorted (busy_reasons db s) \<and> distinct (busy_reasons db s)"
  by (simp add: busy_reasons_def reasons_of_def sorted_remdups_adj distinct_remdups_sorted)

lemma guard_write_iff:
  "guard_write db s = Inr () \<longleftrightarrow>
    (\<forall>r \<in> set (operations db). op_server r = s \<longrightarrow> is_open (op_state r) \<longrightarrow> op_kind r = OpUnarchive)"
proof -
  have "guard_write db s = Inr () \<longleftrightarrow> set (busy_reasons db s) = {}"
    by (auto simp: guard_write_def split: list.splits)
  moreover have "kind_busy_reason k = None \<longleftrightarrow> k = OpUnarchive" for k by (cases k) auto
  ultimately show ?thesis by (auto simp: busy_reasons_set)
qed

subsection \<open>Every table the panel can reach\<close>

lemma delete_backup_ok: "ops_ok db \<Longrightarrow> ops_ok (delete_backup b db)"
proof (cases "b \<in> set (ops_uploads db) \<or> b \<notin> set (ops_backups db)")
  case False
  assume ok: "ops_ok db"
  show ?thesis
    by (rule ops_ok_update [OF ok, where p = "\<lambda>r. op_target r = Some b" and f = "op_target_update (\<lambda>_. None)"])
      (use False in \<open>simp_all add: delete_backup_def ongoing_def finished_iff_def\<close>)
qed (simp add: delete_backup_def)

lemma ops_ok_servers [simp]: "ops_ok (db\<lparr>ops_servers := s\<rparr>) = ops_ok db"
  by (simp add: ops_ok_def)

lemma clean_up_ok: "ops_ok db \<Longrightarrow> ops_ok (clean_up_after k s t db)"
  by (simp add: clean_up_after_def delete_backup_ok split: option.splits)

lemma recover_ok: "ops_ok db \<Longrightarrow> ops_ok (ops_recover now db)"
proof -
  have "ops_ok (fold (recover_one now) rs db)" if "ops_ok db" for rs db
    using that by (induction rs arbitrary: db) (auto simp: recover_one_def clean_up_ok settle_ok is_terminal_def)
  then show "ops_ok db \<Longrightarrow> ops_ok (ops_recover now db)" by (simp add: ops_recover_def)
qed

text \<open>How many run: only \<open>begin\<close> adds one, and only below the width.\<close>

definition all_running :: "ops_db \<Rightarrow> nat" where
  "all_running db = count_where ongoing (operations db)"

lemma write_op_running:
  assumes "\<And>r. ongoing (f r) \<Longrightarrow> ongoing r"
  shows "all_running (fst (write_op i p f db)) \<le> all_running db"
  unfolding all_running_def write_op_rows
  by (cases "op_fetch db i") (auto intro!: count_update_le assms)

lemma write_op_width [simp]: "ops_width (fst (write_op i p f db)) = ops_width db"
  by (simp add: write_op_def Let_def split: sum.splits)

lemma settle_running:
  "is_terminal st \<Longrightarrow> all_running (fst (op_settle now st e i db)) \<le> all_running db"
  unfolding op_settle_def by (rule write_op_running) (simp add: settled_row_def ongoing_def not_open_terminal)

lemma begin_running:
  assumes "ops_ok db"
  shows "int (all_running (fst (op_begin now i db))) \<le> max (int (all_running db)) (ops_width db)"
    "ops_width (fst (op_begin now i db)) = ops_width db"
proof -
  have "int (all_running (fst (op_begin now i db))) \<le> max (int (all_running db)) (ops_width db) \<and>
      ops_width (fst (op_begin now i db)) = ops_width db"
  proof (rule begin_cases [of now i db])
    fix q assume q: "op_fetch db i = Inr q" "op_state q = Queued" "op_payload q \<noteq> PayloadExpected"
      "running_on (operations db) (op_server q) = 0" "int (count_where ongoing (operations db)) < ops_width db"
    then obtain db' where b: "op_begin now i db = (db', Inr (Some (started now q)))"
      "operations db' = update_where (\<lambda>p. op_id p = i \<and> op_state p = Queued) (started now) (operations db)"
      "ops_width db' = ops_width db"
      by (rule begin_succeeds [where now = now])
    with begun_count(1) [OF assms q(1,2) b(2)] q(5) show ?thesis by (simp add: all_running_def)
  qed simp
  then show "int (all_running (fst (op_begin now i db))) \<le> max (int (all_running db)) (ops_width db)"
    "ops_width (fst (op_begin now i db)) = ops_width db" by auto
qed

text \<open>The width is a setting of the panel: \<open>save\<close> of \<open>auth/settings.rs\<close> refuses zero and writes any other
  while operations run. \<open>mark_applied\<close> of \<open>files/archive.rs\<close> notes that an unpacking has begun to move.
  A server that is deleted takes its operations along (\<open>ON DELETE CASCADE\<close>).\<close>

definition set_width :: "nat \<Rightarrow> ops_db \<Rightarrow> ops_db" where
  "set_width n db = (if n = 0 then db else db\<lparr>ops_width := int n\<rparr>)"

definition server_removed :: "id \<Rightarrow> ops_db \<Rightarrow> ops_db" where
  "server_removed server db = db\<lparr>operations := delete_where (\<lambda>r. op_server r = server) (operations db),
     ops_servers := delete_where (\<lambda>s. srv_id s = server) (ops_servers db)\<rparr>"

definition mark_applied :: "moment \<Rightarrow> id \<Rightarrow> ops_db \<Rightarrow> ops_db" where
  "mark_applied now i db = db\<lparr>operations :=
     update_where (\<lambda>r. op_id r = i) (\<lambda>r. r\<lparr>op_applied_at := Some now\<rparr>) (operations db)\<rparr>"

inductive ops_step :: "ops_db \<Rightarrow> ops_db \<Rightarrow> bool" where
  Create: "ops_step db (fst (op_insert i now new db))"
| Begin: "ops_step db (fst (op_begin now i db))"
| Advance: "ops_step db (fst (op_advance now s i db))"
| Settle: "is_terminal st \<Longrightarrow> ops_step db (fst (op_settle now st e i db))"
| RequestCancel: "ops_step db (fst (op_request_cancel i db))"
| Dismiss: "ops_step db (fst (op_dismiss now i db))"
| SetPayload: "ops_step db (fst (op_set_payload pl i db))"
| MarkApplied: "ops_step db (mark_applied now i db)"
| SetWidth: "ops_step db (set_width n db)"
| ServerGone: "ops_step db (server_removed server db)"
| Housekeeping: "ops_step db (housekeeping now db)"
| Recover: "ops_step db (ops_recover now db)"

inductive ops_reachable :: "ops_db \<Rightarrow> bool" where
  Empty: "operations db = [] \<Longrightarrow> 0 \<le> ops_width db \<Longrightarrow> ops_reachable db"
| Step: "ops_reachable db \<Longrightarrow> ops_step db db' \<Longrightarrow> ops_reachable db'"

text \<open>The tables that can be reached while the width is never set above \<open>w\<close>.\<close>

inductive ops_within :: "int \<Rightarrow> ops_db \<Rightarrow> bool" for w where
  Start: "operations db = [] \<Longrightarrow> 0 \<le> ops_width db \<Longrightarrow> ops_width db \<le> w \<Longrightarrow> ops_within w db"
| Go: "ops_within w db \<Longrightarrow> ops_step db db' \<Longrightarrow> ops_width db' \<le> w \<Longrightarrow> ops_within w db'"

lemma settle_all_running:
  "is_terminal st \<Longrightarrow> all_running (fold (\<lambda>i db. fst (op_settle now st e i db)) is db) \<le> all_running db \<and>
    ops_width (fold (\<lambda>i db. fst (op_settle now st e i db)) is db) = ops_width db"
proof (induction "is" arbitrary: db)
  case (Cons i "is")
  from Cons.IH [OF Cons.prems, of "fst (op_settle now st e i db)"] settle_running [OF Cons.prems, of now e i db]
  show ?case by (simp add: op_settle_def)
qed simp

lemma sweep_running:
  "all_running (sweep_timeouts now s u db) \<le> all_running db \<and> ops_width (sweep_timeouts now s u db) = ops_width db"
  unfolding sweep_timeouts_def Let_def
  using settle_all_running [of Failed now] by (simp add: is_terminal_def) (meson le_trans)

lemma delete_running: "count_where ongoing (delete_where p t) \<le> count_where ongoing t"
  by (induction t) (auto simp: count_where_def delete_where_def)

lemma purge_running:
  "all_running (purge_finished b db) \<le> all_running db" "ops_width (purge_finished b db) = ops_width db"
  by (simp_all add: all_running_def purge_finished_def delete_running)

lemma recover_running:
  "all_running (ops_recover now db) \<le> all_running db \<and> ops_width (ops_recover now db) = ops_width db"
proof -
  have clean: "all_running (clean_up_after k s t db) \<le> all_running db \<and>
      ops_width (clean_up_after k s t db) = ops_width db" for k s t db
    by (auto simp: clean_up_after_def delete_backup_def all_running_def ongoing_def
        split: option.splits intro!: count_update_le)
  have "all_running (recover_one now r db) \<le> all_running db \<and> ops_width (recover_one now r db) = ops_width db" for r db
  proof -
    let ?db = "fst (op_settle now Failed (Some (interruption (op_kind r) (op_applied_at r \<noteq> None))) (op_id r) db)"
    have "all_running ?db \<le> all_running db" by (rule settle_running) (simp add: is_terminal_def)
    moreover have "ops_width ?db = ops_width db" by (simp add: op_settle_def)
    ultimately show ?thesis unfolding recover_one_def
      using clean [of "op_kind r" "op_server r" "op_target r" ?db] by linarith
  qed
  then have "all_running (fold (recover_one now) rs db) \<le> all_running db \<and>
      ops_width (fold (recover_one now) rs db) = ops_width db" for rs
    by (induction rs arbitrary: db) (simp_all, meson le_trans)
  then show ?thesis by (simp add: ops_recover_def)
qed

lemma insert_running:
  "all_running (fst (op_insert i now new db)) = all_running db \<and> ops_width (fst (op_insert i now new db)) = ops_width db"
  by (auto simp: op_insert_def Let_def all_running_def count_snoc queued_row_def ongoing_def)

lemma mark_applied_ok: "ops_ok db \<Longrightarrow> ops_ok (mark_applied now i db)"
  unfolding mark_applied_def
  by (rule ops_ok_update [where p = "\<lambda>r. op_id r = i" and f = "\<lambda>r. r\<lparr>op_applied_at := Some now\<rparr>"])
    (simp_all add: ongoing_def finished_iff_def)

lemma server_removed_ok: "ops_ok db \<Longrightarrow> ops_ok (server_removed server db)"
  by (rule ops_ok_delete [where d = "server_removed server db"]) (simp_all add: server_removed_def)

lemma mark_applied_running: "all_running (mark_applied now i db) = all_running db"
  by (simp add: mark_applied_def all_running_def count_update ongoing_def)

lemma ops_step_ok: "ops_step db db' \<Longrightarrow> ops_ok db \<Longrightarrow> ops_ok db'"
proof (induction rule: ops_step.induct)
  case (SetWidth db n)
  then show ?case by (simp add: set_width_def ops_ok_def)
qed (simp_all add: insert_ok begin_ok advance_ok settle_ok request_cancel_ok dismiss_ok set_payload_ok
    mark_applied_ok server_removed_ok housekeeping_def sweep_ok purge_ok recover_ok)

text \<open>A step never makes more operations run than the width of that moment allows; where more run already,
  because the width was lowered, none is begun.\<close>

lemma ops_step_running:
  "ops_step db db' \<Longrightarrow> ops_ok db \<Longrightarrow> int (all_running db') \<le> max (int (all_running db)) (ops_width db)"
proof (induction rule: ops_step.induct)
  case (Create db i now new)
  then show ?case using insert_running by simp
next
  case (Begin db now i)
  then show ?case using begin_running [of db now i] by simp
next
  case (Advance db now s i)
  have "all_running (fst (op_advance now s i db)) \<le> all_running db"
    by (auto simp: op_advance_def apply_step_def ongoing_def intro!: write_op_running)
  then show ?case by simp
next
  case (Settle st db now e i)
  then show ?case using settle_running [of st now e i db] by simp
next
  case (RequestCancel db i)
  have "all_running (fst (op_request_cancel i db)) \<le> all_running db"
    by (auto simp: op_request_cancel_def ongoing_def intro!: write_op_running)
  then show ?case by simp
next
  case (Dismiss db now i)
  have "all_running (fst (op_dismiss now i db)) \<le> all_running db"
    by (auto simp: op_dismiss_def split_beta Let_def ongoing_def intro!: write_op_running)
  then show ?case by simp
next
  case (SetPayload db pl i)
  have "all_running (fst (op_set_payload pl i db)) \<le> all_running db"
    by (auto simp: op_set_payload_def ongoing_def intro!: write_op_running)
  then show ?case by simp
next
  case (MarkApplied db now i)
  then show ?case by (simp add: mark_applied_running)
next
  case (SetWidth db n)
  then show ?case by (simp add: set_width_def all_running_def)
next
  case (ServerGone db server)
  have "all_running (server_removed server db) \<le> all_running db"
    by (simp add: all_running_def server_removed_def delete_running)
  then show ?case by (simp add: le_max_iff_disj)
next
  case (Housekeeping db now)
  let ?s = "sweep_timeouts now (now - STALL_LIMIT) (now - PAYLOAD_LIMIT) db"
  have "all_running (housekeeping now db) \<le> all_running ?s" unfolding housekeeping_def by (rule purge_running)
  also have "\<dots> \<le> all_running db" using sweep_running by blast
  finally show ?case by simp
next
  case (Recover db now)
  have "all_running (ops_recover now db) \<le> all_running db" using recover_running by blast
  then show ?case by (simp add: le_max_iff_disj)
qed

lemma reachable_ops: "ops_reachable db \<Longrightarrow> ops_ok db"
proof (induction rule: ops_reachable.induct)
  case (Empty db)
  then show ?case by (simp add: ops_ok_def running_on_def open_of_def count_where_def)
qed (rule ops_step_ok)

lemma within_reachable: "ops_within w db \<Longrightarrow> ops_reachable db"
  by (induction rule: ops_within.induct) (blast intro: ops_reachable.intros)+

lemma within_running: "ops_within w db \<Longrightarrow> int (all_running db) \<le> w \<and> ops_width db \<le> w"
proof (induction rule: ops_within.induct)
  case (Start db)
  then show ?case by (simp add: all_running_def count_where_def)
next
  case (Go db db')
  then show ?case using ops_step_running [OF Go(2)] reachable_ops [OF within_reachable [OF Go(1)]]
    by (auto simp: le_max_iff_disj)
qed

lemma reachable_within: "ops_reachable db \<Longrightarrow> \<exists>w. ops_within w db"
proof (induction rule: ops_reachable.induct)
  case (Empty db)
  then show ?case using ops_within.Start by blast
next
  case (Step db db')
  have widen: "ops_within w db \<Longrightarrow> w \<le> v \<Longrightarrow> ops_within v db" for w v db
  proof (induction rule: ops_within.induct)
    case (Start db)
    then show ?case using ops_within.Start [of db v] by simp
  next
    case (Go db db')
    then show ?case using ops_within.Go [of v db db'] by simp
  qed
  from Step obtain w where "ops_within w db" by blast
  then have "ops_within (max w (ops_width db')) db" by (rule widen) simp
  with Step(2) have "ops_within (max w (ops_width db')) db'" using ops_within.Go by simp
  then show ?case ..
qed

end
