(* ===== verification/Properties.thy ===== *)
theory Properties
  imports Prelude
begin

text \<open>
  The editor of \<open>server.properties\<close> (\<open>settings/properties.rs\<close>). A file is read into lines that
  keep their original text, so that only what was edited is written anew. \<open>split_entry\<close> walks
  over bytes in the source; every byte it looks for is ASCII, so that walking over characters
  finds the same places. The last part relates the editor to a map from keys to values.
\<close>

subsection \<open>Data\<close>

datatype line =
    Verbatim ustr
  | Entry (entry_key: ustr) (entry_value: ustr) (entry_original: "ustr option")

type_synonym properties = "line list"

definition split_physical :: "ustr \<Rightarrow> ustr list" where
  "split_physical s =
     (let ls = map (\<lambda>l. if l \<noteq> [] \<and> last l = 13 then butlast l else l) (split_on 10 s)
      in if last ls = [] then butlast ls else ls)"

definition is_blank :: "ustr \<Rightarrow> bool" where
  "is_blank l = (trim l = [])"

definition starts_a_comment :: "ustr \<Rightarrow> bool" where
  "starts_a_comment l = (case trim_start l of [] \<Rightarrow> False | c # _ \<Rightarrow> c = 35 \<or> c = 33)"

definition backslashes :: "ustr \<Rightarrow> nat" where
  "backslashes l = length (takeWhile (\<lambda>c. c = 92) (rev l))"

definition continues :: "ustr \<Rightarrow> bool" where
  "continues l = (backslashes l mod 2 = 1)"

definition is_space :: "nat \<Rightarrow> bool" where
  "is_space c = (c = 32 \<or> c = 9 \<or> c = 12)"

text \<open>\<open>join_logical\<close>: every part but the last loses its backslash, every part but the first its
  leading white space. The flag says whether the part is the first one.\<close>

fun join_parts :: "bool \<Rightarrow> ustr list \<Rightarrow> ustr" where
  "join_parts first [] = []"
| "join_parts first [p] = (if first then p else trim_start p)"
| "join_parts first (p # q # ps) =
     butlast (if first then p else trim_start p) @ join_parts False (q # ps)"

definition join_logical :: "ustr list \<Rightarrow> ustr" where
  "join_logical ps = join_parts True ps"

subsection \<open>Escapes\<close>

definition hex_digit :: "nat \<Rightarrow> nat" where
  "hex_digit n = (if n < 10 then 48 + n else 87 + n)"

definition to_digit16 :: "nat \<Rightarrow> nat option" where
  "to_digit16 c =
     (if 48 \<le> c \<and> c \<le> 57 then Some (c - 48)
      else if 97 \<le> c \<and> c \<le> 102 then Some (c - 87)
      else if 65 \<le> c \<and> c \<le> 70 then Some (c - 55)
      else None)"

fun digits16 :: "nat \<Rightarrow> ustr \<Rightarrow> nat option" where
  "digits16 acc [] = Some acc"
| "digits16 acc (c # cs) = (case to_digit16 c of None \<Rightarrow> None | Some d \<Rightarrow> digits16 (16 * acc + d) cs)"

text \<open>\<open>u32::from_str_radix(digits, 16)\<close> takes a leading plus sign, and refuses the empty string
  and a sign alone; four digits cannot overflow. \<open>char::from_u32\<close> refuses surrogates.\<close>

definition from_str_radix16 :: "ustr \<Rightarrow> nat option" where
  "from_str_radix16 s =
     (case s of
        [] \<Rightarrow> None
      | c # cs \<Rightarrow> if c = 43 then (if cs = [] then None else digits16 0 cs) else digits16 0 s)"

definition decode_unit :: "ustr \<Rightarrow> nat option" where
  "decode_unit digits =
     (case from_str_radix16 digits of
        None \<Rightarrow> None
      | Some n \<Rightarrow> if 55296 \<le> n \<and> n \<le> 57343 \<or> 1114112 \<le> n then None else Some n)"

function unescape :: "ustr \<Rightarrow> ustr" where
  "unescape [] = []"
| "unescape (c # cs) =
     (if c \<noteq> 92 then c # unescape cs
      else case cs of
        [] \<Rightarrow> [92]
      | d # ds \<Rightarrow>
          if d = 116 then 9 # unescape ds
          else if d = 110 then 10 # unescape ds
          else if d = 114 then 13 # unescape ds
          else if d = 102 then 12 # unescape ds
          else if d = 117 then
            (case decode_unit (take 4 ds) of Some e \<Rightarrow> [e] | None \<Rightarrow> [92, 117] @ take 4 ds) @
            unescape (drop 4 ds)
          else d # unescape ds)"
  by pat_completeness auto
termination by (relation "measure length") auto

text \<open>\<open>format!("\\u{:04x}")\<close> of a letter below 32 has two zeroes and two digits. The flag says
  whether a space is escaped: in a key always, in a value at its start.\<close>

definition escape_letter :: "bool \<Rightarrow> nat \<Rightarrow> ustr" where
  "escape_letter spaces c =
     (if c = 92 then [92, 92]
      else if c = 9 then [92, 116]
      else if c = 10 then [92, 110]
      else if c = 13 then [92, 114]
      else if c = 12 then [92, 102]
      else if c = 61 \<or> c = 58 \<or> c = 35 \<or> c = 33 then [92, c]
      else if c = 32 \<and> spaces then [92, 32]
      else if c < 32 then [92, 117, 48, 48, hex_digit (c div 16), hex_digit (c mod 16)]
      else [c])"

definition escape :: "ustr \<Rightarrow> bool \<Rightarrow> ustr" where
  "escape s is_key =
     (case s of
        [] \<Rightarrow> []
      | c # cs \<Rightarrow> escape_letter True c @ concat (map (escape_letter is_key) cs))"

subsection \<open>One entry\<close>

fun split_key :: "bool \<Rightarrow> ustr \<Rightarrow> ustr \<times> ustr" where
  "split_key escaped [] = ([], [])"
| "split_key escaped (c # cs) =
     (if \<not> escaped \<and> c \<noteq> 92 \<and> (is_space c \<or> c = 61 \<or> c = 58) then ([], c # cs)
      else let (k, r) = split_key (\<not> escaped \<and> c = 92) cs in (c # k, r))"

definition split_entry :: "ustr \<Rightarrow> ustr \<times> ustr" where
  "split_entry logical =
     (let (k, r) = split_key False (dropWhile is_space logical);
          r = dropWhile is_space r;
          r = (case r of [] \<Rightarrow> [] | c # cs \<Rightarrow> if c = 61 \<or> c = 58 then dropWhile is_space cs else r)
      in (unescape k, unescape r))"

subsection \<open>The file\<close>

text \<open>The inner loop of \<open>parse\<close>: the physical lines of one entry, and the rest.\<close>

fun take_entry :: "ustr list \<Rightarrow> ustr list \<times> ustr list" where
  "take_entry [] = ([], [])"
| "take_entry (l # ls) =
     (if ls \<noteq> [] \<and> continues l then let (part, rest) = take_entry ls in (l # part, rest)
      else ([l], ls))"

lemma take_entry_append: "take_entry ls = (part, rest) \<Longrightarrow> ls = part @ rest"
  by (induction ls arbitrary: part rest) (auto split: if_splits prod.splits)

lemma take_entry_hd: "take_entry (l # ls) = (part, rest) \<Longrightarrow> part \<noteq> [] \<and> hd part = l"
  by (auto split: if_splits prod.splits)

lemma take_entry_shrinks: "take_entry (l # ls) = (part, rest) \<Longrightarrow> length rest < length (l # ls)"
  using take_entry_append [of "l # ls" part rest] take_entry_hd [of l ls part rest]
  by (cases part) (auto simp del: take_entry.simps)

function parse_lines :: "ustr list \<Rightarrow> properties" where
  "parse_lines [] = []"
| "parse_lines (l # ls) =
     (if is_blank l \<or> starts_a_comment l then Verbatim l # parse_lines ls
      else let (part, rest) = take_entry (l # ls);
               (k, v) = split_entry (join_logical part)
           in Entry k v (Some (join_with [10] part)) # parse_lines rest)"
  by pat_completeness auto
termination
proof (relation "measure length")
  fix l ls x part rest y k v
  assume "x = take_entry (l # ls)" "(part, rest) = x"
  then have "take_entry (l # ls) = (part, rest)" by simp
  then show "(rest, l # ls) \<in> measure length" using take_entry_shrinks by simp
qed simp_all

definition props_parse :: "ustr \<Rightarrow> properties" where
  "props_parse s = parse_lines (split_physical s)"

definition has_key :: "ustr \<Rightarrow> line \<Rightarrow> bool" where
  "has_key k l = (case l of Entry found _ _ \<Rightarrow> found = k | Verbatim _ \<Rightarrow> False)"

definition props_get :: "properties \<Rightarrow> ustr \<Rightarrow> ustr option" where
  "props_get p k = map_option entry_value (find (has_key k) (rev p))"

definition props_contains :: "properties \<Rightarrow> ustr \<Rightarrow> bool" where
  "props_contains p k = (props_get p k \<noteq> None)"

definition props_entries :: "properties \<Rightarrow> (ustr \<times> ustr) list" where
  "props_entries p = List.map_filter
     (\<lambda>l. case l of Entry k v _ \<Rightarrow> Some (k, v) | Verbatim _ \<Rightarrow> None) p"

definition edit_line :: "ustr \<Rightarrow> line \<Rightarrow> line" where
  "edit_line v l =
     (case l of
        Entry k held original \<Rightarrow> if held \<noteq> v then Entry k v None else l
      | Verbatim _ \<Rightarrow> l)"

fun edit_first :: "ustr \<Rightarrow> ustr \<Rightarrow> line list \<Rightarrow> line list" where
  "edit_first k v [] = []"
| "edit_first k v (l # ls) =
     (if has_key k l then edit_line v l # ls else l # edit_first k v ls)"

definition props_set :: "ustr \<Rightarrow> ustr \<Rightarrow> properties \<Rightarrow> properties" where
  "props_set k v p =
     (if \<exists>l \<in> set p. has_key k l then rev (edit_first k v (rev p)) else p @ [Entry k v None])"

definition props_remove :: "ustr \<Rightarrow> properties \<Rightarrow> properties \<times> bool" where
  "props_remove k p =
     (let left = filter (\<lambda>l. \<not> has_key k l) p in (left, length left \<noteq> length p))"

definition render_line :: "line \<Rightarrow> ustr" where
  "render_line l =
     (case l of
        Verbatim s \<Rightarrow> s
      | Entry k v (Some s) \<Rightarrow> s
      | Entry k v None \<Rightarrow> escape k True @ [61] @ escape v False)"

definition props_render :: "properties \<Rightarrow> ustr" where
  "props_render p = concat (map (\<lambda>l. render_line l @ [10]) p)"


subsection \<open>Escapes are undone\<close>

lemma hex_back: "n < 16 \<Longrightarrow> to_digit16 (hex_digit n) = Some n"
  by (simp add: to_digit16_def hex_digit_def)

lemma take_four: "take 4 (w # x # y # z # r) = [w, x, y, z]" "drop 4 (w # x # y # z # r) = r"
  by (simp_all add: eval_nat_numeral)

lemma unescape_letter: "unescape (escape_letter b c @ rest) = c # unescape rest"
proof (cases "c \<in> {92, 9, 10, 13, 12, 61, 58, 35, 33} \<or> \<not> c < 32 \<or> c = 32")
  case True
  then show ?thesis by (auto simp: escape_letter_def)
next
  case False
  then have e: "escape_letter b c = [92, 117, 48, 48, hex_digit (c div 16), hex_digit (c mod 16)]"
    by (simp add: escape_letter_def)
  have "c div 16 < 16" using False by auto
  then have "digits16 0 [48, 48, hex_digit (c div 16), hex_digit (c mod 16)] = Some c"
    using hex_back [of "c div 16"] hex_back [of "c mod 16"] by (simp add: to_digit16_def)
  then have "decode_unit [48, 48, hex_digit (c div 16), hex_digit (c mod 16)] = Some c"
    using False by (simp add: decode_unit_def from_str_radix16_def)
  then show ?thesis unfolding e by (simp add: take_four)
qed

lemma unescape_letters: "unescape (concat (map (escape_letter b) cs) @ rest) = cs @ unescape rest"
  by (induction cs) (simp_all add: unescape_letter del: unescape.simps)

lemma unescape_escape: "unescape (escape s k) = s"
proof (cases s)
  case (Cons c cs)
  then show ?thesis
    by (simp only: escape_def list.case unescape_letter unescape_letters [of k cs "[]", simplified])
qed (simp add: escape_def)

subsection \<open>A rendered entry is read back\<close>

lemma split_key_letter: "c \<noteq> 32 \<or> b \<Longrightarrow> split_key False (escape_letter b c @ rest) =
    (let (k, r) = split_key False rest in (escape_letter b c @ k, r))"
  by (auto simp: escape_letter_def is_space_def hex_digit_def Let_def split: prod.splits)

lemma split_key_letters: "split_key False (concat (map (escape_letter True) cs) @ 61 # rest) =
    (concat (map (escape_letter True) cs), 61 # rest)"
  by (induction cs) (simp_all add: split_key_letter)

lemma split_key_escape: "split_key False (escape k True @ 61 # rest) = (escape k True, 61 # rest)"
  using split_key_letters [of k rest] by (cases k) (simp_all add: escape_def)

lemma escape_starts: "dropWhile is_space (escape k b @ rest) =
    (if k = [] then dropWhile is_space rest else escape k b @ rest)"
  by (cases k) (auto simp: escape_def escape_letter_def is_space_def)

lemma split_entry_escape: "split_entry (escape k True @ [61] @ escape v False) = (k, v)"
proof -
  have "dropWhile is_space (escape k True @ 61 # escape v False) = escape k True @ 61 # escape v False"
    using escape_starts [of k True "61 # escape v False"] by (auto simp: escape_def is_space_def)
  moreover have "dropWhile is_space (61 # escape v False) = 61 # escape v False" by (simp add: is_space_def)
  moreover have "dropWhile is_space (escape v False) = escape v False"
    using escape_starts [of v False "[]"] by (auto simp: escape_def)
  ultimately show ?thesis
    by (simp add: split_entry_def split_key_escape unescape_escape del: dropWhile.simps)
qed

lemma backslashes_letter: "backslashes (s @ escape_letter b c) = (if c = 92 then backslashes s + 2 else 0)"
  by (auto simp: backslashes_def escape_letter_def hex_digit_def)

lemma backslashes_letters:
  "even (backslashes s) \<Longrightarrow> even (backslashes (s @ concat (map (escape_letter b) cs)))"
  by (induction cs rule: rev_induct) (simp_all add: backslashes_letter flip: append_assoc)

lemma escape_even: "even (backslashes s) \<Longrightarrow> even (backslashes (s @ escape v b))"
  using backslashes_letters [of "s @ escape_letter True (hd v)" b "tl v"]
  by (cases v) (simp_all add: escape_def backslashes_letter)

lemma set_escape_letter: "10 \<notin> set (escape_letter b c)" "13 \<notin> set (escape_letter b c)"
  by (simp_all add: escape_letter_def hex_digit_def)

lemma set_escape: "10 \<notin> set (escape s b)" "13 \<notin> set (escape s b)"
  by (auto simp: escape_def set_escape_letter split: list.splits)

lemma starts_letter: "starts_a_comment (escape_letter b c @ rest) \<Longrightarrow> is_whitespace c \<and> starts_a_comment rest"
  by (auto simp: starts_a_comment_def trim_start_def escape_letter_def is_whitespace_def split: if_splits)

lemma no_comment_letters: "\<not> starts_a_comment (concat (map (escape_letter b) cs) @ 61 # rest)"
  by (induction cs) (auto dest: starts_letter simp: starts_a_comment_def [of "61 # rest"] trim_start_def is_whitespace_def)

lemma no_comment: "\<not> starts_a_comment (escape k True @ 61 # rest)"
  using no_comment_letters [of True k rest] by (cases k) (simp_all add: escape_def)

lemma blank_iff: "is_blank l \<longleftrightarrow> (\<forall>c \<in> set l. is_whitespace c)"
proof
  assume "is_blank l"
  then have "\<forall>c \<in> set (dropWhile is_whitespace l). is_whitespace c" by (simp add: is_blank_def trim_def trim_start_def)
  then have "dropWhile is_whitespace l = []" by (metis hd_dropWhile list.set_sel(1))
  then show "\<forall>c \<in> set l. is_whitespace c" by simp
qed (auto simp: is_blank_def trim_def trim_start_def dest: set_dropWhileD)

lemma not_blank: "\<not> is_blank (escape k True @ 61 # rest)"
  by (simp add: blank_iff is_whitespace_def)


subsection \<open>Files whose lines stay apart\<close>

text \<open>A physical line that is written is read back when it holds no line feed and does not end in
  a carriage return; the parts of an entry are those lines that continue, up to one that does
  not.\<close>

definition plain_line :: "ustr \<Rightarrow> bool" where
  "plain_line l = (10 \<notin> set l \<and> (l = [] \<or> last l \<noteq> 13))"

definition entry_parts :: "ustr list \<Rightarrow> bool" where
  "entry_parts ps = (ps \<noteq> [] \<and> (\<forall>p \<in> set ps. plain_line p) \<and> \<not> is_blank (hd ps) \<and>
     \<not> starts_a_comment (hd ps) \<and> (\<forall>p \<in> set (butlast ps). continues p) \<and> \<not> continues (last ps))"

definition line_parts :: "line \<Rightarrow> ustr list" where
  "line_parts l = split_on 10 (render_line l)"

definition line_ok :: "line \<Rightarrow> bool" where
  "line_ok l =
     (case l of
        Verbatim s \<Rightarrow> plain_line s \<and> (is_blank s \<or> starts_a_comment s)
      | Entry k v None \<Rightarrow> True
      | Entry k v (Some s) \<Rightarrow> entry_parts (split_on 10 s) \<and> split_entry (join_logical (split_on 10 s)) = (k, v))"

definition tame :: "ustr \<Rightarrow> bool" where
  "tame s = ((\<forall>l \<in> set (split_physical s). plain_line l) \<and>
     (split_physical s = [] \<or> \<not> continues (last (split_physical s))))"

definition settled_line :: "line \<Rightarrow> line" where
  "settled_line l = (case l of Verbatim s \<Rightarrow> l | Entry k v s \<Rightarrow> Entry k v (Some (render_line l)))"

lemma take_entry_run:
  "ps \<noteq> [] \<Longrightarrow> \<forall>p \<in> set (butlast ps). continues p \<Longrightarrow> \<not> continues (last ps) \<Longrightarrow>
    take_entry (ps @ rest) = (ps, rest)"
  by (induction ps) (auto split: if_splits)

lemma take_entry_parts: "entry_parts ps \<Longrightarrow> take_entry (ps @ rest) = (ps, rest)"
  by (rule take_entry_run) (simp_all add: entry_parts_def)

lemma rendered_parts: "line_parts (Entry k v None) = [escape k True @ 61 # escape v False]"
  using set_escape by (auto simp: line_parts_def render_line_def intro!: split_on_plain)

lemma last_not: "xs \<noteq> [] \<Longrightarrow> c \<notin> set xs \<Longrightarrow> last xs \<noteq> c"
  by (metis last_in_set)

lemma rendered_ok: "entry_parts (line_parts (Entry k v None))"
proof -
  have "even (backslashes ((escape k True @ [61]) @ escape v False))"
    by (rule escape_even) (simp add: backslashes_def)
  then have "\<not> continues (escape k True @ 61 # escape v False)" by (simp add: continues_def)
  moreover have "last (escape k True @ 61 # escape v False) \<noteq> 13"
    by (rule last_not) (simp_all add: set_escape)
  ultimately show ?thesis
    by (simp add: rendered_parts entry_parts_def plain_line_def set_escape not_blank no_comment)
qed

lemma entry_line_ok:
  "line_ok (Entry k v s) \<Longrightarrow> entry_parts (line_parts (Entry k v s)) \<and>
    split_entry (join_logical (line_parts (Entry k v s))) = (k, v)"
proof (cases s)
  case None
  then show ?thesis
    using rendered_ok [of k v] split_entry_escape [of k v] by (simp add: rendered_parts join_logical_def)
qed (simp add: line_ok_def line_parts_def render_line_def)

lemma line_parts_plain:
  assumes "line_ok l" "p \<in> set (line_parts l)"
  shows "plain_line p"
proof (cases l)
  case (Verbatim s)
  with assms show ?thesis by (auto simp: line_ok_def line_parts_def render_line_def plain_line_def split_on_plain)
next
  case (Entry k v s)
  with assms entry_line_ok [of k v s] show ?thesis by (simp add: entry_parts_def)
qed

lemma parse_line_parts: "line_ok l \<Longrightarrow> parse_lines (line_parts l @ rest) = settled_line l # parse_lines rest"
proof (cases l)
  case (Verbatim s)
  moreover assume "line_ok l"
  ultimately show ?thesis
    by (auto simp: line_ok_def line_parts_def render_line_def settled_line_def plain_line_def split_on_plain)
next
  case (Entry k v s)
  assume ok: "line_ok l"
  have parts: "entry_parts (line_parts l)" "split_entry (join_logical (line_parts l)) = (k, v)"
    using entry_line_ok [of k v s] ok Entry by simp_all
  obtain p ps where p: "line_parts l = p # ps" using parts(1) by (cases "line_parts l") (auto simp: entry_parts_def)
  have "\<not> is_blank p" "\<not> starts_a_comment p" using parts(1) by (simp_all add: p entry_parts_def)
  moreover have "join_with [10] (line_parts l) = render_line l" by (simp add: line_parts_def join_split)
  moreover have "take_entry (p # ps @ rest) = (line_parts l, rest)"
    using take_entry_parts [OF parts(1), of rest] by (simp only: p append_Cons)
  moreover have "parse_lines (line_parts l @ rest) = parse_lines (p # ps @ rest)" by (simp only: p append_Cons)
  ultimately show ?thesis using parts(2) Entry by (simp add: settled_line_def del: take_entry.simps)
qed


subsection \<open>What is written is read back\<close>

definition written :: "ustr list \<Rightarrow> ustr" where
  "written ls = concat (map (\<lambda>l. l @ [10]) ls)"

lemma split_written: "\<forall>l \<in> set ls. 10 \<notin> set l \<Longrightarrow> split_on 10 (written ls) = ls @ [[]]"
  by (induction ls) (simp_all add: written_def split_on_append)

lemma split_physical_written:
  assumes "\<forall>l \<in> set ls. plain_line l"
  shows "split_physical (written ls) = ls"
proof -
  have s: "split_on 10 (written ls) = ls @ [[]]" using assms by (intro split_written) (simp add: plain_line_def)
  have "map (\<lambda>l. if l \<noteq> [] \<and> last l = 13 then butlast l else l) ls = ls"
    using assms by (intro map_idI) (auto simp: plain_line_def)
  then show ?thesis by (simp add: split_physical_def s)
qed

lemma written_joined: "ls \<noteq> [] \<Longrightarrow> join_with [10] ls @ [10] = written ls"
  by (induction ls rule: induct_list012) (simp_all add: written_def)

lemma render_written: "props_render p = written (concat (map line_parts p))"
proof (induction p)
  case (Cons l p)
  have "render_line l @ [10] = written (line_parts l)"
    using written_joined [of "line_parts l"] by (simp add: line_parts_def join_split)
  with Cons show ?case by (simp add: props_render_def written_def)
qed (simp add: props_render_def written_def)

lemma parse_all_parts: "\<forall>l \<in> set p. line_ok l \<Longrightarrow> parse_lines (concat (map line_parts p)) = map settled_line p"
  by (induction p) (simp_all add: parse_line_parts)

lemma parse_render:
  assumes "\<forall>l \<in> set p. line_ok l"
  shows "props_parse (props_render p) = map settled_line p"
proof -
  have "\<forall>l \<in> set (concat (map line_parts p)). plain_line l" using assms line_parts_plain by auto
  then show ?thesis by (simp add: props_parse_def render_written split_physical_written parse_all_parts assms)
qed

lemma take_entry_closed:
  "take_entry ls = (part, rest) \<Longrightarrow> ls \<noteq> [] \<Longrightarrow> \<not> continues (last ls) \<Longrightarrow>
    (\<forall>p \<in> set (butlast part). continues p) \<and> \<not> continues (last part)"
proof (induction ls arbitrary: part rest)
  case (Cons l ls)
  show ?case
  proof (cases "ls \<noteq> [] \<and> continues l")
    case True
    obtain q r where q: "take_entry ls = (q, r)" by (cases "take_entry ls")
    have "q \<noteq> []" using q True take_entry_hd by (cases ls) blast+
    moreover have "(\<forall>p \<in> set (butlast q). continues p) \<and> \<not> continues (last q)"
      using Cons.IH [OF q] True Cons.prems(3) by simp
    moreover have "part = l # q" using Cons.prems(1) True q by simp
    ultimately show ?thesis using True by simp
  qed (use Cons.prems in auto)
qed simp

lemma parsed_lines_ok:
  "\<forall>l \<in> set ls. plain_line l \<Longrightarrow> ls = [] \<or> \<not> continues (last ls) \<Longrightarrow>
    (\<forall>l \<in> set (parse_lines ls). line_ok l) \<and> concat (map line_parts (parse_lines ls)) = ls"
proof (induction ls rule: parse_lines.induct)
  case (2 l ls)
  show ?case
  proof (cases "is_blank l \<or> starts_a_comment l")
    case True
    have "line_ok (Verbatim l)" "line_parts (Verbatim l) = [l]"
      using True "2.prems" by (auto simp: line_ok_def line_parts_def render_line_def plain_line_def split_on_plain)
    moreover have "parse_lines (l # ls) = Verbatim l # parse_lines ls" using True by simp
    moreover have "ls = [] \<or> \<not> continues (last ls)" using "2.prems"(2) by auto
    ultimately show ?thesis using "2.IH"(1) [OF True] "2.prems"(1) by simp
  next
    case False
    obtain part rest where e: "take_entry (l # ls) = (part, rest)" by (cases "take_entry (l # ls)")
    obtain k v where kv: "split_entry (join_logical part) = (k, v)" by (cases "split_entry (join_logical part)")
    have lines: "l # ls = part @ rest" and hd: "part \<noteq> []" "hd part = l"
      using take_entry_append [OF e] take_entry_hd [OF e] by auto
    have plain: "\<forall>p \<in> set part. plain_line p" "\<forall>p \<in> set rest. plain_line p"
      using "2.prems"(1) unfolding lines by auto
    have "entry_parts part"
      using take_entry_closed [OF e] "2.prems"(2) hd plain False by (simp add: entry_parts_def)
    moreover have s: "split_on 10 (join_with [10] part) = part"
      using plain hd by (intro split_join) (auto simp: plain_line_def)
    ultimately have ok: "line_ok (Entry k v (Some (join_with [10] part)))" using kv by (simp add: line_ok_def)
    have p: "parse_lines (l # ls) = Entry k v (Some (join_with [10] part)) # parse_lines rest"
      using False e kv by (simp del: take_entry.simps)
    have "rest = [] \<or> \<not> continues (last rest)"
      using "2.prems"(2) by (cases "rest = []") (simp_all add: lines)
    with "2.IH"(2) [OF False, of "(part, rest)" part rest] e kv plain(2)
    have "(\<forall>l \<in> set (parse_lines rest). line_ok l) \<and> concat (map line_parts (parse_lines rest)) = rest"
      by simp
    with ok s have "(\<forall>m \<in> set (parse_lines (l # ls)). line_ok m) \<and>
        concat (map line_parts (parse_lines (l # ls))) = part @ rest"
      by (simp add: p line_parts_def [of "Entry k v (Some _)"] render_line_def del: parse_lines.simps)
    then show ?thesis unfolding lines by blast
  qed
qed simp

lemma parsed_ok: "tame s \<Longrightarrow> l \<in> set (props_parse s) \<Longrightarrow> line_ok l"
  using parsed_lines_ok [of "split_physical s"] by (auto simp: tame_def props_parse_def)

lemma render_parsed: "tame s \<Longrightarrow> props_render (props_parse s) = written (split_physical s)"
  using parsed_lines_ok [of "split_physical s"] by (auto simp: tame_def props_parse_def render_written)

lemma split_on_snoc: "split_on c (s @ [c]) = split_on c s @ [[]]"
  by (induction s) (auto split: list.splits)

lemma written_split: "13 \<notin> set s \<Longrightarrow> s = [] \<or> last s = 10 \<Longrightarrow> written (split_physical s) = s"
proof -
  assume s: "13 \<notin> set s" "s = [] \<or> last s = 10"
  let ?ls = "split_on 10 s"
  have "map (\<lambda>l. if l \<noteq> [] \<and> last l = 13 then butlast l else l) ?ls = ?ls"
    using s(1) split_on_subset [of _ 10 s] by (intro map_idI) (metis last_in_set subsetD)
  moreover have "last ?ls = []"
    using s(2) split_on_snoc [of 10 "butlast s"] by (cases "s = []") (simp_all, metis append_butlast_last_id last_snoc)
  moreover have "s = join_with [10] ?ls" by (simp add: join_split)
  moreover have "join_with [10] ?ls = written (butlast ?ls)" if "last ?ls = []"
  proof (cases "butlast ?ls = []")
    case True
    then have "?ls = [[]]" using that by (metis append_Nil append_butlast_last_id split_on_not_Nil)
    then show ?thesis using True by (simp add: written_def)
  next
    case False
    have "join_with [10] (ls @ [[]]) = join_with [10] ls @ [10]" if "ls \<noteq> []" for ls :: "ustr list"
      using that by (induction ls rule: induct_list012) simp_all
    with False that show ?thesis by (metis append_butlast_last_id split_on_not_Nil written_joined)
  qed
  ultimately show ?thesis by (simp add: split_physical_def)
qed


subsection \<open>The editor as a map\<close>

lemma find_append: "find P (xs @ ys) = (case find P xs of Some x \<Rightarrow> Some x | None \<Rightarrow> find P ys)"
  by (induction xs) auto

lemma find_map_same: "(\<And>x. P (f x) = P x) \<Longrightarrow> find P (map f xs) = map_option f (find P xs)"
  by (induction xs) auto

lemma get_settled: "props_get (map settled_line p) k = props_get p k"
proof -
  have "has_key k (settled_line l) = has_key k l" for l
    by (auto simp: has_key_def settled_line_def split: line.splits)
  then have "find (has_key k) (rev (map settled_line p)) = map_option settled_line (find (has_key k) (rev p))"
    by (simp add: rev_map find_map_same)
  moreover have "entry_value (settled_line l) = entry_value l" if "has_key k l" for l
    using that by (auto simp: has_key_def settled_line_def split: line.splits)
  moreover have "has_key k l" if "find (has_key k) (rev p) = Some l" for l
    using that by (auto simp: find_Some_iff)
  ultimately show ?thesis
    by (cases "find (has_key k) (rev p)") (simp_all add: props_get_def)
qed

lemma edit_line_simps:
  "has_key k (edit_line v l) = has_key k l" "has_key k l \<Longrightarrow> entry_value (edit_line v l) = v"
  "line_ok l \<Longrightarrow> line_ok (edit_line v l)"
  by (auto simp: has_key_def edit_line_def line_ok_def split: line.splits)

lemma find_edit_first: "find (has_key k') (edit_first k v ls) =
    (if k' = k then map_option (edit_line v) (find (has_key k) ls) else find (has_key k') ls)"
proof (induction ls)
  case (Cons l ls)
  have "has_key k l \<Longrightarrow> k' \<noteq> k \<Longrightarrow> \<not> has_key k' l" by (auto simp: has_key_def split: line.splits)
  with Cons show ?case by (auto simp: edit_line_simps)
qed simp

lemma get_set: "props_get (props_set k v p) = (props_get p)(k \<mapsto> v)"
proof
  fix k'
  show "props_get (props_set k v p) k' = ((props_get p)(k \<mapsto> v)) k'"
  proof (cases "\<exists>l \<in> set p. has_key k l")
    case True
    then obtain l where l: "find (has_key k) (rev p) = Some l"
      by (metis find_None_iff not_None_eq set_rev)
    moreover have "has_key k l" using l by (auto simp: find_Some_iff)
    ultimately show ?thesis using True
      by (simp add: props_get_def props_set_def find_edit_first edit_line_simps)
  next
    case False
    then have "find (has_key k) (rev p) = None" by (auto simp: find_None_iff)
    with False show ?thesis by (auto simp: props_get_def props_set_def has_key_def [of _ "Entry _ _ _"])
  qed
qed

lemma find_filter: "(\<And>x. P x \<Longrightarrow> Q x) \<Longrightarrow> find P (filter Q xs) = find P xs"
  by (induction xs) auto

lemma get_remove: "props_get (fst (props_remove k p)) = (props_get p)(k := None)"
proof
  fix k'
  show "props_get (fst (props_remove k p)) k' = ((props_get p)(k := None)) k'"
  proof (cases "k' = k")
    case True
    have "find (has_key k) (filter (\<lambda>l. \<not> has_key k l) (rev p)) = None" by (auto simp: find_None_iff)
    with True show ?thesis by (simp add: props_get_def props_remove_def Let_def rev_filter)
  next
    case False
    then have "has_key k' l \<Longrightarrow> \<not> has_key k l" for l by (auto simp: has_key_def split: line.splits)
    with False show ?thesis by (simp add: props_get_def props_remove_def Let_def rev_filter find_filter)
  qed
qed

datatype edit = SetTo ustr ustr | Remove ustr

definition edit_file :: "edit \<Rightarrow> properties \<Rightarrow> properties" where
  "edit_file e p = (case e of SetTo k v \<Rightarrow> props_set k v p | Remove k \<Rightarrow> fst (props_remove k p))"

definition edit_map :: "edit \<Rightarrow> (ustr \<rightharpoonup> ustr) \<Rightarrow> ustr \<rightharpoonup> ustr" where
  "edit_map e m = (case e of SetTo k v \<Rightarrow> m(k \<mapsto> v) | Remove k \<Rightarrow> m(k := None))"

lemma set_edit_first: "l \<in> set (edit_first k v ls) \<Longrightarrow> l \<in> set ls \<or> (\<exists>m \<in> set ls. l = edit_line v m)"
  by (induction ls) (auto split: if_splits)

lemma set_ok: "\<forall>l \<in> set p. line_ok l \<Longrightarrow> \<forall>l \<in> set (props_set k v p). line_ok l"
proof
  fix l assume p: "\<forall>l \<in> set p. line_ok l" and l: "l \<in> set (props_set k v p)"
  from l consider "l \<in> set (edit_first k v (rev p))" | "l \<in> set p" | "l = Entry k v None"
    by (auto simp: props_set_def split: if_splits)
  then show "line_ok l"
  proof cases
    case 1
    from set_edit_first [OF this] p show ?thesis using edit_line_simps(3) by auto
  qed (use p in \<open>simp_all add: line_ok_def\<close>)
qed

lemma edits_ok: "\<forall>l \<in> set p. line_ok l \<Longrightarrow> \<forall>l \<in> set (fold edit_file es p). line_ok l"
proof (induction es arbitrary: p)
  case (Cons e es)
  have "\<forall>l \<in> set (edit_file e p). line_ok l"
    using Cons.prems set_ok by (cases e) (simp_all add: edit_file_def props_remove_def Let_def)
  with Cons.IH show ?case by simp
qed simp

lemma edits_get: "props_get (fold edit_file es p) = fold edit_map es (props_get p)"
proof (induction es arbitrary: p)
  case (Cons e es)
  have "props_get (edit_file e p) = edit_map e (props_get p)"
    by (cases e) (simp_all add: edit_file_def edit_map_def get_set get_remove)
  with Cons show ?case by simp
qed simp

lemma edits_survive:
  "tame s \<Longrightarrow> props_get (props_parse (props_render (fold edit_file es (props_parse s)))) =
    fold edit_map es (props_get (props_parse s))"
  using edits_ok [of "props_parse s" es] parsed_ok [of s]
  by (simp add: parse_render get_settled edits_get fun_eq_iff)

end
