(* ===== verification/Settings.thy ===== *)
theory Settings
  imports Properties "HOL-Library.List_Lexorder"
begin

text \<open>
  The properties a caller may change (\<open>settings/known.rs\<close>, \<open>settings/store.rs\<close>): which keys
  there are and what their values may be, the plan of a patch, and the queue of changes to a
  server that is running, replayed over its file when it starts. The file itself is read and
  written by \<open>settings/disk.rs\<close>; here it is its text, or nothing when it does not exist.
\<close>

subsection \<open>Keys and values\<close>

definition KNOWN_PROPERTY_KEYS :: "ustr list" where
  "KNOWN_PROPERTY_KEYS = map lit
     [''allow_cheats'', ''allow_flight'', ''difficulty'', ''enforce_whitelist'', ''force_gamemode'',
      ''gamemode'', ''generate_structures'', ''generator_settings'', ''hardcore'', ''level_seed'',
      ''level_type'', ''max_players'', ''max_tick_time'', ''motd'', ''pause_when_empty_seconds'',
      ''player_idle_timeout'', ''require_resource_pack'', ''resource_pack'', ''resource_pack_id'',
      ''resource_pack_sha1'', ''simulation_distance'', ''spawn_protection'', ''sync_chunk_writes'',
      ''view_distance'', ''white_list'']"

definition BOOLEAN :: "ustr list" where
  "BOOLEAN = map lit
     [''allow_cheats'', ''allow_flight'', ''enforce_whitelist'', ''force_gamemode'',
      ''generate_structures'', ''hardcore'', ''require_resource_pack'', ''sync_chunk_writes'',
      ''white_list'']"

definition INTEGER :: "ustr list" where
  "INTEGER = map lit
     [''max_players'', ''max_tick_time'', ''pause_when_empty_seconds'', ''player_idle_timeout'',
      ''simulation_distance'', ''spawn_protection'', ''view_distance'']"

definition DIFFICULTY :: "ustr list" where
  "DIFFICULTY = map lit [''peaceful'', ''easy'', ''normal'', ''hard'']"

definition GAMEMODE :: "ustr list" where
  "GAMEMODE = map lit [''survival'', ''creative'', ''adventure'', ''spectator'']"

definition PANEL_OWNED :: "ustr list" where
  "PANEL_OWNED = [lit ''server-port'', lit ''query.port'']"

record property_key =
  key_file :: ustr
  key_wire :: ustr
  key_known :: bool

definition is_panel_owned :: "property_key \<Rightarrow> bool" where
  "is_panel_owned k = (key_file k \<in> set PANEL_OWNED)"

definition replace_char :: "nat \<Rightarrow> nat \<Rightarrow> ustr \<Rightarrow> ustr" where
  "replace_char a b s = map (\<lambda>c. if c = a then b else c) s"

definition property_letter :: "nat \<Rightarrow> bool" where
  "property_letter c = (48 \<le> c \<and> c \<le> 57 \<or> 65 \<le> c \<and> c \<le> 90 \<or> 97 \<le> c \<and> c \<le> 122 \<or>
     c = 46 \<or> c = 95 \<or> c = 45)"

definition resolve_key :: "ustr \<Rightarrow> property_key result" where
  "resolve_key name =
     (if name = [] \<or> \<not> (\<forall>c \<in> set name. property_letter c)
      then Inl (bad_request ''invalid_property_key'')
      else let underscored = replace_char 45 95 name in
        if underscored \<in> set KNOWN_PROPERTY_KEYS
        then Inr \<lparr>key_file = replace_char 95 45 underscored, key_wire = underscored, key_known = True\<rparr>
        else Inr \<lparr>key_file = name, key_wire = name, key_known = False\<rparr>)"

definition from_file :: "ustr \<Rightarrow> ustr \<times> bool" where
  "from_file file_key =
     (let underscored = replace_char 45 95 file_key in
      if underscored \<in> set KNOWN_PROPERTY_KEYS then (underscored, True) else (file_key, False))"

definition check_value :: "property_key \<Rightarrow> ustr \<Rightarrow> unit result" where
  "check_value k v =
     (let refused = Inl (bad_request ''invalid_property_value'') in
      if \<exists>c \<in> set v. c = 10 \<or> c = 13 \<or> c = 0 then refused
      else if key_wire k \<in> set INTEGER \<and> parse_i64 v = None then refused
      else if key_wire k \<in> set BOOLEAN \<and> v \<noteq> lit ''true'' \<and> v \<noteq> lit ''false'' then refused
      else if key_wire k = lit ''difficulty'' \<and> v \<notin> set DIFFICULTY then refused
      else if key_wire k = lit ''gamemode'' \<and> v \<notin> set GAMEMODE then refused
      else Inr ())"

subsection \<open>Patches\<close>

text \<open>The entries of a patch are those of its two maps, in the order of their keys.\<close>

type_synonym wanted = "(property_key \<times> ustr option) list"

fun plan_patch :: "(ustr \<times> ustr option) list \<Rightarrow> wanted result" where
  "plan_patch [] = Inr []"
| "plan_patch ((name, value) # entries) =
     and_then (resolve_key name) (\<lambda>k.
       if is_panel_owned k then Inl (conflict ''property_is_panel_owned'')
       else and_then (case value of None \<Rightarrow> Inr () | Some v \<Rightarrow> check_value k v) (\<lambda>_.
         and_then (plan_patch entries) (\<lambda>rest. Inr ((k, value) # rest))))"

definition apply_one :: "ustr \<Rightarrow> ustr option \<Rightarrow> properties \<Rightarrow> properties" where
  "apply_one k value p = (case value of Some v \<Rightarrow> props_set k v p | None \<Rightarrow> fst (props_remove k p))"

definition apply_wanted :: "wanted \<Rightarrow> properties \<Rightarrow> properties" where
  "apply_wanted ws p = fold (\<lambda>(k, value). apply_one (key_file k) value) ws p"

definition set_ports :: "nat \<Rightarrow> properties \<Rightarrow> properties" where
  "set_ports port p =
     props_set (lit ''query.port'') (digits_of port) (props_set (lit ''server-port'') (digits_of port) p)"

definition port_overrides :: "nat \<Rightarrow> wanted" where
  "port_overrides port =
     map (\<lambda>file. (\<lparr>key_file = file, key_wire = file, key_known = False\<rparr>, Some (digits_of port))) PANEL_OWNED"

definition view_properties :: "properties \<Rightarrow> (ustr \<rightharpoonup> ustr) \<times> (ustr \<rightharpoonup> ustr)" where
  "view_properties p = fold (\<lambda>(file_key, v) (known, custom).
     let (name, is_known) = from_file file_key in
     if is_known then (known(name \<mapsto> v), custom) else (known, custom(name \<mapsto> v)))
     (props_entries p) (Map.empty, Map.empty)"

subsection \<open>Changes that wait\<close>

record override_row =
  ov_server :: id
  ov_key :: ustr
  ov_value :: "ustr option"
  ov_queued_at :: moment

text \<open>One \<open>INSERT \<dots> ON CONFLICT (server_id, key) DO UPDATE\<close>.\<close>

definition queue_one :: "moment \<Rightarrow> id \<Rightarrow> property_key \<times> ustr option \<Rightarrow> override_row list \<Rightarrow> override_row list" where
  "queue_one now server w t =
     (let mine = (\<lambda>r. ov_server r = server \<and> ov_key r = key_file (fst w)) in
      if \<exists>r \<in> set t. mine r
      then update_where mine (\<lambda>r. r\<lparr>ov_value := snd w, ov_queued_at := now\<rparr>) t
      else t @ [\<lparr>ov_server = server, ov_key = key_file (fst w), ov_value = snd w, ov_queued_at = now\<rparr>])"

definition queue_wanted :: "moment \<Rightarrow> id \<Rightarrow> wanted \<Rightarrow> override_row list \<Rightarrow> override_row list" where
  "queue_wanted now server ws t = fold (queue_one now server) ws t"

definition pending_overrides :: "override_row list \<Rightarrow> id \<Rightarrow> (ustr \<times> ustr option) list" where
  "pending_overrides t server =
     map (\<lambda>r. (ov_key r, ov_value r)) (order_by ov_key (filter (\<lambda>r. ov_server r = server) t))"

definition has_pending :: "override_row list \<Rightarrow> id \<Rightarrow> bool" where
  "has_pending t server = (0 < count_where (\<lambda>r. ov_server r = server) t)"

definition read_file :: "ustr option \<Rightarrow> properties" where
  "read_file file = (case file of None \<Rightarrow> [] | Some s \<Rightarrow> props_parse s)"

definition replay_overrides ::
  "id \<Rightarrow> override_row list \<times> ustr option \<Rightarrow> (override_row list \<times> ustr option) \<times> nat" where
  "replay_overrides server d =
     (let (t, file) = d; queued = pending_overrides t server in
      if queued = [] then (d, 0)
      else ((delete_where (\<lambda>r. ov_server r = server) t,
             Some (props_render (fold (\<lambda>(k, v). apply_one k v) queued (read_file file)))),
            length queued))"


subsection \<open>Waiting changes as a map\<close>

definition overrides_ok :: "override_row list \<Rightarrow> bool" where
  "overrides_ok t = distinct (map (\<lambda>r. (ov_server r, ov_key r)) t)"

definition waiting :: "override_row list \<Rightarrow> id \<Rightarrow> ustr \<rightharpoonup> ustr option" where
  "waiting t server = (\<lambda>k. map_option ov_value (fetch_optional (\<lambda>r. ov_server r = server \<and> ov_key r = k) t))"

definition overlay :: "('k \<rightharpoonup> 'v option) \<Rightarrow> ('k \<rightharpoonup> 'v) \<Rightarrow> 'k \<rightharpoonup> 'v" where
  "overlay w m = (\<lambda>k. case w k of Some v \<Rightarrow> v | None \<Rightarrow> m k)"

definition edit_of :: "ustr \<times> ustr option \<Rightarrow> edit" where
  "edit_of e = (case e of (k, Some v) \<Rightarrow> SetTo k v | (k, None) \<Rightarrow> Remove k)"

definition file_map :: "ustr option \<Rightarrow> ustr \<rightharpoonup> ustr" where
  "file_map file = props_get (read_file file)"

definition put_wanted :: "property_key \<times> 'v \<Rightarrow> (ustr \<Rightarrow> 'v) \<Rightarrow> ustr \<Rightarrow> 'v" where
  "put_wanted w m = m(key_file (fst w) := snd w)"

definition put_waiting :: "property_key \<times> 'v \<Rightarrow> (ustr \<rightharpoonup> 'v) \<Rightarrow> ustr \<rightharpoonup> 'v" where
  "put_waiting w m = m(key_file (fst w) \<mapsto> snd w)"

definition tame_file :: "ustr option \<Rightarrow> bool" where
  "tame_file file = (case file of None \<Rightarrow> True | Some s \<Rightarrow> tame s)"

lemma edit_map_of: "edit_map (edit_of (k, v)) m = m(k := v)"
  by (cases v) (simp_all add: edit_of_def edit_map_def)

lemma apply_one_edit: "(\<lambda>(k, v). apply_one k v) = edit_file \<circ> edit_of"
  by (auto simp: fun_eq_iff apply_one_def edit_file_def edit_of_def split: option.splits)

lemma fold_apply: "fold (\<lambda>(k, v). apply_one k v) es p = fold edit_file (map edit_of es) p"
  by (simp add: apply_one_edit fold_map)

lemma apply_wanted_edits:
  "apply_wanted ws p = fold edit_file (map (\<lambda>(k, v). edit_of (key_file k, v)) ws) p"
proof (induction ws arbitrary: p)
  case (Cons w ws)
  have "apply_one (key_file (fst w)) (snd w) p = edit_file (edit_of (key_file (fst w), snd w)) p"
    using fun_cong [OF apply_one_edit, of "(key_file (fst w), snd w)"] by (simp add: fun_eq_iff)
  with Cons show ?case by (simp add: apply_wanted_def split_beta)
qed (simp add: apply_wanted_def)

lemma edits_overlay:
  "distinct (map fst es) \<Longrightarrow> fold edit_map (map edit_of es) m = overlay (map_of es) m"
proof (induction es arbitrary: m)
  case (Cons e es)
  obtain k v where e: "e = (k, v)" by (cases e)
  then have "map_of es k = None" using Cons.prems by (auto simp: map_of_eq_None_iff)
  then have "overlay (map_of es) (m(k := v)) = overlay (map_of ((k, v) # es)) m"
    by (auto simp: overlay_def fun_eq_iff split: option.split)
  with Cons e show ?case by (simp add: edit_map_of fun_upd_def)
qed (simp add: overlay_def)

lemma pending_keys: "overrides_ok t \<Longrightarrow> distinct (map fst (pending_overrides t server))"
proof -
  assume "overrides_ok t"
  then have "distinct (map (\<lambda>r. (ov_server r, ov_key r)) (filter (\<lambda>r. ov_server r = server) t))"
    by (simp add: overrides_ok_def distinct_map_filter)
  then have "distinct (map ov_key (filter (\<lambda>r. ov_server r = server) t))"
    by (auto simp: distinct_map inj_on_def)
  then have "distinct (map ov_key (order_by ov_key (filter (\<lambda>r. ov_server r = server) t)))"
    by (auto simp: order_by_def distinct_map)
  then show ?thesis by (simp add: pending_overrides_def comp_def)
qed

lemma waiting_Some:
  "overrides_ok t \<Longrightarrow> waiting t server k = Some v \<longleftrightarrow>
    (\<exists>r \<in> set t. ov_server r = server \<and> ov_key r = k \<and> ov_value r = v)"
proof
  assume ok: "overrides_ok t" and "\<exists>r \<in> set t. ov_server r = server \<and> ov_key r = k \<and> ov_value r = v"
  then obtain r where r: "r \<in> set t" "ov_server r = server" "ov_key r = k" "ov_value r = v" by blast
  then have "fetch_optional (\<lambda>x. (ov_server x, ov_key x) = (server, k)) t = Some r"
    using fetch_Some_iff [OF ok [unfolded overrides_ok_def] r(1)] by simp
  with r show "waiting t server k = Some v" by (simp add: waiting_def)
qed (auto simp: waiting_def dest!: fetch_SomeD)

lemma map_of_pending: "overrides_ok t \<Longrightarrow> map_of (pending_overrides t server) = waiting t server"
proof
  fix k
  assume ok: "overrides_ok t"
  have "map_of (pending_overrides t server) k = Some v \<longleftrightarrow> waiting t server k = Some v" for v
    using pending_keys [OF ok, of server]
    by (auto simp: waiting_Some [OF ok] pending_overrides_def sql map_of_eq_Some_iff)
  then show "map_of (pending_overrides t server) k = waiting t server k" by (metis not_Some_eq)
qed

lemma pending_empty: "overrides_ok t \<Longrightarrow> pending_overrides t server = [] \<longleftrightarrow> waiting t server = Map.empty"
  using map_of_pending [of t server] by (metis map_of.simps(1) map_of_eq_empty_iff)

lemma replayed_map:
  assumes ok: "overrides_ok t" and f: "tame_file file"
  shows "file_map (snd (fst (replay_overrides server (t, file)))) = overlay (waiting t server) (file_map file)"
proof (cases "pending_overrides t server = []")
  case True
  with pending_empty [OF ok] show ?thesis by (simp add: replay_overrides_def overlay_def)
next
  case False
  let ?q = "pending_overrides t server"
  let ?p = "fold edit_file (map edit_of ?q) (read_file file)"
  have "props_get (props_parse (props_render ?p)) = fold edit_map (map edit_of ?q) (file_map file)"
  proof (cases "file = None")
    case True
    then show ?thesis
      using edits_ok [of "[]" "map edit_of ?q"]
      by (simp add: read_file_def file_map_def parse_render get_settled edits_get fun_eq_iff)
  next
    case False
    then obtain s where "file = Some s" by blast
    with f show ?thesis by (simp add: read_file_def file_map_def tame_file_def edits_survive)
  qed
  then show ?thesis
    using False edits_overlay [OF pending_keys [OF ok]] map_of_pending [OF ok]
    by (simp add: replay_overrides_def file_map_def read_file_def [of "Some _"] fold_apply Let_def)
qed

subsection \<open>Queueing\<close>

lemma queue_one_ok: "overrides_ok t \<Longrightarrow> overrides_ok (queue_one now server w t)"
  by (auto simp: overrides_ok_def queue_one_def Let_def map_update)

lemma waiting_queue_one:
  assumes ok: "overrides_ok t"
  shows "waiting (queue_one now server w t) s =
    (if s = server then put_waiting w (waiting t s) else waiting t s)"
proof -
  let ?mine = "\<lambda>r. ov_server r = server \<and> ov_key r = key_file (fst w)"
  have "waiting (queue_one now server w t) s k =
      (if s = server \<and> k = key_file (fst w) then Some (snd w) else waiting t s k)" for k
  proof (cases "\<exists>r \<in> set t. ?mine r")
    case True
    then have "fetch_optional ?mine t \<noteq> None" by (simp add: fetch_None)
    then obtain r where r: "fetch_optional ?mine t = Some r" by blast
    let ?upd = "\<lambda>r. if ?mine r then r\<lparr>ov_value := snd w, ov_queued_at := now\<rparr> else r"
    let ?found = "fetch_optional (\<lambda>r. ov_server r = s \<and> ov_key r = k) t"
    have u: "waiting (queue_one now server w t) s k = map_option ov_value (map_option ?upd ?found)"
      using True by (simp add: waiting_def queue_one_def fetch_update_kept)
    show ?thesis
    proof (cases "s = server \<and> k = key_file (fst w)")
      case True
      with r fetch_SomeD [OF r] show ?thesis unfolding u by simp
    next
      case False
      then have "map_option ?upd ?found = ?found"
        by (cases ?found) (auto dest: fetch_SomeD)
      with False show ?thesis unfolding u by (auto simp: waiting_def)
    qed
  next
    case False
    then have "fetch_optional ?mine t = None" by (simp add: fetch_None)
    moreover have "queue_one now server w t = t @ [\<lparr>ov_server = server, ov_key = key_file (fst w),
        ov_value = snd w, ov_queued_at = now\<rparr>]"
      using False by (auto simp: queue_one_def Let_def)
    ultimately show ?thesis
      by (auto simp: waiting_def fetch_append fetch_optional_def [of _ "[_]"] split: option.splits)
  qed
  then show ?thesis by (auto simp: put_waiting_def fun_eq_iff)
qed

lemma queued_waiting:
  "overrides_ok t \<Longrightarrow> overrides_ok (queue_wanted now server ws t) \<and>
    waiting (queue_wanted now server ws t) server =
      fold put_waiting ws (waiting t server) \<and>
    (s \<noteq> server \<longrightarrow> waiting (queue_wanted now server ws t) s = waiting t s)"
proof (induction ws arbitrary: t)
  case (Cons w ws)
  from Cons.IH [OF queue_one_ok [OF Cons.prems]] show ?case
    by (simp add: queue_wanted_def waiting_queue_one [OF Cons.prems])
qed (simp add: queue_wanted_def)

lemma overlay_fold: "overlay (fold put_waiting ws m) g =
    fold put_wanted ws (overlay m g)"
proof (induction ws arbitrary: m)
  case (Cons w ws)
  have "overlay (put_waiting w m) g = put_wanted w (overlay m g)"
    by (auto simp: overlay_def fun_eq_iff put_waiting_def put_wanted_def)
  with Cons show ?case by simp
qed simp

lemma get_apply_one: "props_get (apply_one k v p) = (props_get p)(k := v)"
  by (cases v) (simp_all add: apply_one_def get_set get_remove)

lemma applied_map: "props_get (apply_wanted ws p) = fold put_wanted ws (props_get p)"
proof (induction ws arbitrary: p)
  case (Cons w ws)
  from Cons.IH [of "apply_one (key_file (fst w)) (snd w) p"] show ?case
    by (simp add: apply_wanted_def split_beta get_apply_one put_wanted_def)
qed (simp add: apply_wanted_def)

subsection \<open>What the panel owns\<close>

lemma planned_keys: "plan_patch es = Inr ws \<Longrightarrow> w \<in> set ws \<Longrightarrow> \<not> is_panel_owned (fst w)"
proof (induction es arbitrary: ws)
  case (Cons e es)
  obtain name v where "e = (name, v)" by (cases e)
  with Cons show ?case by (auto simp: and_then_Inr split: if_splits)
qed simp

lemma fold_put_other: "\<forall>w \<in> set ws. key_file (fst w) \<noteq> k \<Longrightarrow> fold put_wanted ws m k = m k"
  by (induction ws arbitrary: m) (auto simp: put_wanted_def)

lemma planned_entries:
  "plan_patch es = Inr ws \<Longrightarrow> map (\<lambda>w. Inr (fst w)) ws = map (\<lambda>e. resolve_key (fst e)) es \<and> map snd ws = map snd es"
proof (induction es arbitrary: ws)
  case (Cons e es)
  obtain name v where "e = (name, v)" by (cases e)
  with Cons show ?case by (auto simp: and_then_Inr split: if_splits)
qed simp

lemma planned_values: "plan_patch es = Inr ws \<Longrightarrow> (k, Some v) \<in> set ws \<Longrightarrow> check_value k v = Inr ()"
proof (induction es arbitrary: ws)
  case (Cons e es)
  obtain name v where "e = (name, v)" by (cases e)
  with Cons show ?case by (auto simp: and_then_Inr split: if_splits option.splits)
qed simp


lemma replayed_waiting:
  "overrides_ok t \<Longrightarrow> waiting (fst (fst (replay_overrides server (t, file)))) s =
    (if s = server then Map.empty else waiting t s)"
proof -
  assume ok: "overrides_ok t"
  have gone: "waiting (delete_where (\<lambda>r. ov_server r = server) t) s = (if s = server then Map.empty else waiting t s)"
  proof -
    have "find (\<lambda>r. ov_server r = s \<and> ov_key r = k) (delete_where (\<lambda>r. ov_server r = server) t) =
        (if s = server then None else find (\<lambda>r. ov_server r = s \<and> ov_key r = k) t)" for k
      by (induction t) (auto simp: delete_where_def)
    then show ?thesis by (auto simp: waiting_def fetch_optional_def fun_eq_iff)
  qed
  show ?thesis
  proof (cases "pending_overrides t server = []")
    case True
    with pending_empty [OF ok, of server] show ?thesis by (auto simp: replay_overrides_def)
  qed (simp add: replay_overrides_def Let_def gone)
qed

end
