(* ===== verification/Startup.thy ===== *)
theory Startup
  imports Proto Model
begin

text \<open>
  How a server is started, as its owner sees and edits it (\<open>settings/startup.rs\<close>), and the
  choice of a Java for it (\<open>settings/runtimes.rs\<close>). The command line is shown as one line of
  text and read back from it; the lemmas show that what was shown is read back unchanged and
  that no heap flag gets through.
\<close>

subsection \<open>The choice of a Java\<close>

datatype jre_vendor = Temurin | Corretto | Graal

datatype runtime_source = SystemRuntime | ManagedRuntime

record java_runtime =
  jr_major :: nat
  jr_vendor :: jre_vendor
  jr_version :: ustr
  jr_path :: "ustr option"
  jr_source :: runtime_source
  jr_installed :: bool

definition LONG_TERM :: "nat list" where
  "LONG_TERM = [8, 11, 17, 21, 25]"

text \<open>\<open>split([\<dots>])\<close> on any of the letters; the first piece is always there.\<close>

fun split_any :: "nat set \<Rightarrow> ustr \<Rightarrow> ustr list" where
  "split_any cs [] = [[]]"
| "split_any cs (x # xs) =
     (if x \<in> cs then [] # split_any cs xs
      else case split_any cs xs of [] \<Rightarrow> [[x]] | p # ps \<Rightarrow> (x # p) # ps)"

definition default_major :: "ustr \<Rightarrow> nat option" where
  "default_major game_version =
     (let parts = split_on 46 game_version in
      case parse_u32 (hd parts) of
        None \<Rightarrow> None
      | Some major \<Rightarrow>
          if 1 < major then Some (if 26 \<le> major then 25 else 21)
          else (case tl parts of
                  [] \<Rightarrow> None
                | second # _ \<Rightarrow>
                    (case parse_u32 (hd (split_any {45, 32} second)) of
                       None \<Rightarrow> None
                     | Some minor \<Rightarrow>
                         Some (if 20 \<le> minor then 21 else if 17 \<le> minor then 17 else 8))))"

definition pick_runtime ::
  "java_runtime list \<Rightarrow> nat option \<Rightarrow> jre_vendor option \<Rightarrow> ustr option \<Rightarrow> java_runtime option" where
  "pick_runtime runtimes major vendor game_version =
     (let wanted = (case major of Some m \<Rightarrow> Some m
                    | None \<Rightarrow> (case game_version of None \<Rightarrow> None | Some g \<Rightarrow> default_major g));
          of_vendor = (\<lambda>r. vendor = None \<or> vendor = Some (jr_vendor r));
          found = find (\<lambda>r. (wanted = None \<or> wanted = Some (jr_major r)) \<and> of_vendor r) runtimes
      in case found of
           Some r \<Rightarrow> Some r
         | None \<Rightarrow> (case find of_vendor runtimes of
                      Some r \<Rightarrow> Some r
                    | None \<Rightarrow> (case runtimes of [] \<Rightarrow> None | r # _ \<Rightarrow> Some r)))"

definition at_most :: "nat \<Rightarrow> nat" where
  "at_most wanted = (case find (\<lambda>m. wanted < m) LONG_TERM of Some m \<Rightarrow> m | None \<Rightarrow> 2 ^ 32 - 1)"

definition stands_in_for :: "nat \<Rightarrow> nat \<Rightarrow> bool" where
  "stands_in_for found wanted = (wanted \<le> found \<and> found \<le> at_most wanted)"

definition major_of :: "ustr \<Rightarrow> nat option" where
  "major_of version =
     (let parts = split_any {46, 95, 45, 43} version in
      case parse_u32 (hd parts) of
        None \<Rightarrow> None
      | Some first \<Rightarrow>
          if first = 1 then (case tl parts of [] \<Rightarrow> None | second # _ \<Rightarrow> parse_u32 second)
          else Some first)"

definition vendor_of :: "ustr option \<Rightarrow> jre_vendor" where
  "vendor_of implementor =
     (let lowered = to_ascii_lowercase (case implementor of None \<Rightarrow> [] | Some s \<Rightarrow> s) in
      if contains (lit ''amazon'') lowered \<or> contains (lit ''corretto'') lowered then Corretto
      else if contains (lit ''graal'') lowered then Graal
      else Temurin)"

subsection \<open>The command line\<close>

definition MIN_MEMORY :: nat where "MIN_MEMORY = 512"

definition PANEL_MEMORY_FLAGS :: "ustr list" where
  "PANEL_MEMORY_FLAGS = [lit ''-Xmx'', lit ''-Xms'', lit ''-XX:MaxRAM'', lit ''-XX:MaxHeapSize'']"

record jar_launch =
  jl_jar :: ustr
  jl_trailing :: "ustr list"

definition launch_of :: "loader_id option \<Rightarrow> jar_launch" where
  "launch_of loader =
     (if loader = Some Velocity then \<lparr>jl_jar = lit ''server.jar'', jl_trailing = []\<rparr>
      else if loader = Some Quilt then \<lparr>jl_jar = lit ''quilt-server-launch.jar'', jl_trailing = [lit ''nogui'']\<rparr>
      else \<lparr>jl_jar = lit ''server.jar'', jl_trailing = [lit ''nogui'']\<rparr>)"

definition startup_argv :: "ustr option \<Rightarrow> ustr list \<Rightarrow> jar_launch \<Rightarrow> ustr list" where
  "startup_argv java_path extra l =
     [case java_path of None \<Rightarrow> lit ''java'' | Some p \<Rightarrow> p] @ extra @ [lit ''-jar'', jl_jar l] @ jl_trailing l"

definition managed_flags :: "nat \<Rightarrow> ustr list" where
  "managed_flags memory = [lit ''-Xmx'' @ digits_of memory @ lit ''M'']"

definition is_panel_memory_flag :: "ustr \<Rightarrow> bool" where
  "is_panel_memory_flag token = (\<exists>f \<in> set PANEL_MEMORY_FLAGS. has_prefix f token)"

text \<open>\<open>tokenise\<close>: the letters that are left, the token at hand, whether it has begun, the quote
  it stands in. A quote that is never closed is an error.\<close>

fun tokens_from :: "ustr \<Rightarrow> bool \<Rightarrow> nat option \<Rightarrow> ustr \<Rightarrow> ustr list option" where
  "tokens_from current started quote [] =
     (if quote \<noteq> None then None else Some (if started then [current] else []))"
| "tokens_from current started quote (c # cs) =
     (if quote = None \<and> (c = 32 \<or> c = 9) then
        (if started then map_option (\<lambda>ts. current # ts) (tokens_from [] False None cs)
         else tokens_from current started None cs)
      else if quote = None \<and> (c = 39 \<or> c = 34) then tokens_from current True (Some c) cs
      else if quote = Some c then tokens_from current started None cs
      else if quote = Some 39 then tokens_from (current @ [c]) started quote cs
      else if c = 92 then
        (case cs of
           [] \<Rightarrow> tokens_from (current @ [92]) True quote []
         | d # ds \<Rightarrow> tokens_from (current @ [d]) True quote ds)
      else tokens_from (current @ [c]) True quote cs)"

definition invalid_command :: failure where
  "invalid_command = bad_request ''invalid_startup_command''"

definition tokenise :: "ustr \<Rightarrow> ustr list result" where
  "tokenise command =
     (case tokens_from [] False None command of None \<Rightarrow> Inl invalid_command | Some ts \<Rightarrow> Inr ts)"

definition needs_quotes :: "ustr \<Rightarrow> bool" where
  "needs_quotes token = (token = [] \<or> (\<exists>c \<in> set token. c \<in> {32, 9, 39, 34, 92}))"

definition render_token :: "ustr \<Rightarrow> ustr" where
  "render_token token =
     (if needs_quotes token
      then [34] @ concat (map (\<lambda>c. if c = 92 \<or> c = 34 then [92, c] else [c]) token) @ [34]
      else token)"

definition render_tokens :: "ustr list \<Rightarrow> ustr" where
  "render_tokens ts = join_with [32] (map render_token ts)"

text \<open>The loop over what is left between the program and the trailing arguments: what is kept and
  what is stripped.\<close>

fun sort_flags :: "ustr \<Rightarrow> ustr list \<Rightarrow> ustr list \<times> ustr list" where
  "sort_flags jar [] = ([], [])"
| "sort_flags jar [t] =
     (if t = lit ''-jar'' then ([], [])
      else if is_panel_memory_flag t \<or> \<not> has_prefix [45] t then ([], [t]) else ([t], []))"
| "sort_flags jar (t # u # ts) =
     (if t = lit ''-jar'' then (if u = jar then sort_flags jar ts else sort_flags jar (u # ts))
      else let (kept, stripped) = sort_flags jar (u # ts) in
        if is_panel_memory_flag t \<or> \<not> has_prefix [45] t then (kept, t # stripped)
        else (t # kept, stripped))"

definition drop_program :: "ustr list \<Rightarrow> ustr list" where
  "drop_program ts = (case ts of [] \<Rightarrow> [] | t # rest \<Rightarrow> if has_prefix [45] t then ts else rest)"

definition drop_trailing :: "jar_launch \<Rightarrow> ustr list \<Rightarrow> ustr list" where
  "drop_trailing l ts =
     (let n = length (jl_trailing l) in
      if n \<le> length ts \<and> drop (length ts - n) ts = jl_trailing l then take (length ts - n) ts else ts)"

definition one_line :: "ustr \<Rightarrow> bool" where
  "one_line s = (\<not> (\<exists>c \<in> set s. c = 10 \<or> c = 13 \<or> c = 0))"

definition read_command :: "ustr option \<Rightarrow> jar_launch \<Rightarrow> (ustr list \<times> ustr list) result" where
  "read_command command l =
     (case command of
        None \<Rightarrow> Inr ([], [])
      | Some c \<Rightarrow>
          if \<not> one_line c then Inl invalid_command
          else and_then (tokenise c) (\<lambda>tokens.
            if tokens = [] then Inl invalid_command
            else Inr (sort_flags (jl_jar l) (drop_trailing l (drop_program tokens)))))"

subsection \<open>What the owner sees and changes\<close>

record startup_row =
  st_loader :: "loader_id option"
  st_game_version :: "ustr option"
  st_memory :: nat
  st_java_major :: "nat option"
  st_jre_vendor :: "jre_vendor option"
  st_extra_flags :: "ustr list"

record startup_options =
  so_java_version :: "nat option"
  so_jre_vendor :: "jre_vendor option"
  so_java_path :: "ustr option"
  so_memory :: nat
  so_memory_max :: nat
  so_extra_flags :: "ustr list"
  so_startup_command :: ustr
  so_original_invocation :: ustr
  so_managed_flags :: "ustr list"
  so_stripped_flags :: "ustr list"
  so_restart_required :: bool

definition startup_view :: "startup_row \<Rightarrow> java_runtime list \<Rightarrow> nat \<Rightarrow> bool \<Rightarrow> startup_options" where
  "startup_view server runtimes memory_max restart =
     (let l = launch_of (st_loader server);
          chosen = pick_runtime runtimes (st_java_major server) (st_jre_vendor server) (st_game_version server);
          java = (case chosen of None \<Rightarrow> None | Some r \<Rightarrow> jr_path r)
      in \<lparr>so_java_version = st_java_major server, so_jre_vendor = st_jre_vendor server,
          so_java_path = java, so_memory = st_memory server, so_memory_max = memory_max,
          so_extra_flags = st_extra_flags server,
          so_startup_command = render_tokens (startup_argv java (st_extra_flags server) l),
          so_original_invocation = render_tokens (startup_argv java [] l),
          so_managed_flags = managed_flags (st_memory server), so_stripped_flags = [],
          so_restart_required = restart\<rparr>)"

text \<open>A field of the patch that was left out is \<open>None\<close>, one that was set to nothing \<open>Some None\<close>.\<close>

record startup_patch =
  sp_java_version :: "nat option option"
  sp_jre_vendor :: "jre_vendor option option"
  sp_memory :: "nat option"
  sp_startup_command :: "ustr option option"

record startup_change =
  sc_java_major :: "nat option"
  sc_jre_vendor :: "jre_vendor option"
  sc_memory :: nat
  sc_extra_flags :: "ustr list"
  sc_stripped_flags :: "ustr list"

definition plan_startup :: "startup_patch \<Rightarrow> startup_row \<Rightarrow> nat \<Rightarrow> startup_change result" where
  "plan_startup patch server memory =
     (let change = \<lparr>sc_java_major = (case sp_java_version patch of Some m \<Rightarrow> m | None \<Rightarrow> st_java_major server),
                    sc_jre_vendor = (case sp_jre_vendor patch of Some v \<Rightarrow> v | None \<Rightarrow> st_jre_vendor server),
                    sc_memory = memory, sc_extra_flags = st_extra_flags server, sc_stripped_flags = []\<rparr>
      in case sp_startup_command patch of
           None \<Rightarrow> Inr change
         | Some command \<Rightarrow>
             and_then (read_command command (launch_of (st_loader server))) (\<lambda>(flags, stripped).
               Inr (change\<lparr>sc_extra_flags := flags, sc_stripped_flags := stripped\<rparr>)))"


subsection \<open>Tokens are read back\<close>

lemma tokens_plain:
  "\<forall>c \<in> set s. c \<notin> {32, 9, 39, 34, 92} \<Longrightarrow>
    tokens_from current started None (s @ rest) = tokens_from (current @ s) (started \<or> s \<noteq> []) None rest"
  by (induction s arbitrary: current started) auto

lemma tokens_quoted:
  "tokens_from current True (Some 34)
      (concat (map (\<lambda>c. if c = 92 \<or> c = 34 then [92, c] else [c]) s) @ rest) =
    tokens_from (current @ s) True (Some 34) rest"
  by (induction s arbitrary: current) auto

lemma tokens_token: "tokens_from [] False None (render_token t @ rest) = tokens_from t True None rest"
proof (cases "needs_quotes t")
  case True
  then show ?thesis using tokens_quoted [of "[]" t "34 # rest"] by (simp add: render_token_def)
next
  case False
  then show ?thesis using tokens_plain [of t "[]" False rest] by (auto simp: render_token_def needs_quotes_def)
qed

lemma tokens_rendered: "tokens_from [] False None (render_tokens ts) = Some ts"
proof (induction ts rule: induct_list012)
  case (2 t)
  then show ?case using tokens_token [of t "[]"] by (simp add: render_tokens_def)
next
  case (3 t u ts)
  then show ?case
    using tokens_token [of t "[32] @ render_tokens (u # ts)"] by (simp add: render_tokens_def)
qed (simp add: render_tokens_def)

lemma tokens_letters:
  "tokens_from current started quote s = Some ts \<Longrightarrow> t \<in> set ts \<Longrightarrow> set t \<subseteq> set current \<union> set s"
proof (induction current started quote s arbitrary: ts t rule: tokens_from.induct)
  case (2 current started quote c cs)
  consider (gap) "quote = None" "c = 32 \<or> c = 9" | (quoted) "quote = None" "c = 39 \<or> c = 34"
    | (unquoted) "quote = Some c" | (single) "quote = Some 39" "c \<noteq> 39"
    | (escape) "c = 92" "quote \<noteq> Some 39" "quote \<noteq> Some 92"
    | (other) "c \<noteq> 92" "quote \<noteq> Some 39" "quote \<noteq> Some c" "quote = None \<longrightarrow> c \<notin> {32, 9, 39, 34}"
    by fastforce
  then show ?case
  proof cases
    case escape
    show ?thesis
    proof (cases cs)
      case Nil
      with escape 2 show ?thesis by fastforce
    next
      case (Cons d ds)
      with escape 2 show ?thesis by fastforce
    qed
  qed (use 2 in \<open>(fastforce split: if_splits)+\<close>)
qed (auto split: if_splits)

subsection \<open>What was shown is accepted\<close>

definition flag_ok :: "ustr \<Rightarrow> bool" where
  "flag_ok f = (has_prefix [45] f \<and> f \<noteq> lit ''-jar'' \<and> \<not> is_panel_memory_flag f \<and>
     one_line f)"

definition program_ok :: "ustr option \<Rightarrow> bool" where
  "program_ok java = (case java of None \<Rightarrow> True
     | Some p \<Rightarrow> \<not> has_prefix [45] p \<and> one_line p)"

lemma sort_flags_kept:
  "sort_flags jar ts = (kept, stripped) \<Longrightarrow> f \<in> set kept \<Longrightarrow>
    f \<in> set ts \<and> has_prefix [45] f \<and> f \<noteq> lit ''-jar'' \<and> \<not> is_panel_memory_flag f"
  by (induction jar ts arbitrary: kept stripped rule: sort_flags.induct)
    (auto split: if_splits prod.splits)

lemma sort_flags_ok: "\<forall>f \<in> set fs. flag_ok f \<Longrightarrow> sort_flags jar (fs @ [lit ''-jar'', jar]) = (fs, [])"
proof (induction fs)
  case (Cons f fs)
  moreover obtain u us where "fs @ [lit ''-jar'', jar] = u # us"
    by (cases "fs @ [lit ''-jar'', jar]") auto
  ultimately show ?case by (simp add: flag_ok_def)
qed simp

lemma launch_lines: "one_line (jl_jar (launch_of loader))" "t \<in> set (jl_trailing (launch_of loader)) \<Longrightarrow> one_line t"
  by (auto simp: launch_of_def lit_def one_line_def split: if_splits)

lemma jar_flag_line: "one_line (lit ''-jar'')"
  by (simp add: one_line_def lit_def)

lemma set_render_token: "set (render_token t) \<subseteq> set t \<union> {34, 92}"
  by (auto simp: render_token_def)

lemma set_render: "c \<in> set (render_tokens ts) \<Longrightarrow> c \<in> {32, 34, 92} \<or> (\<exists>t \<in> set ts. c \<in> set t)"
proof (induction ts rule: induct_list012)
  case (2 t)
  then show ?case using set_render_token [of t] by (auto simp: render_tokens_def)
next
  case (3 t u ts)
  then show ?case using set_render_token [of t] by (auto simp: render_tokens_def)
qed (simp add: render_tokens_def)

lemma shown_accepted:
  assumes fs: "\<forall>f \<in> set fs. flag_ok f" and java: "program_ok java"
  shows "read_command (Some (render_tokens (startup_argv java fs (launch_of loader)))) (launch_of loader) =
    Inr (fs, [])"
proof -
  let ?l = "launch_of loader"
  let ?java = "case java of None \<Rightarrow> lit ''java'' | Some p \<Rightarrow> p"
  let ?ts = "startup_argv java fs ?l"
  have j: "\<not> has_prefix [45] ?java" "one_line ?java"
    using java by (auto simp: program_ok_def lit_def one_line_def split: option.splits)
  have "\<forall>t \<in> set ?ts. one_line t"
    using j(2) fs launch_lines [where loader = loader] by (auto simp: startup_argv_def flag_ok_def jar_flag_line)
  then have "one_line (render_tokens ?ts)"
    using set_render [of _ ?ts] by (fastforce simp: one_line_def)
  moreover have "tokenise (render_tokens ?ts) = Inr ?ts" by (simp add: tokenise_def tokens_rendered)
  moreover have "drop_trailing ?l (drop_program ?ts) = fs @ [lit ''-jar'', jl_jar ?l]"
    using j(1) by (simp add: startup_argv_def drop_program_def drop_trailing_def Let_def)
  moreover have "?ts \<noteq> []" by (simp add: startup_argv_def)
  ultimately show ?thesis by (simp add: read_command_def sort_flags_ok [OF fs])
qed

lemma set_drop_trailing: "set (drop_trailing l (drop_program ts)) \<subseteq> set ts"
proof -
  have "set (drop_program ts) \<subseteq> set ts" by (auto simp: drop_program_def split: list.splits)
  then show ?thesis by (auto simp: drop_trailing_def Let_def dest: in_set_takeD)
qed

lemma accepted_flags:
  assumes "read_command command l = Inr (kept, stripped)" "f \<in> set kept"
  shows "flag_ok f"
proof -
  obtain c where c: "command = Some c" using assms by (cases command) (auto simp: read_command_def)
  obtain ts where ts: "tokens_from [] False None c = Some ts"
    "sort_flags (jl_jar l) (drop_trailing l (drop_program ts)) = (kept, stripped)"
    "one_line c"
    using assms(1) unfolding c
    by (auto simp: read_command_def tokenise_def and_then_Inr split: if_splits option.splits)
  have f: "f \<in> set (drop_trailing l (drop_program ts))" "has_prefix [45] f" "f \<noteq> lit ''-jar''" "\<not> is_panel_memory_flag f"
    using sort_flags_kept [OF ts(2) assms(2)] by blast+
  then have "f \<in> set ts" using set_drop_trailing by blast
  then have "set f \<subseteq> set c" using tokens_letters [OF ts(1)] by auto
  with ts(3) f show ?thesis unfolding flag_ok_def one_line_def by blast
qed

subsection \<open>Which Java is picked\<close>

lemma picked_wanted:
  assumes "major = Some m" "r \<in> set runtimes" "jr_major r = m" "vendor = None \<or> vendor = Some (jr_vendor r)"
  shows "\<exists>q. pick_runtime runtimes major vendor g = Some q \<and> q \<in> set runtimes \<and> jr_major q = m \<and>
    (vendor = None \<or> vendor = Some (jr_vendor q))"
proof -
  let ?p = "\<lambda>r. (Some m = None \<or> Some m = Some (jr_major r)) \<and> (vendor = None \<or> vendor = Some (jr_vendor r))"
  have "find ?p runtimes \<noteq> None" using assms by (auto simp: find_None_iff)
  then obtain q where q: "find ?p runtimes = Some q" by blast
  moreover have "pick_runtime runtimes major vendor g = Some q"
    unfolding pick_runtime_def assms(1) Let_def option.case q ..
  moreover have "?p q \<and> q \<in> set runtimes"
    using fetch_SomeD [of ?p runtimes q] q unfolding fetch_optional_def by blast
  ultimately show ?thesis by blast
qed

lemma stands_in_long_term: "stands_in_for found 21 \<longleftrightarrow> 21 \<le> found \<and> found \<le> 25"
  by (auto simp: stands_in_for_def at_most_def LONG_TERM_def)

end
