(* ===== verification/Ports.thy ===== *)
theory Ports
  imports Running
begin

text \<open>
  The ports of the servers (\<open>settings/allocations.rs\<close>), and the two statements of
  \<open>servers/manager.rs\<close> that make and delete a server together with its ports. One table holds
  every port of the panel; the free port is looked for twice in the program, once asking the machine
  and once not, and both searches are related to each other here. \<open>api/settings.rs\<close> checks the memory of a change against the
  budget of the owner; the check is related to the one of \<open>servers/manager.rs\<close>.

  What another process of the machine holds is an argument, \<open>free\<close>.
\<close>

subsection \<open>Tables\<close>

record allocation =
  al_port :: nat
  al_server :: id
  al_name :: ustr
  al_primary :: bool
  al_created_at :: moment

record estate =
  es_servers :: "power_row list"
  es_users :: "user_row list"
  es_ports :: "allocation list"
  es_tunnels :: "(id \<times> nat) list"
  es_pool :: "nat \<times> nat" \<comment> \<open>\<open>PortRange\<close>: the first and the last port\<close>

definition PER_SERVER :: nat where "PER_SERVER = 8"
definition MIN_PORT :: nat where "MIN_PORT = 1024"
definition MAX_NAME :: nat where "MAX_NAME = 32"
definition NAME_LIMIT :: nat where "NAME_LIMIT = 64"

definition ports_of :: "allocation list \<Rightarrow> id \<Rightarrow> allocation list" where
  "ports_of t server = filter (\<lambda>a. al_server a = server) t"

definition list_allocations :: "allocation list \<Rightarrow> id \<Rightarrow> (nat \<times> ustr) list" where
  "list_allocations t server = map (\<lambda>a. (al_port a, al_name a))
     (order_by al_port (filter (\<lambda>a. \<not> al_primary a) (ports_of t server)))"

definition primary_port :: "allocation list \<Rightarrow> id \<Rightarrow> nat option" where
  "primary_port t server =
     map_option al_port (fetch_optional (\<lambda>a. al_server a = server \<and> al_primary a) t)"

definition unknown_port :: failure where
  "unknown_port = not_found ''allocation_not_found''"

definition check_port_name :: "ustr \<Rightarrow> ustr result" where
  "check_port_name name =
     (let trimmed = trim name in
      if trimmed = [] \<or> MAX_NAME < length trimmed then Inl (bad_request ''invalid_name'')
      else if \<exists>c \<in> set trimmed. is_control c then Inl (bad_request ''invalid_name'')
      else Inr trimmed)"

definition taken_ports :: "allocation list \<Rightarrow> nat \<times> nat \<Rightarrow> nat list" where
  "taken_ports t pool = map al_port (order_by al_port
     (filter (\<lambda>a. fst pool \<le> al_port a \<and> al_port a \<le> snd pool) t))"

definition next_free :: "(nat \<Rightarrow> bool) \<Rightarrow> allocation list \<Rightarrow> nat \<times> nat \<Rightarrow> nat result" where
  "next_free free t pool =
     (case find (\<lambda>p. p \<notin> set (taken_ports t pool) \<and> free p) [fst pool ..< Suc (snd pool)] of
        None \<Rightarrow> Inl (conflict ''port_pool_exhausted'') | Some p \<Rightarrow> Inr p)"

subsection \<open>The operations on a server's ports\<close>

definition chosen_port :: "(nat \<Rightarrow> bool) \<Rightarrow> nat \<times> nat \<Rightarrow> bool \<Rightarrow> int \<Rightarrow> nat result" where
  "chosen_port free pool admin asked =
     (if asked < int MIN_PORT \<or> 65535 < asked then Inl (bad_request ''invalid_port'')
      else let wanted = nat asked in
        if \<not> (fst pool \<le> wanted \<and> wanted \<le> snd pool) \<and> \<not> admin
        then Inl (failure_new 403 ''port_out_of_pool'')
        else if \<not> free wanted then Inl (conflict ''port_unavailable'')
        else Inr wanted)"

text \<open>The insertion violates the primary key when the port is taken.\<close>

definition allocation_create ::
  "moment \<Rightarrow> (nat \<Rightarrow> bool) \<Rightarrow> id \<Rightarrow> ustr \<Rightarrow> int option \<Rightarrow> bool \<Rightarrow> estate \<Rightarrow> estate \<times> nat result" where
  "allocation_create now free server name port admin e =
     (case check_port_name name of
        Inl f \<Rightarrow> (e, Inl f)
      | Inr name \<Rightarrow>
          if PER_SERVER \<le> length (ports_of (es_ports e) server) then (e, Inl (conflict ''allocation_limit''))
          else (case (case port of
                        Some asked \<Rightarrow> chosen_port free (es_pool e) admin asked
                      | None \<Rightarrow> next_free free (es_ports e) (es_pool e)) of
                  Inl f \<Rightarrow> (e, Inl f)
                | Inr p \<Rightarrow>
                    if p \<in> al_port ` set (es_ports e) then (e, Inl (conflict ''port_in_use''))
                    else if server \<notin> srv_id ` set (es_servers e) then (e, Inl internal)
                    else (e\<lparr>es_ports := es_ports e @ [\<lparr>al_port = p, al_server = server, al_name = name,
                             al_primary = False, al_created_at = now\<rparr>]\<rparr>, Inr p)))"

definition allocation_rename :: "id \<Rightarrow> nat \<Rightarrow> ustr \<Rightarrow> estate \<Rightarrow> estate \<times> unit result" where
  "allocation_rename server port name e =
     (case check_port_name name of
        Inl f \<Rightarrow> (e, Inl f)
      | Inr name \<Rightarrow>
          let mine = (\<lambda>a. al_server a = server \<and> al_port a = port) in
          if count_where mine (es_ports e) = 0 then (e, Inl unknown_port)
          else (e\<lparr>es_ports := update_where mine (\<lambda>a. a\<lparr>al_name := name\<rparr>) (es_ports e)\<rparr>, Inr ()))"

definition allocation_remove :: "id \<Rightarrow> nat \<Rightarrow> estate \<Rightarrow> estate \<times> unit result" where
  "allocation_remove server port e =
     (let mine = (\<lambda>a. al_server a = server \<and> al_port a = port) in
      case fetch_optional mine (es_ports e) of
        None \<Rightarrow> (e, Inl unknown_port)
      | Some a \<Rightarrow>
          if al_primary a then (e, Inl (conflict ''primary_allocation''))
          else (e\<lparr>es_ports := delete_where mine (es_ports e)\<rparr>, Inr ()))"

definition set_primary :: "id \<Rightarrow> nat \<Rightarrow> estate \<Rightarrow> estate \<times> unit result" where
  "set_primary server port e =
     (let mine = (\<lambda>a. al_server a = server \<and> al_port a = port) in
      case fetch_optional mine (es_ports e) of
        None \<Rightarrow> (e, Inl unknown_port)
      | Some a \<Rightarrow>
          if al_primary a then (e, Inl (conflict ''already_primary''))
          else if \<exists>t \<in> set (es_tunnels e). fst t = server then (e, Inl (conflict ''playit_tunnel_exists''))
          else (let t = update_where (\<lambda>a. al_server a = server \<and> al_primary a)
                          (\<lambda>a. a\<lparr>al_primary := False\<rparr>) (es_ports e);
                    t = update_where mine (\<lambda>a. a\<lparr>al_primary := True\<rparr>) t
                in (e\<lparr>es_ports := t\<rparr>, Inr ())))"

subsection \<open>Making and deleting a server\<close>

definition check_server_name :: "ustr \<Rightarrow> unit result" where
  "check_server_name name =
     (if trim name = [] \<or> NAME_LIMIT < length name then Inl invalid_request
      else if \<exists>c \<in> set name. is_control c then Inl invalid_request
      else Inr ())"

text \<open>\<open>next_free_port\<close> of the manager walks over the pool and the sorted taken ports together.\<close>

fun first_gap :: "nat list \<Rightarrow> nat list \<Rightarrow> nat result" where
  "first_gap [] used = Inl (conflict ''port_pool_exhausted'')"
| "first_gap (c # cs) used =
     (case used of
        [] \<Rightarrow> Inr c
      | p # ps \<Rightarrow> if p = c then first_gap cs ps else Inr c)"

definition next_free_port :: "allocation list \<Rightarrow> nat \<times> nat \<Rightarrow> nat result" where
  "next_free_port t pool = first_gap [fst pool ..< Suc (snd pool)] (taken_ports t pool)"

record server_wish =
  sw_name :: ustr
  sw_owner :: id
  sw_memory :: nat
  sw_port :: "nat option"

text \<open>A new row, with the columns the model keeps and their defaults.\<close>

definition new_server_row :: "id \<Rightarrow> server_wish \<Rightarrow> power_row" where
  "new_server_row server w =
     \<lparr>srv_id = server, srv_owner = sw_owner w, srv_status = ServerInstalling,
      srv_operations_revision = 0, srv_flows_intro = False, pr_memory = sw_memory w,
      pr_loader = None, pr_flags = [], pr_power = PowerStopped, pr_running_since = None,
      pr_oom = False, pr_token = None\<rparr>"

text \<open>\<open>create\<close> up to its commit: the answers of the disk guard and of the loader's source are
  arguments, \<open>server\<close> is the fresh identifier. The second part of the result says whether the
  memory was overcommitted, which only an administrator may do.\<close>

definition server_create ::
  "moment \<Rightarrow> id \<Rightarrow> bool \<Rightarrow> unit result \<Rightarrow> unit result \<Rightarrow> server_wish \<Rightarrow> estate \<Rightarrow> estate \<times> bool result" where
  "server_create now server admin disk build w e =
     (case and_then (check_server_name (sw_name w)) (\<lambda>_.
        if sw_memory w < MIN_MEMORY_MIB then Inl invalid_request
        else if is_some_and (\<lambda>p. p < 1024) (sw_port w) then Inl (bad_request ''invalid_port'')
        else and_then (users_load (es_users e) (sw_owner w)) (\<lambda>owner.
          if u_system_state owner \<noteq> Ready then Inl (conflict ''system_user_not_ready'')
          else and_then disk (\<lambda>_. and_then build (\<lambda>_.
            let b = budget_of (u_role owner) (u_limits owner);
                allocated = allocated_mib (es_servers e) (u_id owner)
            in if exceeded_by b allocated then Inl (conflict ''over_limit'')
               else if \<not> has_room_for b allocated (sw_memory w) \<and> \<not> admin
               then Inl (conflict ''budget_exceeded'')
               else and_then (case sw_port w of
                                Some p \<Rightarrow> Inr p | None \<Rightarrow> next_free_port (es_ports e) (es_pool e)) (\<lambda>port.
                 if port \<in> al_port ` set (es_ports e) then Inl (conflict ''port_in_use'')
                 else Inr (port, \<not> has_room_for b allocated (sw_memory w)))))))
      of Inl f \<Rightarrow> (e, Inl f)
       | Inr (port, overcommitted) \<Rightarrow>
           (e\<lparr>es_servers := es_servers e @ [new_server_row server w],
              es_ports := es_ports e @ [\<lparr>al_port = port, al_server = server, al_name = lit ''primary'',
                al_primary = True, al_created_at = now\<rparr>]\<rparr>, Inr overcommitted))"

text \<open>\<open>delete\<close>: \<open>guarded\<close> and \<open>live\<close> are the answers of \<open>guard_write\<close> and \<open>current\<close>.\<close>

definition server_delete :: "id \<Rightarrow> unit result \<Rightarrow> bool result \<Rightarrow> estate \<Rightarrow> estate \<times> unit result" where
  "server_delete server guarded live e =
     (case and_then guarded (\<lambda>_. live) of
        Inl f \<Rightarrow> (e, Inl f)
      | Inr running \<Rightarrow>
          if running then (e, Inl (conflict ''server_running''))
          else (e\<lparr>es_servers := update_where (\<lambda>r. srv_id r = server) (\<lambda>r. r\<lparr>srv_status := ServerDeleting\<rparr>) (es_servers e),
                  es_ports := delete_where (\<lambda>a. al_server a = server) (es_ports e)\<rparr>, Inr ()))"

text \<open>The end of \<open>remove\<close>: the row goes, and what refers to it goes with it.\<close>

definition server_gone :: "id \<Rightarrow> estate \<Rightarrow> estate" where
  "server_gone server e =
     e\<lparr>es_servers := delete_where (\<lambda>r. srv_id r = server) (es_servers e),
       es_ports := delete_where (\<lambda>a. al_server a = server) (es_ports e),
       es_tunnels := delete_where (\<lambda>t. fst t = server) (es_tunnels e)\<rparr>"

subsection \<open>The memory check of a change\<close>

text \<open>\<open>users::owned_servers\<close> counts the servers that are being deleted too; the sums saturate.\<close>

definition spoken_for :: "power_row list \<Rightarrow> power_row \<Rightarrow> nat" where
  "spoken_for rows row =
     fold (\<lambda>r s. saturating_add 32 s (pr_memory r)) (filter (\<lambda>r. srv_owner r = srv_owner row) rows) 0 - pr_memory row"

definition check_memory_budget ::
  "power_row list \<Rightarrow> user_row list \<Rightarrow> bool \<Rightarrow> power_row \<Rightarrow> nat \<Rightarrow> nat result" where
  "check_memory_budget rows users admin row wanted =
     (if wanted < MIN_MEMORY_MIB then Inl (bad_request ''memory_too_small'')
      else and_then (users_load users (srv_owner row)) (\<lambda>owner.
        case budget_memory (budget_of (u_role owner) (u_limits owner)) of
          None \<Rightarrow> Inr wanted
        | Some l \<Rightarrow>
            if admin then Inr wanted
            else (let others = spoken_for rows row in
                  if l < others then Inl (conflict ''over_limit'')
                  else if l < saturating_add 32 others wanted then Inl (conflict ''budget_exceeded'')
                  else Inr wanted)))"

text \<open>The memory of a patch in \<open>write_startup\<close>: \<open>guarded\<close> is what is asked before (the permission, a running
  operation), \<open>planned\<close> what the rest of the patch answers between the check and the statement.\<close>

definition startup_memory :: "bool \<Rightarrow> unit result \<Rightarrow> unit result \<Rightarrow> id \<Rightarrow> nat option \<Rightarrow> estate \<Rightarrow> estate \<times> nat result" where
  "startup_memory admin guarded planned server wanted e =
     (case and_then guarded (\<lambda>_.
        case fetch_optional (\<lambda>r. srv_id r = server) (es_servers e) of
          None \<Rightarrow> Inl (not_found ''server_not_found'')
        | Some row \<Rightarrow>
            and_then (case wanted of
                Some w \<Rightarrow> check_memory_budget (es_servers e) (es_users e) admin row w
              | None \<Rightarrow> Inr (pr_memory row)) (\<lambda>m. and_then planned (\<lambda>_. Inr m))) of
        Inl f \<Rightarrow> (e, Inl f)
      | Inr m \<Rightarrow> (e\<lparr>es_servers := update_where (\<lambda>r. srv_id r = server) (\<lambda>r. r\<lparr>pr_memory := m\<rparr>) (es_servers e)\<rparr>, Inr m))"

subsection \<open>The settings of the panel (\<open>auth/settings.rs\<close>)\<close>

record panel_settings =
  ps_public_address :: "ustr option"
  ps_port_pool :: "nat \<times> nat"
  ps_default_limits :: user_limits
  ps_max_upload_bytes :: nat
  ps_max_backups :: nat
  ps_external_services :: bool
  ps_max_operations :: nat
  ps_stop_grace :: nat
  ps_registration :: bool
  ps_requires_approval :: bool
  ps_java_auto_install :: bool

definition MAX_BACKUPS :: nat where "MAX_BACKUPS = 50"

definition check_settings :: "allocation list \<Rightarrow> panel_settings \<Rightarrow> unit result" where
  "check_settings ports s =
     (let (first, final) = ps_port_pool s in
      if final < first then Inl invalid_request
      else if first < MIN_PORT then Inl invalid_request
      else if \<exists>a \<in> set ports. al_port a < first \<or> final < al_port a then Inl invalid_request
      else and_then (check_limits (ps_default_limits s)) (\<lambda>_.
        if ps_max_upload_bytes s = 0 then Inl invalid_request
        else if \<not> (1 \<le> ps_max_backups s \<and> ps_max_backups s \<le> MAX_BACKUPS) then Inl invalid_request
        else if ps_max_operations s = 0 then Inl invalid_request
        else if ps_stop_grace s = 0 then Inl invalid_request
        else Inr ()))"

text \<open>\<open>save\<close>: the row of settings is written whole; of it the ports know the pool.\<close>

definition save_settings :: "panel_settings \<Rightarrow> estate \<Rightarrow> estate \<times> panel_settings result" where
  "save_settings s e =
     (case check_settings (es_ports e) s of
        Inl f \<Rightarrow> (e, Inl f)
      | Inr _ \<Rightarrow> (e\<lparr>es_pool := ps_port_pool s\<rparr>, Inr s))"

lemma checked_pool:
  assumes "check_settings ports s = Inr ()"
  shows "MIN_PORT \<le> fst (ps_port_pool s) \<and> fst (ps_port_pool s) \<le> snd (ps_port_pool s) \<and>
    (\<forall>a \<in> set ports. fst (ps_port_pool s) \<le> al_port a \<and> al_port a \<le> snd (ps_port_pool s))"
proof -
  obtain first final where pool: "ps_port_pool s = (first, final)" by (cases "ps_port_pool s")
  have "\<not> final < first" "\<not> first < MIN_PORT" "\<not> (\<exists>a \<in> set ports. al_port a < first \<or> final < al_port a)"
    using assms by (auto simp: check_settings_def pool split: if_splits)
  then show ?thesis unfolding pool by (simp add: not_less)
qed

lemma saved_pool:
  assumes "save_settings s e = (e', Inr s')"
  shows "s' = s \<and> es_pool e' = ps_port_pool s \<and> MIN_PORT \<le> fst (es_pool e') \<and> fst (es_pool e') \<le> snd (es_pool e') \<and>
    (\<forall>a \<in> set (es_ports e'). fst (es_pool e') \<le> al_port a \<and> al_port a \<le> snd (es_pool e'))"
  using assms checked_pool [of "es_ports e" s] by (auto simp: save_settings_def split: sum.splits)

text \<open>An administrator may hand out a port outside the pool; from then on nothing can be saved
  that does not widen the pool to it.\<close>

lemma stranded_port_blocks:
  assumes "a \<in> set (es_ports e)" "al_port a < fst (ps_port_pool s) \<or> snd (ps_port_pool s) < al_port a"
  shows "\<exists>f. save_settings s e = (e, Inl f)"
  using assms by (auto simp: save_settings_def check_settings_def split: prod.splits)

subsection \<open>What every operation keeps\<close>

definition primaries :: "allocation list \<Rightarrow> id \<Rightarrow> nat" where
  "primaries t server = count_where (\<lambda>a. al_server a = server \<and> al_primary a) t"

definition ports_ok :: "allocation list \<Rightarrow> id set \<Rightarrow> bool" where
  "ports_ok t ids = (distinct (map al_port t) \<and>
     (\<forall>a \<in> set t. 1024 \<le> al_port a \<and> al_port a \<le> 65535 \<and> al_server a \<in> ids) \<and>
     (\<forall>s. primaries t s \<le> 1 \<and> length (ports_of t s) \<le> PER_SERVER))"

definition estate_ok :: "estate \<Rightarrow> bool" where
  "estate_ok e = (distinct (map srv_id (es_servers e)) \<and> ports_ok (es_ports e) (srv_id ` set (es_servers e)) \<and>
     1024 \<le> fst (es_pool e) \<and> snd (es_pool e) \<le> 65535 \<and>
     (\<forall>r \<in> set (es_servers e). srv_status r \<noteq> ServerDeleting \<longrightarrow> primaries (es_ports e) (srv_id r) = 1))"

lemma ports_of_count: "length (ports_of t s) = count_where (\<lambda>a. al_server a = s) t"
  by (simp add: ports_of_def count_where_def)

lemma count_update_map: "count_where q (update_where p f t) = count_where (\<lambda>r. q (if p r then f r else r)) t"
  by (induction t) (auto simp: count_where_def update_where_def)

lemma count_delete: "(\<And>r. r \<in> set t \<Longrightarrow> p r \<Longrightarrow> \<not> q r) \<Longrightarrow> count_where q (delete_where p t) = count_where q t"
  by (induction t) (auto simp: count_where_def delete_where_def)

lemma count_delete_le: "count_where q (delete_where p t) \<le> count_where q t"
  by (induction t) (auto simp: count_where_def delete_where_def)

lemma count_cong: "(\<And>r. r \<in> set t \<Longrightarrow> p r = q r) \<Longrightarrow> count_where p t = count_where q t"
  unfolding count_where_def by (metis (mono_tags, lifting) filter_cong)

lemma count_key: "distinct (map k t) \<Longrightarrow> r \<in> set t \<Longrightarrow> q r \<Longrightarrow> count_where (\<lambda>x. q x \<and> k x = k r) t = 1"
proof (induction t)
  case (Cons x t)
  show ?case
  proof (cases "x = r")
    case True
    with Cons.prems(1) have "k r \<notin> k ` set t" by simp
    then have "k y \<noteq> k r" if "y \<in> set t" for y using that by (metis imageI)
    then have "filter (\<lambda>y. q y \<and> k y = k r) t = []" by (auto simp: filter_empty_conv)
    with True Cons.prems show ?thesis by (simp add: count_where_def)
  next
    case False
    with Cons show ?thesis by (auto simp: count_where_def)
  qed
qed simp

lemma same_port: "distinct (map al_port t) \<Longrightarrow> a \<in> set t \<Longrightarrow> b \<in> set t \<Longrightarrow> al_port a = al_port b \<Longrightarrow> a = b"
  by (simp add: distinct_map inj_on_def)

lemma next_free_in: "next_free free t pool = Inr p \<Longrightarrow> fst pool \<le> p \<and> p \<le> snd pool \<and> free p \<and> p \<notin> set (taken_ports t pool)"
  using fetch_SomeD [of "\<lambda>p. p \<notin> set (taken_ports t pool) \<and> free p" "[fst pool ..< Suc (snd pool)]" p]
  by (auto simp: next_free_def fetch_optional_def split: option.splits)

lemma set_taken: "set (taken_ports t pool) = {p \<in> al_port ` set t. fst pool \<le> p \<and> p \<le> snd pool}"
  by (auto simp: taken_ports_def sql)

lemma taken_sorted: "distinct (map al_port t) \<Longrightarrow> sorted (taken_ports t pool) \<and> distinct (taken_ports t pool)"
  by (auto simp: taken_ports_def order_by_def distinct_map inj_on_def)

lemma first_gap_find:
  "sorted used \<Longrightarrow> distinct used \<Longrightarrow> \<forall>u \<in> set used. c \<le> u \<Longrightarrow>
    first_gap [c ..< n] used =
      (case find (\<lambda>p. p \<notin> set used) [c ..< n] of None \<Rightarrow> Inl (conflict ''port_pool_exhausted'') | Some p \<Rightarrow> Inr p)"
proof (induction "n - c" arbitrary: c used)
  case (Suc m)
  then have c: "[c ..< n] = c # [Suc c ..< n]" "m = n - Suc c" by (simp_all add: upt_rec)
  show ?case
  proof (cases "used \<noteq> [] \<and> hd used = c")
    case True
    then obtain ps where ps: "used = c # ps" by (metis list.collapse)
    with Suc.prems have up: "\<forall>u \<in> set ps. Suc c \<le> u" by (auto simp: Suc_le_eq order_less_le)
    have "find (\<lambda>p. p \<notin> set used) [Suc c ..< n] = find (\<lambda>p. p \<notin> set ps) [Suc c ..< n]"
      by (rule find_cong) (auto simp: ps)
    moreover have "first_gap [Suc c ..< n] ps =
        (case find (\<lambda>p. p \<notin> set ps) [Suc c ..< n] of None \<Rightarrow> Inl (conflict ''port_pool_exhausted'') | Some p \<Rightarrow> Inr p)"
      using Suc.hyps(1) [OF c(2) _ _ up] Suc.prems ps by simp
    ultimately show ?thesis by (simp add: c(1) ps)
  next
    case False
    then have "c \<notin> set used" using Suc.prems by (cases used) auto
    with False show ?thesis by (auto simp: c(1) split: list.splits)
  qed
qed simp

lemma next_free_agree: "distinct (map al_port t) \<Longrightarrow> next_free_port t pool = next_free (\<lambda>_. True) t pool"
  using first_gap_find [of "taken_ports t pool" "fst pool" "Suc (snd pool)"] taken_sorted [of t pool]
  by (auto simp: next_free_port_def next_free_def set_taken)

lemma find_weaker:
  "find Q xs = Some q \<Longrightarrow> (\<And>x. Q x \<Longrightarrow> P x) \<Longrightarrow> sorted xs \<Longrightarrow>
    \<exists>p \<le> q. find P xs = Some p \<and> (p = q \<or> \<not> Q p)" for q :: "'a::linorder"
proof (induction xs)
  case (Cons x xs)
  show ?case
  proof (cases "Q x")
    case False
    with Cons.prems(1) have q: "find Q xs = Some q" by simp
    then have "x \<le> q" using Cons.prems(3) by (auto simp: find_Some_iff)
    with Cons.IH [OF q Cons.prems(2)] Cons.prems(3) False show ?thesis by (cases "P x") auto
  qed (use Cons.prems in auto)
qed simp

text \<open>The search of the manager does not ask the machine; the other one finds the same port unless
  another process holds it, and else one behind it.\<close>

lemma searches_compared:
  assumes "distinct (map al_port t)"
  shows "next_free_port t pool = Inr p \<Longrightarrow> free p \<Longrightarrow> next_free free t pool = Inr p"
    and "next_free free t pool = Inr q \<Longrightarrow> \<exists>p \<le> q. next_free_port t pool = Inr p \<and> (p = q \<or> \<not> free p)"
proof -
  let ?xs = "[fst pool ..< Suc (snd pool)]"
  let ?P = "\<lambda>p. p \<notin> set (taken_ports t pool)" and ?Q = "\<lambda>p. p \<notin> set (taken_ports t pool) \<and> free p"
  have port: "next_free_port t pool = Inr p \<longleftrightarrow> find ?P ?xs = Some p" for p
    by (simp add: next_free_agree [OF assms] next_free_def split: option.split)
  have free: "next_free free t pool = Inr p \<longleftrightarrow> find ?Q ?xs = Some p" for p
    by (simp add: next_free_def split: option.split)
  show "next_free free t pool = Inr p" if "next_free_port t pool = Inr p" "free p"
  proof -
    have "find ?P xs = Some p \<Longrightarrow> find ?Q xs = Some p" for xs using that(2) by (induction xs) (auto split: if_splits)
    with that(1) show ?thesis by (simp only: port free)
  qed
  show "\<exists>p \<le> q. next_free_port t pool = Inr p \<and> (p = q \<or> \<not> free p)" if "next_free free t pool = Inr q"
  proof -
    have "find ?Q ?xs = Some q" using that by (simp only: free)
    then have "\<exists>p \<le> q. find ?P ?xs = Some p \<and> (p = q \<or> \<not> ?Q p)" by (rule find_weaker) (auto simp del: upt_Suc)
    then obtain p where p: "p \<le> q" "find ?P ?xs = Some p" "p = q \<or> \<not> ?Q p" by blast
    then have "?P p" by (auto simp: find_Some_iff)
    with p show ?thesis unfolding port by blast
  qed
qed

lemma allocation_create_ok:
  assumes "estate_ok e"
  shows "estate_ok (fst (allocation_create now free server name port admin e))"
proof -
  have in_range: "1024 \<le> p \<and> p \<le> 65535"
    if "(case port of Some asked \<Rightarrow> chosen_port free (es_pool e) admin asked
        | None \<Rightarrow> next_free free (es_ports e) (es_pool e)) = Inr p" for p
  proof (cases port)
    case None
    with that next_free_in [of free "es_ports e" "es_pool e" p] assms show ?thesis
      by (simp add: estate_ok_def)
  next
    case (Some asked)
    with that show ?thesis by (auto simp: chosen_port_def MIN_PORT_def Let_def split: if_splits)
  qed
  show ?thesis
    using assms in_range
    by (fastforce simp: allocation_create_def estate_ok_def ports_ok_def ports_of_count primaries_def
        count_snoc PER_SERVER_def split: sum.splits)
qed

lemma allocation_rename_ok:
  assumes "estate_ok e" shows "estate_ok (fst (allocation_rename server port name e))"
  using assms
  by (auto simp: allocation_rename_def estate_ok_def ports_ok_def ports_of_count primaries_def Let_def
      count_update map_update in_update split: sum.splits)


lemma ports_okI:
  "distinct (map al_port t) \<Longrightarrow>
    (\<And>a. a \<in> set t \<Longrightarrow> 1024 \<le> al_port a \<and> al_port a \<le> 65535 \<and> al_server a \<in> ids) \<Longrightarrow>
    (\<And>s. primaries t s \<le> 1) \<Longrightarrow> (\<And>s. length (ports_of t s) \<le> PER_SERVER) \<Longrightarrow> ports_ok t ids"
  by (simp add: ports_ok_def)

lemma ports_ok_delete:
  assumes "ports_ok t ids" "\<And>a. a \<in> set t \<Longrightarrow> \<not> p a \<Longrightarrow> al_server a \<in> ids \<Longrightarrow> al_server a \<in> ids'"
  shows "ports_ok (delete_where p t) ids'"
proof (rule ports_okI)
  show "distinct (map al_port (delete_where p t))" using assms(1) distinct_delete by (auto simp: ports_ok_def)
  show "primaries (delete_where p t) s \<le> 1" for s
    using assms(1) count_delete_le [of "\<lambda>a. al_server a = s \<and> al_primary a" p t] le_trans
    unfolding ports_ok_def primaries_def by blast
  show "length (ports_of (delete_where p t) s) \<le> PER_SERVER" for s
    using assms(1) count_delete_le [of "\<lambda>a. al_server a = s" p t] le_trans
    unfolding ports_ok_def ports_of_count by blast
qed (use assms in \<open>auto simp: ports_ok_def set_delete\<close>)

lemma allocation_remove_ok:
  assumes ok: "estate_ok e" shows "estate_ok (fst (allocation_remove server port e))"
proof -
  let ?mine = "\<lambda>a. al_server a = server \<and> al_port a = port"
  have kept: "primaries (delete_where ?mine (es_ports e)) s = primaries (es_ports e) s"
    if a: "fetch_optional ?mine (es_ports e) = Some a" "\<not> al_primary a" for a s
  proof -
    have "\<not> al_primary b" if "b \<in> set (es_ports e)" "?mine b" for b
      using same_port [of "es_ports e" a b] that a fetch_SomeD [OF a(1)] ok
      by (auto simp: estate_ok_def ports_ok_def)
    then show ?thesis unfolding primaries_def by (intro count_delete) blast
  qed
  have "ports_ok (delete_where ?mine (es_ports e)) (srv_id ` set (es_servers e))"
    using ok by (intro ports_ok_delete [of "es_ports e"]) (auto simp: estate_ok_def)
  with ok kept show ?thesis
    by (auto simp: allocation_remove_def estate_ok_def Let_def split: option.splits)
qed

lemma set_primary_primaries:
  assumes ok: "distinct (map al_port t)" and a: "a \<in> set t" "al_server a = server" "al_port a = port"
  shows "primaries (update_where (\<lambda>a. al_server a = server \<and> al_port a = port) (\<lambda>a. a\<lparr>al_primary := True\<rparr>)
      (update_where (\<lambda>a. al_server a = server \<and> al_primary a) (\<lambda>a. a\<lparr>al_primary := False\<rparr>) t)) s =
    (if s = server then 1 else primaries t s)"
proof -
  have "primaries (update_where (\<lambda>a. al_server a = server \<and> al_port a = port) (\<lambda>a. a\<lparr>al_primary := True\<rparr>)
      (update_where (\<lambda>a. al_server a = server \<and> al_primary a) (\<lambda>a. a\<lparr>al_primary := False\<rparr>) t)) s =
    count_where (\<lambda>x. if s = server then al_server x = server \<and> al_port x = port
                     else al_server x = s \<and> al_primary x) t"
    unfolding primaries_def count_update_map by (rule count_cong) auto
  also have "\<dots> = (if s = server then 1 else primaries t s)"
    using count_key [OF ok a(1), of "\<lambda>x. al_server x = server"] a by (auto simp: primaries_def)
  finally show ?thesis .
qed

lemma set_primary_ok:
  assumes ok: "estate_ok e" shows "estate_ok (fst (set_primary server port e))"
proof (cases "fst (set_primary server port e) = e")
  case False
  let ?t = "update_where (\<lambda>a. al_server a = server \<and> al_port a = port) (\<lambda>a. a\<lparr>al_primary := True\<rparr>)
      (update_where (\<lambda>a. al_server a = server \<and> al_primary a) (\<lambda>a. a\<lparr>al_primary := False\<rparr>) (es_ports e))"
  obtain a where a: "fetch_optional (\<lambda>a. al_server a = server \<and> al_port a = port) (es_ports e) = Some a"
    and e: "fst (set_primary server port e) = e\<lparr>es_ports := ?t\<rparr>"
    using False by (auto simp: set_primary_def Let_def split: option.splits if_splits)
  have p: "primaries ?t s = (if s = server then 1 else primaries (es_ports e) s)" for s
    using fetch_SomeD [OF a] ok by (intro set_primary_primaries [of _ a]) (auto simp: estate_ok_def ports_ok_def)
  have "ports_ok ?t (srv_id ` set (es_servers e))"
  proof (rule ports_okI)
    show "primaries ?t s \<le> 1" for s using ok by (simp add: p estate_ok_def ports_ok_def)
    show "length (ports_of ?t s) \<le> PER_SERVER" for s
      using ok by (simp add: ports_of_count count_update estate_ok_def ports_ok_def)
    show "distinct (map al_port ?t)" using ok by (simp add: map_update estate_ok_def ports_ok_def)
    fix a assume "a \<in> set ?t"
    then have "(al_port a, al_server a) \<in> set (map (\<lambda>a. (al_port a, al_server a)) ?t)"
      unfolding set_map by (rule imageI)
    moreover have "map (\<lambda>a. (al_port a, al_server a)) ?t = map (\<lambda>a. (al_port a, al_server a)) (es_ports e)"
      by (simp add: map_update)
    ultimately have "(al_port a, al_server a) \<in> set (map (\<lambda>a. (al_port a, al_server a)) (es_ports e))"
      by argo
    then obtain b where "b \<in> set (es_ports e)" "al_port a = al_port b" "al_server a = al_server b" by auto
    with ok show "1024 \<le> al_port a \<and> al_port a \<le> 65535 \<and> al_server a \<in> srv_id ` set (es_servers e)"
      by (simp add: estate_ok_def ports_ok_def)
  qed
  with ok show ?thesis by (auto simp: e estate_ok_def p)
qed (use ok in simp)

lemma primaries_none: "ports_ok t ids \<Longrightarrow> server \<notin> ids \<Longrightarrow> primaries t server = 0 \<and> ports_of t server = []"
  by (auto simp: ports_ok_def primaries_def sql ports_of_def filter_empty_conv)

lemma server_create_ok:
  assumes ok: "estate_ok e" and new: "server \<notin> srv_id ` set (es_servers e)"
    and port: "\<And>p. sw_port w = Some p \<Longrightarrow> p \<le> 65535"
  shows "estate_ok (fst (server_create now server admin disk build w e))"
proof (cases "fst (server_create now server admin disk build w e) = e")
  case False
  obtain p where p: "(case sw_port w of Some p \<Rightarrow> Inr p | None \<Rightarrow> next_free_port (es_ports e) (es_pool e)) = Inr p"
    "p \<notin> al_port ` set (es_ports e)" "\<not> (\<exists>p. sw_port w = Some p \<and> p < 1024)"
    and e: "fst (server_create now server admin disk build w e) =
      e\<lparr>es_servers := es_servers e @ [new_server_row server w],
        es_ports := es_ports e @ [\<lparr>al_port = p, al_server = server, al_name = lit ''primary'',
          al_primary = True, al_created_at = now\<rparr>]\<rparr>"
    using False by (auto simp: server_create_def and_then_Inr Let_def split: sum.splits if_splits)
  have "1024 \<le> p \<and> p \<le> 65535"
  proof (cases "sw_port w")
    case None
    with p(1) ok next_free_in [of "\<lambda>_. True" "es_ports e" "es_pool e" p] show ?thesis
      by (simp add: next_free_agree estate_ok_def ports_ok_def)
  next
    case (Some q)
    with p port show ?thesis by auto
  qed
  moreover have "primaries (es_ports e) server = 0 \<and> ports_of (es_ports e) server = []"
    using primaries_none [OF _ new] ok by (simp add: estate_ok_def)
  ultimately show ?thesis
    using ok new p(2)
    by (auto simp: e estate_ok_def ports_ok_def new_server_row_def primaries_def count_snoc ports_of_def PER_SERVER_def)
qed (use ok in simp)

lemma server_delete_ok:
  assumes ok: "estate_ok e" shows "estate_ok (fst (server_delete server guarded live e))"
proof (cases "fst (server_delete server guarded live e) = e")
  case False
  let ?t = "delete_where (\<lambda>a. al_server a = server) (es_ports e)"
  have e: "fst (server_delete server guarded live e) = e\<lparr>
      es_servers := update_where (\<lambda>r. srv_id r = server) (\<lambda>r. r\<lparr>srv_status := ServerDeleting\<rparr>) (es_servers e),
      es_ports := ?t\<rparr>"
    using False by (auto simp: server_delete_def split: sum.splits if_splits)
  have ids: "srv_id ` set (update_where (\<lambda>r. srv_id r = server) (\<lambda>r. r\<lparr>srv_status := ServerDeleting\<rparr>)
      (es_servers e)) = srv_id ` set (es_servers e)"
    by (simp add: map_update flip: set_map)
  have "primaries ?t s = primaries (es_ports e) s" if "s \<noteq> server" for s
    unfolding primaries_def using that by (intro count_delete) auto
  moreover have "ports_ok ?t (srv_id ` set (es_servers e))"
    using ok by (intro ports_ok_delete [of "es_ports e"]) (auto simp: estate_ok_def)
  ultimately show ?thesis
    using ok by (auto simp: e estate_ok_def map_update ids in_update)
qed (use ok in simp)

lemma server_gone_ok:
  assumes ok: "estate_ok e" shows "estate_ok (server_gone server e)"
proof -
  let ?t = "delete_where (\<lambda>a. al_server a = server) (es_ports e)"
  have "primaries ?t s = primaries (es_ports e) s" if "s \<noteq> server" for s
    unfolding primaries_def using that by (intro count_delete) auto
  moreover have "ports_ok ?t (srv_id ` set (delete_where (\<lambda>r. srv_id r = server) (es_servers e)))"
    using ok by (intro ports_ok_delete [of "es_ports e" "srv_id ` set (es_servers e)"]) (auto simp: estate_ok_def set_delete)
  ultimately show ?thesis using ok by (auto simp: server_gone_def estate_ok_def distinct_delete set_delete)
qed


subsection \<open>Every state of servers and ports the panel can reach\<close>

text \<open>The status of a server also moves outside these operations (it is set up, or breaks), never
  away from being deleted.\<close>

inductive estate_step :: "estate \<Rightarrow> estate \<Rightarrow> bool" where
  Create: "server \<notin> srv_id ` set (es_servers e) \<Longrightarrow> (\<And>p. sw_port w = Some p \<Longrightarrow> p \<le> 65535) \<Longrightarrow>
    e' = fst (server_create now server admin disk build w e) \<Longrightarrow> estate_step e e'"
| Delete: "e' = fst (server_delete server guarded live e) \<Longrightarrow> estate_step e e'"
| Gone: "e' = server_gone server e \<Longrightarrow> estate_step e e'"
| SetUp: "st \<noteq> ServerDeleting \<Longrightarrow>
    e' = e\<lparr>es_servers := update_where (\<lambda>r. srv_id r = server \<and> srv_status r \<noteq> ServerDeleting)
      (\<lambda>r. r\<lparr>srv_status := st\<rparr>) (es_servers e)\<rparr> \<Longrightarrow> estate_step e e'"
| Memory: "e' = fst (startup_memory admin guarded planned server wanted e) \<Longrightarrow> estate_step e e'"
| AddPort: "e' = fst (allocation_create now free server name port admin e) \<Longrightarrow> estate_step e e'"
| RenamePort: "e' = fst (allocation_rename server p name e) \<Longrightarrow> estate_step e e'"
| Save: "snd (ps_port_pool s) \<le> 65535 \<Longrightarrow> e' = fst (save_settings s e) \<Longrightarrow> estate_step e e'"
| RemovePort: "e' = fst (allocation_remove server p e) \<Longrightarrow> estate_step e e'"
| SwapPrimary: "e' = fst (set_primary server p e) \<Longrightarrow> estate_step e e'"

inductive estate_reachable :: "estate \<Rightarrow> bool" where
  Empty: "es_servers e = [] \<Longrightarrow> es_ports e = [] \<Longrightarrow> 1024 \<le> fst (es_pool e) \<Longrightarrow> snd (es_pool e) \<le> 65535 \<Longrightarrow>
    estate_reachable e"
| Step: "estate_reachable e \<Longrightarrow> estate_step e e' \<Longrightarrow> estate_reachable e'"

inductive_cases estate_stepE: "estate_step e e'"

lemma set_up_ok:
  assumes ok: "estate_ok e"
  shows "estate_ok (e\<lparr>es_servers := update_where (\<lambda>r. srv_id r = server \<and> srv_status r \<noteq> ServerDeleting)
      (\<lambda>r. r\<lparr>srv_status := st\<rparr>) (es_servers e)\<rparr>)"
proof -
  have "srv_id ` set (update_where (\<lambda>r. srv_id r = server \<and> srv_status r \<noteq> ServerDeleting)
      (\<lambda>r. r\<lparr>srv_status := st\<rparr>) (es_servers e)) = srv_id ` set (es_servers e)"
    by (simp add: map_update flip: set_map)
  with ok show ?thesis by (auto simp: estate_ok_def map_update in_update)
qed

lemma startup_memory_ok:
  assumes ok: "estate_ok e" shows "estate_ok (fst (startup_memory admin guarded planned server wanted e))"
proof -
  have "srv_id ` set (update_where (\<lambda>r. srv_id r = server) (\<lambda>r. r\<lparr>pr_memory := m\<rparr>) (es_servers e)) = srv_id ` set (es_servers e)" for m
    by (simp add: map_update flip: set_map)
  with ok show ?thesis by (auto simp: startup_memory_def estate_ok_def map_update in_update split: sum.split)
qed

lemma save_ok: "estate_ok e \<Longrightarrow> snd (ps_port_pool s) \<le> 65535 \<Longrightarrow> estate_ok (fst (save_settings s e))"
  using checked_pool [of "es_ports e" s] by (auto simp: save_settings_def estate_ok_def MIN_PORT_def split: sum.split)

lemma step_ok: "estate_step e e' \<Longrightarrow> estate_ok e \<Longrightarrow> estate_ok e'"
  by (erule estate_stepE) (simp_all add: server_create_ok server_delete_ok server_gone_ok set_up_ok save_ok startup_memory_ok
      allocation_create_ok allocation_rename_ok allocation_remove_ok set_primary_ok)

lemma reachable_estate: "estate_reachable e \<Longrightarrow> estate_ok e"
proof (induction rule: estate_reachable.induct)
  case (Empty e)
  then show ?case by (simp add: estate_ok_def ports_ok_def primaries_def count_where_def ports_of_def)
qed (rule step_ok)

subsection \<open>Memory\<close>

text \<open>The true sum, without the cut to 32 bits.\<close>

definition memory_of :: "power_row list \<Rightarrow> id \<Rightarrow> nat" where
  "memory_of rows owner = sum_list (map pr_memory
     (filter (\<lambda>r. srv_owner r = owner \<and> srv_status r \<noteq> ServerDeleting) rows))"

lemma allocated_exact: "memory_of rows owner < 2 ^ 32 \<Longrightarrow> allocated_mib rows owner = memory_of rows owner"
  by (simp add: allocated_mib_def memory_of_def)

lemma fold_min: "fold (\<lambda>r s. min (s + f r) m) rows (min s m) = min (s + sum_list (map f rows)) (m :: nat)"
proof (induction rows arbitrary: s)
  case (Cons r rows)
  have "min (min s m + f r) m = min (s + f r) m" by (auto simp: min_def)
  with Cons.IH [of "s + f r"] show ?case by (simp add: ac_simps)
qed simp

lemma fold_saturating: "fold (\<lambda>r s. saturating_add w s (f r)) rows 0 = min (sum_list (map f rows)) (2 ^ w - 1)"
  using fold_min [of f "2 ^ w - 1" rows 0] by (simp add: saturating_add_def)

definition owned_memory :: "power_row list \<Rightarrow> id \<Rightarrow> nat" where
  "owned_memory rows owner = sum_list (map pr_memory (filter (\<lambda>r. srv_owner r = owner) rows))"

lemma spoken_for_exact:
  "owned_memory rows (srv_owner row) < 2 ^ 32 \<Longrightarrow> spoken_for rows row = owned_memory rows (srv_owner row) - pr_memory row"
  using fold_saturating [of 32 pr_memory "filter (\<lambda>r. srv_owner r = srv_owner row) rows"]
  by (simp add: spoken_for_def owned_memory_def)

lemma memory_of_le: "memory_of rows owner \<le> owned_memory rows owner"
  by (induction rows) (auto simp: memory_of_def owned_memory_def)

lemma owned_memory_row: "row \<in> set rows \<Longrightarrow> pr_memory row \<le> owned_memory rows (srv_owner row)"
  by (induction rows) (auto simp: owned_memory_def)

lemma owned_memory_changed:
  "distinct (map srv_id rows) \<Longrightarrow> row \<in> set rows \<Longrightarrow>
    owned_memory (update_where (\<lambda>r. srv_id r = srv_id row) (\<lambda>r. r\<lparr>pr_memory := wanted\<rparr>) rows) (srv_owner row) +
      pr_memory row = owned_memory rows (srv_owner row) + wanted"
proof (induction rows)
  case (Cons r rows)
  show ?case
  proof (cases "r = row")
    case True
    then have "srv_id x \<noteq> srv_id row" if "x \<in> set rows" for x
      using Cons.prems(1) that by (metis distinct.simps(2) image_eqI list.set_map list.simps(9))
    then have "update_where (\<lambda>r. srv_id r = srv_id row) (\<lambda>r. r\<lparr>pr_memory := wanted\<rparr>) rows = rows"
      by (simp add: update_where_def map_idI)
    with True show ?thesis by (simp add: update_where_def owned_memory_def)
  next
    case False
    then have "row \<in> set rows" "srv_id r \<noteq> srv_id row" using Cons.prems by auto
    with Cons.IH Cons.prems(1) show ?thesis by (auto simp: update_where_def owned_memory_def)
  qed
qed simp

lemma change_within_budget:
  assumes ok: "check_memory_budget rows users False row wanted = Inr w" "users_load users (srv_owner row) = Inr u"
    "u_role u = User" and rows: "distinct (map srv_id rows)" "row \<in> set rows"
    and small: "owned_memory rows (srv_owner row) < 2 ^ 32" "memory_mib (u_limits u) < 2 ^ 32 - 1"
  shows "memory_of (update_where (\<lambda>r. srv_id r = srv_id row) (\<lambda>r. r\<lparr>pr_memory := w\<rparr>) rows) (srv_owner row)
    \<le> memory_mib (u_limits u)"
proof -
  have "w = wanted" "saturating_add 32 (spoken_for rows row) wanted \<le> memory_mib (u_limits u)"
    using ok by (auto simp: check_memory_budget_def budget_memory_def Let_def split: if_splits)
  then have "owned_memory rows (srv_owner row) - pr_memory row + w \<le> memory_mib (u_limits u)"
    using small spoken_for_exact [OF small(1)] by (auto simp: saturating_add_def min_def split: if_splits)
  with owned_memory_changed [OF rows, of w] owned_memory_row [OF rows(2)] show ?thesis
    using le_trans [OF memory_of_le] by fastforce
qed

text \<open>A server that was made says whether it overcommits the memory of its owner; only an administrator may.\<close>

lemma created_budget:
  assumes made: "server_create now server admin disk build w e = (e', Inr overcommitted)"
    and owner: "users_load (es_users e) (sw_owner w) = Inr u" "u_role u = User" "u_id u = sw_owner w"
    and small: "memory_of (es_servers e) (sw_owner w) < 2 ^ 32" "memory_mib (u_limits u) < 2 ^ 32 - 1"
  shows "(overcommitted \<longleftrightarrow> memory_mib (u_limits u) < memory_of (es_servers e') (sw_owner w)) \<and> (overcommitted \<longrightarrow> admin)"
proof -
  let ?b = "budget_of (u_role u) (u_limits u)"
  have over: "overcommitted = (\<not> has_room_for ?b (allocated_mib (es_servers e) (sw_owner w)) (sw_memory w))"
    and admin: "has_room_for ?b (allocated_mib (es_servers e) (sw_owner w)) (sw_memory w) \<or> admin"
    and e': "es_servers e' = es_servers e @ [new_server_row server w]"
    using made owner by (auto simp: server_create_def and_then_Inr Let_def split: sum.splits if_splits)
  have "memory_of (es_servers e') (sw_owner w) = memory_of (es_servers e) (sw_owner w) + sw_memory w"
    by (simp add: e' memory_of_def new_server_row_def)
  moreover have "has_room_for ?b (allocated_mib (es_servers e) (sw_owner w)) (sw_memory w) \<longleftrightarrow>
      memory_of (es_servers e) (sw_owner w) + sw_memory w \<le> memory_mib (u_limits u)"
    using owner(2) small by (auto simp: has_room_for_def budget_memory_def allocated_exact saturating_add_def min_def split: if_splits)
  ultimately show ?thesis using over admin by auto
qed

lemma changed_budget:
  assumes changed: "startup_memory False guarded planned server (Some w) e = (e', Inr m)"
    and row: "row \<in> set (es_servers e)" "srv_id row = server" "distinct (map srv_id (es_servers e))"
    and owner: "users_load (es_users e) (srv_owner row) = Inr u" "u_role u = User"
    and small: "owned_memory (es_servers e) (srv_owner row) < 2 ^ 32" "memory_mib (u_limits u) < 2 ^ 32 - 1"
  shows "m = w \<and> memory_of (es_servers e') (srv_owner row) \<le> memory_mib (u_limits u)"
proof -
  have "fetch_optional (\<lambda>r. srv_id r = server) (es_servers e) = Some row"
    using fetch_Some_iff [OF row(3,1)] row(2) by simp
  with changed have checked: "check_memory_budget (es_servers e) (es_users e) False row w = Inr m"
    and e': "es_servers e' = update_where (\<lambda>r. srv_id r = srv_id row) (\<lambda>r. r\<lparr>pr_memory := m\<rparr>) (es_servers e)"
    using row(2) by (auto simp: startup_memory_def and_then_Inr split: sum.splits)
  have "m = w" using checked owner by (auto simp: check_memory_budget_def and_then_Inr Let_def split: option.splits if_splits)
  with change_within_budget [OF checked owner row(3,1) small] e' show ?thesis by simp
qed

end
