(* ===== verification/Registration.thy ===== *)
theory Registration
  imports Accounts Rates
begin

text \<open>
  Signing up (\<open>registration/mod.rs\<close>, \<open>registration/store.rs\<close>, \<open>registration/address.rs\<close>): an
  application waits until its address is confirmed, and then, where the panel asks for it, until
  an administrator has approved it. Each handler is one step on the tables; what it gets from
  outside is an argument: the fresh identifier and token, the answers of the mailer and of the
  helper, and the functions \<open>str::to_lowercase\<close> (\<open>lower\<close>), SHA-256 (\<open>digest\<close>) and argon2
  (\<open>encode\<close>, \<open>verify\<close>). Letters handed to the mailer are collected in \<open>su_letters\<close>.
\<close>

subsection \<open>Addresses\<close>

definition LOCAL_LIMIT :: nat where "LOCAL_LIMIT = 64"
definition WHOLE_LIMIT :: nat where "WHOLE_LIMIT = 254"

definition invalid_email :: failure where
  "invalid_email = bad_request ''invalid_email''"

definition normalise_address :: "(ustr \<Rightarrow> ustr) \<Rightarrow> ustr \<Rightarrow> ustr result" where
  "normalise_address lower input =
     (let address = lower (trim input) in
      if \<exists>c \<in> set address. is_control c then Inl invalid_email
      else if \<exists>c \<in> set address. is_whitespace c then Inl invalid_email
      else if WHOLE_LIMIT < length address then Inl invalid_email
      else case split_on 64 address of
          [local, domain] \<Rightarrow>
            if local = [] \<or> LOCAL_LIMIT < length local then Inl invalid_email
            else if 46 \<notin> set domain \<or> has_prefix [46] domain \<or> has_suffix [46] domain then Inl invalid_email
            else if contains [46, 46] domain then Inl invalid_email
            else Inr address
        | _ \<Rightarrow> Inl invalid_email)"

subsection \<open>Tables\<close>

record block_row =
  bl_email :: ustr
  bl_until :: "moment option"
  bl_reason :: "ustr option"
  bl_created_at :: moment

datatype letter =
    VerifyEmail (letter_to: ustr) (letter_name: ustr) (letter_token: ustr)
  | AddressAlreadyRegistered id ustr
  | AccountApproved id ustr
  | AccountRejected ustr ustr
  | AccountAwaitingReview id ustr

record signups =
  su_users :: "user_row list"
  su_regs :: "registration_row list"
  su_blocks :: "block_row list"
  su_rates :: buckets
  su_letters :: "letter list"
  su_enabled :: bool
  su_requires_approval :: bool
  su_default_limits :: user_limits
  su_can_link :: bool

definition TOKEN_LIFE :: moment where "TOKEN_LIFE = 24 * 3600"
definition TOKENS_PER_APPLICATION :: nat where "TOKENS_PER_APPLICATION = 5"
definition BLOCK_AFTER_REJECTION :: moment where "BLOCK_AFTER_REJECTION = 30 * 86400"
definition KEEP_UNVERIFIED :: moment where "KEEP_UNVERIFIED = 7 * 86400"
definition KEEP_WAITING :: moment where "KEEP_WAITING = 30 * 86400"
definition VERIFY_ATTEMPTS :: limit where "VERIFY_ATTEMPTS = limit_new ''verify_email'' 30 (secs (60 * 60))"

subsection \<open>Statements\<close>

record new_application =
  na_username :: ustr
  na_email :: ustr
  na_password_hash :: ustr
  na_signup_ip :: "ustr option"
  na_token_hash :: ustr
  na_token_expires_at :: moment

definition application_row :: "id \<Rightarrow> new_application \<Rightarrow> moment \<Rightarrow> registration_row" where
  "application_row i new now =
     \<lparr>reg_id = i, reg_username = na_username new, reg_email = na_email new,
      reg_password_hash = na_password_hash new, reg_state = EmailUnverified,
      reg_token_hash = na_token_hash new, reg_token_expires_at = Some (na_token_expires_at new),
      reg_token_sent_at = Some now, reg_tokens_sent = 1, reg_signup_ip = na_signup_ip new,
      reg_verified_at = None, reg_created_at = now\<rparr>"

text \<open>\<open>Inl\<close> is the complaint about a violated unique index of \<open>registrations\<close>.\<close>

definition reg_insert ::
  "registration_row list \<Rightarrow> id \<Rightarrow> new_application \<Rightarrow> moment \<Rightarrow> ustr + registration_row list" where
  "reg_insert t i new now =
     (if na_username new \<in> reg_username ` set t then Inl (unique_violation ''registrations.username'')
      else if na_email new \<in> reg_email ` set t then Inl (unique_violation ''registrations.email'')
      else if na_token_hash new \<in> reg_token_hash ` set t then Inl (unique_violation ''registrations.token_hash'')
      else Inr (t @ [application_row i new now]))"

definition taken_over :: "new_application \<Rightarrow> moment \<Rightarrow> registration_row \<Rightarrow> registration_row" where
  "taken_over new now r = r\<lparr>reg_username := na_username new, reg_password_hash := na_password_hash new,
     reg_token_hash := na_token_hash new, reg_token_expires_at := Some (na_token_expires_at new),
     reg_token_sent_at := Some now, reg_tokens_sent := 1, reg_signup_ip := na_signup_ip new,
     reg_created_at := now\<rparr>"

definition reg_take_over ::
  "registration_row list \<Rightarrow> id \<Rightarrow> new_application \<Rightarrow> moment \<Rightarrow> ustr + registration_row list \<times> bool" where
  "reg_take_over t i new now =
     (let mine = (\<lambda>r. reg_id r = i \<and> reg_email r = na_email new \<and> reg_state r = EmailUnverified) in
      if count_where mine t = 0 then Inr (t, False)
      else if \<exists>r \<in> set t. \<not> mine r \<and> reg_username r = na_username new
        then Inl (unique_violation ''registrations.username'')
      else if \<exists>r \<in> set t. \<not> mine r \<and> reg_token_hash r = na_token_hash new
        then Inl (unique_violation ''registrations.token_hash'')
      else Inr (update_where mine (taken_over new now) t, count_where mine t = 1))"

definition reg_by_id :: "registration_row list \<Rightarrow> id \<Rightarrow> registration_row option" where
  "reg_by_id t i = fetch_optional (\<lambda>r. reg_id r = i) t"

definition reg_by_email :: "registration_row list \<Rightarrow> ustr \<Rightarrow> registration_row option" where
  "reg_by_email t e = fetch_optional (\<lambda>r. reg_email r = e) t"

definition reg_by_token :: "(ustr \<Rightarrow> ustr) \<Rightarrow> registration_row list \<Rightarrow> ustr \<Rightarrow> registration_row option" where
  "reg_by_token digest t token = fetch_optional (\<lambda>r. reg_token_hash r = digest token) t"

definition reg_credentials :: "registration_row list \<Rightarrow> ustr \<Rightarrow> (ustr \<times> registration_state) option" where
  "reg_credentials t name =
     map_option (\<lambda>r. (reg_password_hash r, reg_state r)) (fetch_optional (\<lambda>r. reg_username r = name) t)"

definition reg_password_for_token ::
  "(ustr \<Rightarrow> ustr) \<Rightarrow> registration_row list \<Rightarrow> id \<Rightarrow> ustr \<Rightarrow> ustr option" where
  "reg_password_for_token digest t i token = map_option reg_password_hash
     (fetch_optional (\<lambda>r. reg_id r = i \<and> reg_token_hash r = digest token) t)"

definition reg_replace_token ::
  "registration_row list \<Rightarrow> id \<Rightarrow> ustr \<Rightarrow> moment \<Rightarrow> moment \<Rightarrow> registration_row list \<times> ustr option" where
  "reg_replace_token t i token_hash expires now =
     (let t' = update_where (\<lambda>r. reg_id r = i)
        (\<lambda>r. r\<lparr>reg_token_hash := token_hash, reg_token_expires_at := Some expires,
               reg_token_sent_at := Some now, reg_tokens_sent := reg_tokens_sent r + 1\<rparr>) t
      in (t', map_option reg_username (reg_by_id t' i)))"

definition reg_mark_verified ::
  "(ustr \<Rightarrow> ustr) \<Rightarrow> registration_row list \<Rightarrow> id \<Rightarrow> ustr \<Rightarrow> moment \<Rightarrow> registration_row list \<times> bool" where
  "reg_mark_verified digest t i token now =
     (let mine = (\<lambda>r. reg_id r = i \<and> reg_token_hash r = digest token \<and> reg_state r = EmailUnverified) in
      (update_where mine (\<lambda>r. r\<lparr>reg_state := AwaitingApproval, reg_verified_at := Some now\<rparr>) t,
       count_where mine t = 1))"

definition reg_remove :: "registration_row list \<Rightarrow> id \<Rightarrow> registration_row list" where
  "reg_remove t i = delete_where (\<lambda>r. reg_id r = i) t"

definition reg_page :: "registration_row list \<Rightarrow> nat \<Rightarrow> nat \<Rightarrow> registration_row list \<times> nat" where
  "reg_page t limit offset =
     (take limit (drop offset (order_by_desc (\<lambda>r. (reg_created_at r, reg_id r)) t)), length t)"

definition block_address ::
  "block_row list \<Rightarrow> ustr \<Rightarrow> moment option \<Rightarrow> ustr option \<Rightarrow> moment \<Rightarrow> block_row list" where
  "block_address t email until reason now =
     (if \<exists>b \<in> set t. bl_email b = email
      then update_where (\<lambda>b. bl_email b = email) (\<lambda>b. b\<lparr>bl_until := until, bl_reason := reason\<rparr>) t
      else t @ [\<lparr>bl_email = email, bl_until = until, bl_reason = reason, bl_created_at = now\<rparr>])"

definition is_blocked :: "block_row list \<Rightarrow> ustr \<Rightarrow> moment \<Rightarrow> bool" where
  "is_blocked t email now =
     (case fetch_optional (\<lambda>b. bl_email b = email) t of
        None \<Rightarrow> False
      | Some b \<Rightarrow> (case bl_until b of None \<Rightarrow> True | Some until \<Rightarrow> now < until))"

record swept =
  sw_unverified :: nat
  sw_waiting :: nat
  sw_blocks :: nat

definition swept_any :: "swept \<Rightarrow> bool" where
  "swept_any s = (0 < sw_unverified s \<or> 0 < sw_waiting s \<or> 0 < sw_blocks s)"

definition reg_sweep :: "moment \<Rightarrow> moment \<Rightarrow> moment \<Rightarrow> signups \<Rightarrow> signups \<times> swept" where
  "reg_sweep unverified_before waiting_before now s =
     (let stale = (\<lambda>r. reg_state r = EmailUnverified \<and> reg_created_at r < unverified_before);
          left = delete_where stale (su_regs s);
          old = (\<lambda>r. reg_state r = AwaitingApproval \<and> reg_created_at r < waiting_before);
          over = (\<lambda>b. is_some_and (\<lambda>until. until \<le> now) (bl_until b))
      in (s\<lparr>su_regs := delete_where old left, su_blocks := delete_where over (su_blocks s)\<rparr>,
          \<lparr>sw_unverified = count_where stale (su_regs s), sw_waiting = count_where old left,
           sw_blocks = count_where over (su_blocks s)\<rparr>))"


subsection \<open>Handlers\<close>

record outside =
  out_lower :: "ustr \<Rightarrow> ustr"
  out_digest :: "ustr \<Rightarrow> ustr"
  out_encode :: "ustr \<Rightarrow> ustr \<Rightarrow> ustr"
  out_verify :: "ustr \<Rightarrow> ustr \<Rightarrow> bool"
  out_id_text :: "id \<Rightarrow> ustr"

text \<open>What one call draws from outside: the clocks, a fresh identifier and token, whether the mailer
  takes a letter, and how the helper set the account up.\<close>

record draw =
  dr_now :: moment
  dr_instant :: instant
  dr_id :: id
  dr_token :: ustr
  dr_salt :: ustr
  dr_mail_taken :: bool
  dr_refused :: failure
  dr_system :: "system_user_state \<times> nat option \<times> ustr option"

definition send_letter :: "draw \<Rightarrow> letter \<Rightarrow> signups \<Rightarrow> signups" where
  "send_letter d l s = (if dr_mail_taken d then s\<lparr>su_letters := su_letters s @ [l]\<rparr> else s)"

definition registration_open :: "signups \<Rightarrow> bool" where
  "registration_open s = (su_enabled s \<and> su_can_link s)"

definition require_open :: "signups \<Rightarrow> bool result" where
  "require_open s =
     (if registration_open s then Inr (su_requires_approval s)
      else Inl (conflict ''registration_disabled''))"

fun take_limits :: "limit list \<Rightarrow> ustr \<Rightarrow> instant \<Rightarrow> buckets \<Rightarrow> buckets \<times> unit result" where
  "take_limits [] k now b = (b, Inr ())"
| "take_limits (l # ls) k now b =
     (case bucket_take b l k now of
        (b, Some seconds) \<Rightarrow> (b, Inl (rate_limited seconds))
      | (b, None) \<Rightarrow> take_limits ls k now b)"

definition dead_link :: failure where
  "dead_link = not_found ''invalid_token''"

text \<open>The second half of \<open>apply\<close>: the application is written and its letter sent; a letter that is
  refused takes the application with it.\<close>

definition write_application ::
  "outside \<Rightarrow> draw \<Rightarrow> ustr \<Rightarrow> ustr \<Rightarrow> ustr \<Rightarrow> ustr option \<Rightarrow> id option \<Rightarrow> signups \<Rightarrow> signups \<times> unit result" where
  "write_application env d name email pw from unconfirmed s =
     (let new = \<lparr>na_username = name, na_email = email, na_password_hash = pw, na_signup_ip = from,
                 na_token_hash = out_digest env (dr_token d), na_token_expires_at = dr_now d + TOKEN_LIFE\<rparr>;
          written = (case unconfirmed of
            Some i \<Rightarrow> (case reg_take_over (su_regs s) i new (dr_now d) of
                Inl complaint \<Rightarrow> Inl complaint
              | Inr (t, taken) \<Rightarrow> Inr (t, if taken then Some i else None))
          | None \<Rightarrow> (case reg_insert (su_regs s) (dr_id d) new (dr_now d) of
                Inl complaint \<Rightarrow> Inl complaint
              | Inr t \<Rightarrow> Inr (t, Some (dr_id d))))
      in case written of
           Inl complaint \<Rightarrow>
             (s, if code (map_taken complaint) = ''username_taken'' then Inl (map_taken complaint) else Inr ())
         | Inr (t, None) \<Rightarrow> (s\<lparr>su_regs := t\<rparr>, Inr ())
         | Inr (t, Some i) \<Rightarrow>
             let s = s\<lparr>su_regs := t\<rparr> in
             if \<not> dr_mail_taken d then (s\<lparr>su_regs := reg_remove t i\<rparr>, Inr ())
             else (let s = send_letter d (VerifyEmail email name (dr_token d)) s in
                   (s\<lparr>su_rates := bucket_note (su_rates s) RESEND_PER_ADDRESS email (dr_instant d)\<rparr>, Inr ())))"

text \<open>What is done about an acceptable application depends on who the address belongs to; the
  answer does not say which.\<close>

definition open_application :: "outside \<Rightarrow> draw \<Rightarrow> ustr \<Rightarrow> ustr \<Rightarrow> ustr \<Rightarrow> ustr option \<Rightarrow>
    registration_row option \<Rightarrow> id option \<Rightarrow> signups \<Rightarrow> signups \<times> unit result" where
  "open_application env d name email pw from opened unconfirmed s =
     (if is_blocked (su_blocks s) email (dr_now d) then (s, Inr ())
      else (case users_by_email (su_users s) email of
        Some u \<Rightarrow> (send_letter d (AddressAlreadyRegistered (u_id u) email) s, Inr ())
      | None \<Rightarrow>
          if opened \<noteq> None \<and> unconfirmed = None then (s, Inr ())
          else write_application env d name email pw from unconfirmed s))"

definition reg_apply ::
  "outside \<Rightarrow> draw \<Rightarrow> ustr \<Rightarrow> ustr \<Rightarrow> ustr \<Rightarrow> ustr option \<Rightarrow> signups \<Rightarrow> signups \<times> unit result" where
  "reg_apply env d username email chosen from s =
     (let name = trim username in
      case and_then (require_open s) (\<lambda>_. and_then (normalise_address (out_lower env) email) (\<lambda>address.
             and_then (check_strength chosen) (\<lambda>_. and_then (check_username name) (\<lambda>_. Inr address)))) of
        Inl f \<Rightarrow> (s, Inl f)
      | Inr email \<Rightarrow>
          let (b, limited) = (case from of
                Some ip \<Rightarrow> take_limits [REGISTER_PER_HOUR, REGISTER_PER_DAY] ip (dr_instant d) (su_rates s)
              | None \<Rightarrow> (su_rates s, Inr ()));
              s = s\<lparr>su_rates := b\<rparr>;
              opened = reg_by_email (su_regs s) email;
              unconfirmed = (case opened of
                Some r \<Rightarrow> if reg_state r = EmailUnverified then Some (reg_id r) else None | None \<Rightarrow> None)
          in case and_then limited (\<lambda>_.
                 and_then (claim_name_for_sign_up (su_users s) (su_regs s) name unconfirmed) (\<lambda>_.
                 password_hash (out_encode env) (dr_salt d) chosen)) of
               Inl f \<Rightarrow> (s, Inl f)
             | Inr pw \<Rightarrow> open_application env d name email pw from opened unconfirmed s)"

text \<open>\<open>admit\<close>: the account is written and the application removed, then the helper is asked.\<close>

definition set_system :: "system_user_state \<times> nat option \<times> ustr option \<Rightarrow> id \<Rightarrow> user_row list \<Rightarrow> user_row list" where
  "set_system a i users = update_where (\<lambda>u. u_id u = i)
     (\<lambda>u. u\<lparr>u_system_state := fst a, u_system_uid := fst (snd a), u_system_error := snd (snd a)\<rparr>) users"

definition admitted :: "registration_row \<Rightarrow> ustr \<Rightarrow> user_limits \<Rightarrow> new_user" where
  "admitted r pw limits = \<lparr>nu_username = reg_username r, nu_email = Some (reg_email r),
     nu_origin = ByRegistration, nu_password_hash = pw, nu_role = User,
     nu_must_change_password = False, nu_limits = limits\<rparr>"

definition admit :: "draw \<Rightarrow> registration_row \<Rightarrow> ustr \<Rightarrow> signups \<Rightarrow> signups \<times> id result" where
  "admit d r pw s =
     (case and_then (claim_name_in_users (su_users s) (reg_username r) None) (\<lambda>_.
        case users_insert (su_users s) (dr_id d) (admitted r pw (su_default_limits s)) (dr_now d) of
          Inl complaint \<Rightarrow> Inl (map_taken complaint)
        | Inr (users, row) \<Rightarrow> Inr (users, row)) of
        Inl f \<Rightarrow> (s, Inl f)
      | Inr (users, row) \<Rightarrow>
          (s\<lparr>su_users := set_system (dr_system d) (u_id row) users,
             su_regs := reg_remove (su_regs s) (reg_id r)\<rparr>, Inr (u_id row)))"

datatype verified = Active | Awaiting

definition tell_the_admins :: "draw \<Rightarrow> registration_row \<Rightarrow> signups \<Rightarrow> signups" where
  "tell_the_admins d r s = fold (\<lambda>u. send_letter d (AccountAwaitingReview (u_id u) (reg_username r)))
     (filter (\<lambda>u. u_role u = Admin \<and> u_email u \<noteq> None) (su_users s)) s"

text \<open>\<open>verify\<close> once the link is known to be alive.\<close>

definition confirm ::
  "outside \<Rightarrow> draw \<Rightarrow> ustr \<Rightarrow> bool \<Rightarrow> registration_row \<Rightarrow> signups \<Rightarrow> signups \<times> verified result" where
  "confirm env d token requires_approval r s =
     (if \<not> requires_approval
      then (case reg_password_for_token (out_digest env) (su_regs s) (reg_id r) token of
              None \<Rightarrow> (s, Inl dead_link)
            | Some pw \<Rightarrow> (case admit d r pw s of (s, Inl f) \<Rightarrow> (s, Inl f) | (s, Inr _) \<Rightarrow> (s, Inr Active)))
      else (let (t, moved) = reg_mark_verified (out_digest env) (su_regs s) (reg_id r) token (dr_now d);
                s = s\<lparr>su_regs := t\<rparr>
            in if moved then (tell_the_admins d r s, Inr Awaiting)
               else (case reg_by_token (out_digest env) (su_regs s) token of
                       Some _ \<Rightarrow> (s, Inr Awaiting) | None \<Rightarrow> (s, Inl dead_link))))"

definition reg_verify ::
  "outside \<Rightarrow> draw \<Rightarrow> ustr \<Rightarrow> ustr option \<Rightarrow> signups \<Rightarrow> signups \<times> verified result" where
  "reg_verify env d token from s =
     (case require_open s of
        Inl f \<Rightarrow> (s, Inl f)
      | Inr requires_approval \<Rightarrow>
          let waiting = (case from of
                Some ip \<Rightarrow> bucket_check (su_rates s) VERIFY_ATTEMPTS ip (dr_instant d) | None \<Rightarrow> None)
          in case waiting of
               Some seconds \<Rightarrow> (s, Inl (rate_limited seconds))
             | None \<Rightarrow>
                 (case reg_by_token (out_digest env) (su_regs s) token of
                    None \<Rightarrow>
                      ((case from of
                          Some ip \<Rightarrow> s\<lparr>su_rates := bucket_note (su_rates s) VERIFY_ATTEMPTS ip (dr_instant d)\<rparr>
                        | None \<Rightarrow> s), Inl dead_link)
                  | Some r \<Rightarrow>
                      if reg_state r = AwaitingApproval then (s, Inr Awaiting)
                      else if is_some_and (\<lambda>until. until \<le> dr_now d) (reg_token_expires_at r)
                      then (s, Inl (failure_new 410 ''token_expired''))
                      else confirm env d token requires_approval r s))"

definition mint_and_send :: "outside \<Rightarrow> draw \<Rightarrow> registration_row \<Rightarrow> signups \<Rightarrow> signups" where
  "mint_and_send env d r s =
     (let (b, waiting) = bucket_take (su_rates s) RESEND_PER_ADDRESS (reg_email r) (dr_instant d);
          s = s\<lparr>su_rates := b\<rparr>
      in if waiting \<noteq> None then s
         else if TOKENS_PER_APPLICATION \<le> reg_tokens_sent r then s
         else (let (t, applicant) = reg_replace_token (su_regs s) (reg_id r) (out_digest env (dr_token d))
                     (dr_now d + TOKEN_LIFE) (dr_now d);
                   s = s\<lparr>su_regs := t\<rparr>
               in case applicant of
                    None \<Rightarrow> s
                  | Some name \<Rightarrow> send_letter d (VerifyEmail (reg_email r) name (dr_token d)) s))"

definition reg_resend :: "outside \<Rightarrow> draw \<Rightarrow> ustr \<Rightarrow> signups \<Rightarrow> signups \<times> unit result" where
  "reg_resend env d email s =
     (case require_open s of
        Inl f \<Rightarrow> (s, Inl f)
      | Inr _ \<Rightarrow>
          (case normalise_address (out_lower env) email of
             Inl _ \<Rightarrow> (s, Inr ())
           | Inr email \<Rightarrow>
               (case reg_by_email (su_regs s) email of
                  None \<Rightarrow> (s, Inr ())
                | Some r \<Rightarrow>
                    if reg_state r \<noteq> EmailUnverified then (s, Inr ())
                    else (mint_and_send env d r s, Inr ()))))"

definition reg_application :: "signups \<Rightarrow> id \<Rightarrow> registration_row result" where
  "reg_application s i =
     (case reg_by_id (su_regs s) i of None \<Rightarrow> Inl (not_found ''registration_not_found'') | Some r \<Rightarrow> Inr r)"

definition reg_approve :: "draw \<Rightarrow> id \<Rightarrow> signups \<Rightarrow> signups \<times> id result" where
  "reg_approve d i s =
     (case reg_application s i of
        Inl f \<Rightarrow> (s, Inl f)
      | Inr r \<Rightarrow>
          if reg_state r \<noteq> AwaitingApproval then (s, Inl (conflict ''invalid_state''))
          else (case admit d r (reg_password_hash r) s of
                  (s, Inl f) \<Rightarrow> (s, Inl f)
                | (s, Inr u) \<Rightarrow> (send_letter d (AccountApproved u (reg_email r)) s, Inr u)))"

definition reg_reject :: "draw \<Rightarrow> id \<Rightarrow> ustr option \<Rightarrow> signups \<Rightarrow> signups \<times> unit result" where
  "reg_reject d i reason s =
     (case reg_application s i of
        Inl f \<Rightarrow> (s, Inl f)
      | Inr r \<Rightarrow>
          (send_letter d (AccountRejected (reg_email r) (reg_username r))
             (s\<lparr>su_regs := reg_remove (su_regs s) (reg_id r),
                su_blocks := block_address (su_blocks s) (reg_email r)
                  (Some (dr_now d + BLOCK_AFTER_REJECTION)) reason (dr_now d)\<rparr>), Inr ()))"

definition reg_sweep_now :: "moment \<Rightarrow> signups \<Rightarrow> signups \<times> swept" where
  "reg_sweep_now now s = reg_sweep (now - KEEP_UNVERIFIED) (now - KEEP_WAITING) now s"


subsection \<open>What every handler keeps\<close>

definition row_ok :: "user_row list \<Rightarrow> registration_row \<Rightarrow> bool" where
  "row_ok users r = ((\<forall>u \<in> set users. u_email u \<noteq> Some (reg_email r)) \<and>
     (reg_state r = AwaitingApproval \<longleftrightarrow> reg_verified_at r \<noteq> None) \<and>
     reg_tokens_sent r \<le> TOKENS_PER_APPLICATION)"

definition regs_ok :: "user_row list \<Rightarrow> registration_row list \<Rightarrow> bool" where
  "regs_ok users t = (distinct (map reg_id t) \<and> distinct (map reg_username t) \<and> distinct (map reg_email t) \<and>
     distinct (map reg_token_hash t) \<and> (\<forall>r \<in> set t. row_ok users r))"

definition accounts_ok :: "user_row list \<Rightarrow> bool" where
  "accounts_ok users = (distinct (map u_id users) \<and> distinct (map u_username users) \<and>
     distinct (filter (\<lambda>e. e \<noteq> None) (map u_email users)))"

text \<open>A link leads to the address it was sent to, and nowhere else.\<close>

definition links_ok :: "(ustr \<Rightarrow> ustr) \<Rightarrow> letter list \<Rightarrow> registration_row list \<Rightarrow> bool" where
  "links_ok digest ls t = (\<forall>l \<in> set ls. \<forall>to name token. l = VerifyEmail to name token \<longrightarrow>
     (\<forall>r \<in> set t. reg_token_hash r = digest token \<longrightarrow> reg_email r = to))"

definition signups_ok :: "outside \<Rightarrow> signups \<Rightarrow> bool" where
  "signups_ok env s = (accounts_ok (su_users s) \<and> regs_ok (su_users s) (su_regs s) \<and>
     links_ok (out_digest env) (su_letters s) (su_regs s))"

text \<open>A fresh identifier is nobody's, a fresh token was never sent and is no application's.\<close>

definition fresh_draw :: "outside \<Rightarrow> draw \<Rightarrow> signups \<Rightarrow> bool" where
  "fresh_draw env d s = (dr_id d \<notin> u_id ` set (su_users s) \<and> dr_id d \<notin> reg_id ` set (su_regs s) \<and>
     out_digest env (dr_token d) \<notin> reg_token_hash ` set (su_regs s) \<and>
     (\<forall>l \<in> set (su_letters s). \<forall>to name token. l = VerifyEmail to name token \<longrightarrow>
        out_digest env token \<noteq> out_digest env (dr_token d)))"

lemma regs_ok_subset:
  "regs_ok users t \<Longrightarrow> regs_ok users (delete_where p t)"
  by (auto simp: regs_ok_def delete_where_def distinct_map_filter)

lemma links_ok_subset: "links_ok digest ls t \<Longrightarrow> set t' \<subseteq> set t \<Longrightarrow> links_ok digest ls t'"
  unfolding links_ok_def by blast

lemma distinct_update_one:
  "distinct (map j t) \<Longrightarrow> distinct (map k t) \<Longrightarrow> (\<And>r. p r \<Longrightarrow> j r = i) \<Longrightarrow>
    (\<And>r. r \<in> set t \<Longrightarrow> \<not> p r \<Longrightarrow> k r \<noteq> c) \<Longrightarrow> (\<And>r. k (f r) = c) \<Longrightarrow> distinct (map k (update_where p f t))"
proof (induction t)
  case (Cons x t)
  have IH: "distinct (map k (update_where p f t))" using Cons by simp
  show ?case
  proof (cases "p x")
    case True
    have "\<not> p y" if "y \<in> set t" for y
      using Cons.prems(1,3) True that by (metis distinct.simps(2) image_eqI list.set_map list.simps(9))
    then have "update_where p f t = t" by (simp add: update_where_def map_idI)
    moreover have "c \<notin> k ` set t" using Cons.prems(4) \<open>\<And>y. y \<in> set t \<Longrightarrow> \<not> p y\<close> by auto
    ultimately show ?thesis using IH True Cons.prems(5) by (simp add: update_where_def)
  next
    case False
    then have "k x \<noteq> c" using Cons.prems(4) by simp
    then have "k x \<notin> k ` set (update_where p f t)"
      using Cons.prems(2,5) by (auto simp: update_where_def)
    moreover have "update_where p f (x # t) = x # update_where p f t" using False by (simp add: update_where_def)
    ultimately show ?thesis using IH by simp
  qed
qed (simp add: update_where_def)

lemma distinct_update_same: "(\<And>r. k (f r) = k r) \<Longrightarrow> distinct (map k t) \<Longrightarrow> distinct (map k (update_where p f t))"
  by (simp add: map_update)

lemma regs_insert_ok:
  assumes "regs_ok users t" "reg_insert t i new now = Inr t'" "i \<notin> reg_id ` set t"
    "\<forall>u \<in> set users. u_email u \<noteq> Some (na_email new)"
  shows "regs_ok users t' \<and> t' = t @ [application_row i new now]"
  using assms
  by (auto simp: regs_ok_def reg_insert_def application_row_def row_ok_def TOKENS_PER_APPLICATION_def split: if_splits)

lemma regs_take_over_ok:
  assumes ok: "regs_ok users t" and taken: "reg_take_over t i new now = Inr (t', b)"
  shows "regs_ok users t' \<and> (t' = t \<or> t' = update_where
    (\<lambda>r. reg_id r = i \<and> reg_email r = na_email new \<and> reg_state r = EmailUnverified) (taken_over new now) t)"
proof (cases "t' = t")
  case False
  let ?mine = "\<lambda>r. reg_id r = i \<and> reg_email r = na_email new \<and> reg_state r = EmailUnverified"
  have t': "t' = update_where ?mine (taken_over new now) t"
    and n: "\<And>r. r \<in> set t \<Longrightarrow> \<not> ?mine r \<Longrightarrow> reg_username r \<noteq> na_username new"
    and h: "\<And>r. r \<in> set t \<Longrightarrow> \<not> ?mine r \<Longrightarrow> reg_token_hash r \<noteq> na_token_hash new"
    using taken False by (auto simp: reg_take_over_def Let_def split: if_splits)
  have k: "reg_id (taken_over new now r) = reg_id r" "reg_email (taken_over new now r) = reg_email r"
    "reg_username (taken_over new now r) = na_username new" "reg_token_hash (taken_over new now r) = na_token_hash new" for r
    by (simp_all add: taken_over_def)
  have "distinct (map reg_username t')"
    unfolding t'
  proof (rule distinct_update_one [where j = reg_id and i = i])
    show "reg_username r \<noteq> na_username new" if "r \<in> set t" "\<not> ?mine r" for r using that by (rule n)
  qed (use ok in \<open>simp_all add: regs_ok_def k\<close>)
  moreover have "distinct (map reg_token_hash t')"
    unfolding t'
  proof (rule distinct_update_one [where j = reg_id and i = i])
    show "reg_token_hash r \<noteq> na_token_hash new" if "r \<in> set t" "\<not> ?mine r" for r using that by (rule h)
  qed (use ok in \<open>simp_all add: regs_ok_def k\<close>)
  moreover have "distinct (map reg_id t')" "distinct (map reg_email t')"
    using ok unfolding t' regs_ok_def by (auto intro!: distinct_update_same simp: k)
  moreover have "row_ok users r" if "r \<in> set t'" for r
  proof -
    obtain q where q: "q \<in> set t" "r = (if ?mine q then taken_over new now q else q)"
      using \<open>r \<in> set t'\<close> unfolding t' in_update by blast
    have "row_ok users q" using ok q(1) by (simp add: regs_ok_def)
    with q(2) show ?thesis
      by (auto simp: row_ok_def taken_over_def TOKENS_PER_APPLICATION_def)
  qed
  ultimately show ?thesis using t' by (simp add: regs_ok_def)
qed (use ok in simp)

lemma regs_replace_ok:
  assumes ok: "regs_ok users t" and new: "h \<notin> reg_token_hash ` set t"
    and few: "\<And>r. r \<in> set t \<Longrightarrow> reg_id r = i \<Longrightarrow> reg_tokens_sent r < TOKENS_PER_APPLICATION"
  shows "regs_ok users (fst (reg_replace_token t i h expires now))"
proof -
  let ?f = "\<lambda>r. r\<lparr>reg_token_hash := h, reg_token_expires_at := Some expires,
               reg_token_sent_at := Some now, reg_tokens_sent := reg_tokens_sent r + 1\<rparr>"
  have "distinct (map reg_token_hash (update_where (\<lambda>r. reg_id r = i) ?f t))"
    using ok new unfolding regs_ok_def by (auto intro!: distinct_update_one [where j = reg_id and i = i])
  moreover have "\<forall>r \<in> set (update_where (\<lambda>r. reg_id r = i) ?f t). row_ok users r"
    by (rule update_all) (use ok few in \<open>auto simp: regs_ok_def row_ok_def Suc_le_eq\<close>)
  ultimately show ?thesis
    using ok by (simp add: reg_replace_token_def Let_def regs_ok_def map_update)
qed

lemma regs_verified_ok:
  assumes ok: "regs_ok users t"
  shows "regs_ok users (fst (reg_mark_verified digest t i token now))"
proof -
  have "\<forall>r \<in> set (fst (reg_mark_verified digest t i token now)). row_ok users r"
    unfolding reg_mark_verified_def Let_def fst_conv
    by (rule update_all) (use ok in \<open>auto simp: regs_ok_def row_ok_def\<close>)
  with ok show ?thesis by (simp add: reg_mark_verified_def Let_def regs_ok_def map_update)
qed


lemma links_append:
  "links_ok digest (ls @ [l]) t \<longleftrightarrow> links_ok digest ls t \<and>
    (\<forall>to name token. l = VerifyEmail to name token \<longrightarrow> (\<forall>r \<in> set t. reg_token_hash r = digest token \<longrightarrow> reg_email r = to))"
  by (auto simp: links_ok_def)

lemma send_letter_simps [simp]:
  "su_users (send_letter d l s) = su_users s" "su_regs (send_letter d l s) = su_regs s"
  "su_letters (send_letter d l s) = (if dr_mail_taken d then su_letters s @ [l] else su_letters s)"
  by (simp_all add: send_letter_def)

text \<open>What \<open>signups_ok\<close> reads of a state; a letter that carries no link does not matter.\<close>

lemma signups_ok_parts:
  "signups_ok env s \<Longrightarrow> su_users s' = su_users s \<Longrightarrow> su_regs s' = su_regs s \<Longrightarrow> su_letters s' = su_letters s \<Longrightarrow>
    signups_ok env s'"
  by (simp add: signups_ok_def)

lemma send_plain_ok: "signups_ok env s \<Longrightarrow> (\<And>to name token. l \<noteq> VerifyEmail to name token) \<Longrightarrow>
    signups_ok env (send_letter d l s)"
  by (auto simp: signups_ok_def links_append)

lemma tell_the_admins_ok: "signups_ok env s \<Longrightarrow> signups_ok env (tell_the_admins d r s)"
proof -
  have "signups_ok env s \<Longrightarrow> signups_ok env (fold (\<lambda>u. send_letter d (AccountAwaitingReview (u_id u) n)) us s)" for us n
    by (induction us arbitrary: s) (auto intro: send_plain_ok)
  then show "signups_ok env s \<Longrightarrow> signups_ok env (tell_the_admins d r s)" by (simp add: tell_the_admins_def)
qed

lemma fewer_regs_ok: "signups_ok env s \<Longrightarrow> signups_ok env (s\<lparr>su_regs := delete_where p (su_regs s)\<rparr>)"
  using regs_ok_subset links_ok_subset [of "out_digest env" "su_letters s" "su_regs s" "delete_where p (su_regs s)"]
  by (auto simp: signups_ok_def set_delete)

lemma write_application_ok:
  assumes ok: "signups_ok env s" and fresh: "fresh_draw env d s"
    and free: "\<forall>u \<in> set (su_users s). u_email u \<noteq> Some email"
  shows "signups_ok env (fst (write_application env d name email pw from unconfirmed s))"
proof -
  let ?h = "out_digest env (dr_token d)"
  let ?new = "\<lparr>na_username = name, na_email = email, na_password_hash = pw, na_signup_ip = from,
                 na_token_hash = ?h, na_token_expires_at = dr_now d + TOKEN_LIFE\<rparr>"
  have finished: "signups_ok env s' \<and> signups_ok env (fst (if \<not> dr_mail_taken d then (s'\<lparr>su_regs := reg_remove t i\<rparr>, Inr ())
       else (let s = send_letter d (VerifyEmail email name (dr_token d)) s' in
             (s\<lparr>su_rates := bucket_note (su_rates s) RESEND_PER_ADDRESS email (dr_instant d)\<rparr>, Inr ()))))"
    (is "_ \<and> signups_ok env (fst ?rest)")
    if s': "s' = s\<lparr>su_regs := t\<rparr>" and t: "regs_ok (su_users s) t"
      and rows: "\<And>r. r \<in> set t \<Longrightarrow> r \<in> set (su_regs s) \<or> reg_token_hash r = ?h \<and> reg_email r = email"
    for s' t i
  proof -
    have "links_ok (out_digest env) (su_letters s) t"
      unfolding links_ok_def
    proof (intro ballI allI impI)
      fix l to n token r
      assume l: "l \<in> set (su_letters s)" "l = VerifyEmail to n token" and r: "r \<in> set t" "reg_token_hash r = out_digest env token"
      then have "reg_token_hash r \<noteq> ?h" using fresh by (auto simp: fresh_draw_def)
      then have "r \<in> set (su_regs s)" using rows [OF r(1)] by blast
      with l r ok show "reg_email r = to" by (auto simp: signups_ok_def links_ok_def)
    qed
    moreover have "reg_email r = email" if "r \<in> set t" "reg_token_hash r = ?h" for r
      using rows [OF that(1)] that(2) fresh by (force simp: fresh_draw_def)
    ultimately have kept: "signups_ok env s'"
      and sent: "dr_mail_taken d \<Longrightarrow> signups_ok env (send_letter d (VerifyEmail email name (dr_token d)) s')"
      using ok t by (auto simp: s' signups_ok_def links_append)
    then show "signups_ok env s' \<and> signups_ok env (fst ?rest)"
      using fewer_regs_ok [of env s'] by (auto simp: s' Let_def reg_remove_def intro: signups_ok_parts)
  qed
  show ?thesis
  proof (cases unconfirmed)
    case None
    show ?thesis
    proof (cases "reg_insert (su_regs s) (dr_id d) ?new (dr_now d)")
      case (Inr t)
      have ok': "regs_ok (su_users s) (su_regs s)" using ok by (simp add: signups_ok_def)
      have new: "dr_id d \<notin> reg_id ` set (su_regs s)" using fresh by (simp add: fresh_draw_def)
      have both: "regs_ok (su_users s) t \<and> t = su_regs s @ [application_row (dr_id d) ?new (dr_now d)]"
        by (rule regs_insert_ok [OF ok' Inr new]) (use free in simp)
      note t = both [THEN conjunct1] and t_is = both [THEN conjunct2]
      have rows: "r \<in> set (su_regs s) \<or> reg_token_hash r = ?h \<and> reg_email r = email" if "r \<in> set t" for r
        using that unfolding t_is by (auto simp: application_row_def)
      from finished [OF refl t rows, of "dr_id d"] None Inr show ?thesis
        by (cases "dr_mail_taken d") (simp_all add: write_application_def Let_def)
    qed (use None ok in \<open>simp add: write_application_def Let_def\<close>)
  next
    case (Some i)
    show ?thesis
    proof (cases "reg_take_over (su_regs s) i ?new (dr_now d)")
      case (Inr tb)
      obtain t b where tb: "tb = (t, b)" by (cases tb)
      have ok': "regs_ok (su_users s) (su_regs s)" using ok by (simp add: signups_ok_def)
      have taken: "regs_ok (su_users s) t \<and> (t = su_regs s \<or> t = update_where
          (\<lambda>r. reg_id r = i \<and> reg_email r = na_email ?new \<and> reg_state r = EmailUnverified)
          (taken_over ?new (dr_now d)) (su_regs s))"
        by (rule regs_take_over_ok [OF ok' Inr [unfolded tb]])
      then have t: "regs_ok (su_users s) t" ..
      have rows: "r \<in> set (su_regs s) \<or> reg_token_hash r = ?h \<and> reg_email r = email" if "r \<in> set t" for r
        using taken that by (auto simp: in_update taken_over_def)
      from finished [OF refl t rows, of i] Some Inr tb show ?thesis
        by (cases b; cases "dr_mail_taken d") (simp_all add: write_application_def Let_def)
    qed (use Some ok in \<open>simp add: write_application_def Let_def\<close>)
  qed
qed


lemma set_system_simps [simp]:
  "map u_id (set_system a i users) = map u_id users" "map u_username (set_system a i users) = map u_username users"
  "map u_email (set_system a i users) = map u_email users"
  by (simp_all add: set_system_def map_update)

lemma accounts_okI:
  "accounts_ok users \<Longrightarrow> map u_id users' = map u_id users \<Longrightarrow> map u_username users' = map u_username users \<Longrightarrow>
    map u_email users' = map u_email users \<Longrightarrow> accounts_ok users'"
  by (simp add: accounts_ok_def)

lemma row_ok_image:
  "row_ok users r \<longleftrightarrow> Some (reg_email r) \<notin> u_email ` set users \<and>
     (reg_state r = AwaitingApproval \<longleftrightarrow> reg_verified_at r \<noteq> None) \<and> reg_tokens_sent r \<le> TOKENS_PER_APPLICATION"
  by (auto simp: row_ok_def image_iff)

lemma row_okI:
  "row_ok users r \<Longrightarrow> u_email ` set users' = u_email ` set users \<Longrightarrow>
    row_ok users' r"
  by (simp add: row_ok_image)

lemma accounts_insert_ok:
  assumes "accounts_ok users" "i \<notin> u_id ` set users" "users_insert users i new now = Inr (users', row)"
  shows "accounts_ok users' \<and> users' = users @ [new_row i new now] \<and> row = new_row i new now"
proof -
  have row: "users' = users @ [new_row i new now]" "row = new_row i new now"
    and name: "\<forall>u \<in> set users. u_username u \<noteq> nu_username new"
    and email: "nu_email new \<noteq> None \<Longrightarrow> \<forall>u \<in> set users. u_email u \<noteq> nu_email new"
    using assms(3) by (auto simp: users_insert_def Let_def split: if_splits)
  have "u_id (new_row i new now) = i" "u_username (new_row i new now) = nu_username new"
    "u_email (new_row i new now) = nu_email new" by (simp_all add: new_row_def)
  moreover have "nu_username new \<notin> u_username ` set users" using name by force
  moreover have "nu_email new \<noteq> None \<Longrightarrow> nu_email new \<notin> u_email ` set users" using email by force
  ultimately show ?thesis using assms(1,2) by (auto simp: accounts_ok_def row)
qed

text \<open>What \<open>admit\<close> does when it succeeds, and that it changes nothing when it does not.\<close>

lemma admit_cases:
  assumes "admit d r pw s = (s', x)"
  obtains f where "x = Inl f" "s' = s"
  | users row where "x = Inr (u_id row)"
      "users_insert (su_users s) (dr_id d) (admitted r pw (su_default_limits s)) (dr_now d) = Inr (users, row)"
      "s' = s\<lparr>su_users := set_system (dr_system d) (u_id row) users, su_regs := reg_remove (su_regs s) (reg_id r)\<rparr>"
proof (cases "claim_name_in_users (su_users s) (reg_username r) None")
  case (Inl f)
  show thesis by (rule that(1) [of f]) (use assms Inl in \<open>simp_all add: admit_def and_then_def\<close>)
next
  case (Inr u)
  show thesis
  proof (cases "users_insert (su_users s) (dr_id d) (admitted r pw (su_default_limits s)) (dr_now d)")
    case complaint: (Inl c)
    show thesis
      by (rule that(1) [of "map_taken c"]) (use assms Inr complaint in \<open>simp_all add: admit_def and_then_def\<close>)
  next
    case insert: (Inr p)
    obtain users row where "p = (users, row)" by (cases p)
    with assms Inr insert that(2) [of row users] show thesis by (simp add: admit_def and_then_def)
  qed
qed

lemma admit_ok:
  assumes ok: "signups_ok env s" and fresh: "dr_id d \<notin> u_id ` set (su_users s)" and r: "r \<in> set (su_regs s)"
  shows "signups_ok env (fst (admit d r pw s))"
proof -
  obtain s' x where run: "admit d r pw s = (s', x)" by (cases "admit d r pw s")
  then show ?thesis
  proof (cases rule: admit_cases)
    case (2 users row)
    have accounts: "accounts_ok (su_users s)" using ok by (simp add: signups_ok_def)
    note new = accounts_insert_ok [OF accounts fresh 2(2)]
    then have row: "u_username row = reg_username r" "u_email row = Some (reg_email r)"
      and users: "users = su_users s @ [row]" by (simp_all add: new_row_def admitted_def)
    have "accounts_ok (su_users s')"
      by (rule accounts_okI [OF new [THEN conjunct1]]) (simp_all add: 2(3))
    moreover have "row_ok (su_users s') q" if "q \<in> set (su_regs s')" for q
    proof -
      have q: "q \<in> set (su_regs s)" "reg_id q \<noteq> reg_id r"
        using that by (auto simp: 2(3) reg_remove_def set_delete)
      then have "reg_username q \<noteq> reg_username r" "reg_email q \<noteq> reg_email r" "row_ok (su_users s) q"
        using ok r by (auto simp: signups_ok_def regs_ok_def dest: inj_onD [OF distinct_map [THEN iffD1, THEN conjunct2]])
      then have "row_ok users q" using row by (auto simp: row_ok_def users)
      then show ?thesis
        by (rule row_okI) (simp_all add: 2(3) flip: set_map)
    qed
    moreover have "regs_ok (su_users s) (su_regs s')" "links_ok (out_digest env) (su_letters s') (su_regs s')"
      using ok 2(3) regs_ok_subset links_ok_subset [of "out_digest env" "su_letters s" "su_regs s" "su_regs s'"]
      by (auto simp: signups_ok_def reg_remove_def set_delete)
    ultimately show ?thesis by (simp add: run signups_ok_def regs_ok_def)
  qed (use run ok in simp)
qed


lemma open_application_ok:
  assumes ok: "signups_ok env s" and fresh: "fresh_draw env d s"
  shows "signups_ok env (fst (open_application env d name email pw from opened unconfirmed s))"
proof (cases "users_by_email (su_users s) email")
  case None
  then have "\<forall>u \<in> set (su_users s). u_email u \<noteq> Some email"
    by (auto simp: users_by_email_def fetch_None)
  with None ok fresh show ?thesis by (simp add: open_application_def write_application_ok)
qed (use ok in \<open>simp add: open_application_def send_plain_ok\<close>)

text \<open>An application that is refused leaves only its trace in the rate limits.\<close>

lemma reg_apply_cases:
  assumes "reg_apply env d username email chosen from s = (s', x)"
  obtains f b where "x = Inl f" "s' = s\<lparr>su_rates := b\<rparr>"
  | b address pw opened unconfirmed where "normalise_address (out_lower env) email = Inr address"
      "opened = reg_by_email (su_regs s) address"
      "unconfirmed = (case opened of Some r \<Rightarrow> if reg_state r = EmailUnverified then Some (reg_id r) else None | None \<Rightarrow> None)"
      "claim_name_for_sign_up (su_users s) (su_regs s) (trim username) unconfirmed = Inr ()"
      "open_application env d (trim username) address pw from opened unconfirmed (s\<lparr>su_rates := b\<rparr>) = (s', x)"
proof (cases "and_then (require_open s) (\<lambda>_. and_then (normalise_address (out_lower env) email) (\<lambda>address.
             and_then (check_strength chosen) (\<lambda>_. and_then (check_username (trim username)) (\<lambda>_. Inr address))))")
  case (Inl f)
  with assms have "x = Inl f" "s' = s" by (simp_all add: reg_apply_def)
  then show thesis using that(1) [of f "su_rates s"] by simp
next
  case (Inr address)
  then have address: "normalise_address (out_lower env) email = Inr address"
    by (auto simp: and_then_Inr)
  define taken where "taken = (case from of
      Some ip \<Rightarrow> take_limits [REGISTER_PER_HOUR, REGISTER_PER_DAY] ip (dr_instant d) (su_rates s)
    | None \<Rightarrow> (su_rates s, Inr ()))"
  obtain b limited where b: "taken = (b, limited)" by (cases taken)
  define opened where "opened = reg_by_email (su_regs s) address"
  define unconfirmed where "unconfirmed = (case opened of
    Some r \<Rightarrow> if reg_state r = EmailUnverified then Some (reg_id r) else None | None \<Rightarrow> None)"
  define checks where "checks = and_then limited (\<lambda>_. and_then
    (claim_name_for_sign_up (su_users s) (su_regs s) (trim username) unconfirmed) (\<lambda>_. password_hash (out_encode env) (dr_salt d) chosen))"
  have run: "(s', x) = (case checks of Inl f \<Rightarrow> (s\<lparr>su_rates := b\<rparr>, Inl f)
    | Inr pw \<Rightarrow> open_application env d (trim username) address pw from opened unconfirmed (s\<lparr>su_rates := b\<rparr>))"
    using assms unfolding reg_apply_def Let_def Inr taken_def [symmetric] b checks_def unconfirmed_def opened_def
    by (simp split: sum.split_asm sum.split)
  show thesis
  proof (cases checks)
    case (Inl f)
    with run that(1) [of f b] show thesis by simp
  next
    case pw: (Inr pw)
    then have "claim_name_for_sign_up (su_users s) (su_regs s) (trim username) unconfirmed = Inr ()"
      by (auto simp: checks_def and_then_Inr)
    from that(2) [OF address opened_def unconfirmed_def this] run pw show thesis by simp
  qed
qed

lemma reg_apply_ok:
  assumes ok: "signups_ok env s" and fresh: "fresh_draw env d s"
  shows "signups_ok env (fst (reg_apply env d username email chosen from s))"
proof -
  obtain s' x where run: "reg_apply env d username email chosen from s = (s', x)" by fastforce
  then show ?thesis
  proof (cases rule: reg_apply_cases)
    case (2 b address pw opened unconfirmed)
    have "signups_ok env (s\<lparr>su_rates := b\<rparr>)" "fresh_draw env d (s\<lparr>su_rates := b\<rparr>)"
      using ok fresh by (simp_all add: signups_ok_def fresh_draw_def)
    from open_application_ok [OF this, of "trim username" address pw "from" opened unconfirmed] 2 run show ?thesis by simp
  qed (use ok run in \<open>simp add: signups_ok_def\<close>)
qed

text \<open>Confirming, sending again, approving, rejecting and sweeping.\<close>

lemma reg_by_token_in: "reg_by_token digest t token = Some r \<Longrightarrow> r \<in> set t \<and> reg_token_hash r = digest token"
  by (auto simp: reg_by_token_def dest: fetch_SomeD)

lemma regs_replaced_ok:
  assumes ok: "signups_ok env s" and fresh: "fresh_draw env d s" and r: "r \<in> set (su_regs s)"
    and few: "reg_tokens_sent r < TOKENS_PER_APPLICATION"
    and t: "t = fst (reg_replace_token (su_regs s) (reg_id r) (out_digest env (dr_token d)) expires now)"
  shows "signups_ok env (s\<lparr>su_regs := t\<rparr>) \<and>
    (\<forall>q \<in> set t. reg_token_hash q = out_digest env (dr_token d) \<longrightarrow> reg_email q = reg_email r)"
proof -
  have one: "q = r" if "q \<in> set (su_regs s)" "reg_id q = reg_id r" for q
    using that r ok by (auto simp: signups_ok_def regs_ok_def dest: inj_onD [OF distinct_map [THEN iffD1, THEN conjunct2]])
  have "regs_ok (su_users s) t"
    unfolding t by (rule regs_replace_ok) (use ok fresh few one in \<open>auto simp: signups_ok_def fresh_draw_def\<close>)
  moreover have rows: "q \<in> set (su_regs s) \<or> reg_token_hash q = out_digest env (dr_token d) \<and> reg_email q = reg_email r"
    if "q \<in> set t" for q
  proof -
    obtain r0 where "r0 \<in> set (su_regs s)" "q = (if reg_id r0 = reg_id r
      then r0\<lparr>reg_token_hash := out_digest env (dr_token d), reg_token_expires_at := Some expires,
               reg_token_sent_at := Some now, reg_tokens_sent := reg_tokens_sent r0 + 1\<rparr> else r0)"
      using \<open>q \<in> set t\<close> unfolding t reg_replace_token_def Let_def fst_conv in_update by blast
    then show ?thesis using one [of r0] by (cases "reg_id r0 = reg_id r") auto
  qed
  moreover have "links_ok (out_digest env) (su_letters s) t"
    unfolding links_ok_def
  proof (intro ballI allI impI)
    fix l to name token q
    assume l: "l \<in> set (su_letters s)" "l = VerifyEmail to name token" and q: "q \<in> set t" "reg_token_hash q = out_digest env token"
    then have "q \<in> set (su_regs s)" using rows [OF q(1)] fresh by (auto simp: fresh_draw_def)
    with l q ok show "reg_email q = to" by (auto simp: signups_ok_def links_ok_def)
  qed
  moreover have "reg_email q = reg_email r" if "q \<in> set t" "reg_token_hash q = out_digest env (dr_token d)" for q
    using rows [OF that(1)] that(2) fresh by (force simp: fresh_draw_def)
  ultimately show ?thesis using ok by (simp add: signups_ok_def)
qed


lemma mint_and_send_ok:
  assumes ok: "signups_ok env s" and fresh: "fresh_draw env d s" and r: "r \<in> set (su_regs s)"
  shows "signups_ok env (mint_and_send env d r s)"
proof -
  obtain b waiting where b: "bucket_take (su_rates s) RESEND_PER_ADDRESS (reg_email r) (dr_instant d) = (b, waiting)"
    by fastforce
  let ?s = "s\<lparr>su_rates := b\<rparr>"
  obtain t applicant where t: "reg_replace_token (su_regs s) (reg_id r) (out_digest env (dr_token d))
      (dr_now d + TOKEN_LIFE) (dr_now d) = (t, applicant)" by fastforce
  have s: "signups_ok env ?s" "fresh_draw env d ?s" using ok fresh by (simp_all add: signups_ok_def fresh_draw_def)
  show ?thesis
  proof (cases "waiting \<noteq> None \<or> TOKENS_PER_APPLICATION \<le> reg_tokens_sent r")
    case False
    then have few: "reg_tokens_sent r < TOKENS_PER_APPLICATION" by simp
    have both: "signups_ok env (?s\<lparr>su_regs := t\<rparr>) \<and>
      (\<forall>q \<in> set t. reg_token_hash q = out_digest env (dr_token d) \<longrightarrow> reg_email q = reg_email r)"
      by (rule regs_replaced_ok [OF s _ few, where expires = "dr_now d + TOKEN_LIFE" and now = "dr_now d"])
        (use r t in simp_all)
    then have "signups_ok env (send_letter d (VerifyEmail (reg_email r) name (dr_token d)) (?s\<lparr>su_regs := t\<rparr>))" for name
      by (auto simp: signups_ok_def links_append)
    with both b t False show ?thesis by (auto simp: mint_and_send_def Let_def split: option.split)
  qed (use s b in \<open>auto simp: mint_and_send_def Let_def\<close>)
qed

lemma reg_resend_ok:
  assumes ok: "signups_ok env s" and fresh: "fresh_draw env d s"
  shows "signups_ok env (fst (reg_resend env d email s))"
proof -
  have "signups_ok env (mint_and_send env d r s)" if "reg_by_email (su_regs s) address = Some r" for r address
    by (rule mint_and_send_ok [OF ok fresh]) (use that in \<open>auto simp: reg_by_email_def dest: fetch_SomeD\<close>)
  with ok show ?thesis by (simp add: reg_resend_def split: sum.split option.split)
qed

lemma mark_verified_ok:
  "signups_ok env s \<Longrightarrow> signups_ok env (s\<lparr>su_regs := fst (reg_mark_verified digest (su_regs s) i token now)\<rparr>)"
  using regs_verified_ok [of "su_users s" "su_regs s" digest i token now]
  by (fastforce simp: signups_ok_def links_ok_def reg_mark_verified_def Let_def in_update)

text \<open>What a confirmation can do: admit the application whose link it was, mark it confirmed, or
  leave both tables alone.\<close>

lemma reg_verify_cases:
  assumes "reg_verify env d token from s = (s', x)"
  obtains (same) b where "s' = s\<lparr>su_rates := b\<rparr>"
  | (admit) r pw y where "reg_by_token (out_digest env) (su_regs s) token = Some r" "x = Inr Active"
      "reg_password_for_token (out_digest env) (su_regs s) (reg_id r) token = Some pw" "admit d r pw s = (s', Inr y)"
  | (mark) r where "reg_by_token (out_digest env) (su_regs s) token = Some r" "x = Inr Awaiting" "su_requires_approval s"
      "s' = tell_the_admins d r (s\<lparr>su_regs := fst (reg_mark_verified (out_digest env) (su_regs s) (reg_id r) token (dr_now d))\<rparr>)"
  | (race) r where "reg_by_token (out_digest env) (su_regs s) token = Some r" "su_requires_approval s"
      "s' = s\<lparr>su_regs := fst (reg_mark_verified (out_digest env) (su_regs s) (reg_id r) token (dr_now d))\<rparr>"
      "\<not> snd (reg_mark_verified (out_digest env) (su_regs s) (reg_id r) token (dr_now d))"
proof -
  have unchanged: "\<exists>b. q = q\<lparr>su_rates := b\<rparr>" for q :: signups by (rule exI [of _ "su_rates q"]) simp
  consider (other) "\<exists>b. s' = s\<lparr>su_rates := b\<rparr>"
    | (go) r approval where "require_open s = Inr approval" "reg_by_token (out_digest env) (su_regs s) token = Some r"
        "reg_state r \<noteq> AwaitingApproval" "confirm env d token approval r s = (s', x)"
  proof (cases "require_open s")
    case (Inl f)
    then show thesis using assms unchanged that(1) by (auto simp: reg_verify_def)
  next
    case (Inr approval)
    show thesis
    proof (cases "case from of Some ip \<Rightarrow> bucket_check (su_rates s) VERIFY_ATTEMPTS ip (dr_instant d) | None \<Rightarrow> None")
      case (Some seconds)
      then show thesis using assms Inr unchanged that(1) by (auto simp: reg_verify_def)
    next
      case None
      show thesis
      proof (cases "reg_by_token (out_digest env) (su_regs s) token")
        case missing: None
        then show thesis using assms Inr None unchanged that(1)
          by (auto simp: reg_verify_def split: option.splits)
      next
        case (Some r)
        then show thesis using assms Inr None unchanged that(1) that(2) [OF Inr Some]
          by (auto simp: reg_verify_def split: if_splits)
      qed
    qed
  qed
  then show thesis
  proof cases
    case (go r approval)
    show thesis
    proof (cases approval)
      case False
      show thesis
      proof (cases "reg_password_for_token (out_digest env) (su_regs s) (reg_id r) token")
        case None
        with go(4) False same [of "su_rates s"] show thesis by (simp add: confirm_def)
      next
        case (Some pw)
        obtain s1 y where y: "admit d r pw s = (s1, y)" by fastforce
        show thesis
        proof (cases y)
          case (Inl f)
          then have "s1 = s" using y by (auto elim: admit_cases)
          with go(4) False Some y Inl have "s' = s\<lparr>su_rates := su_rates s\<rparr>" by (simp add: confirm_def)
          then show thesis by (rule same)
        next
          case (Inr i)
          with go(4) False Some y have "s1 = s'" "x = Inr Active" by (simp_all add: confirm_def)
          with go(2) Some y Inr admit show thesis by blast
        qed
      qed
    next
      case True
      then have "su_requires_approval s" using go(1) by (simp add: require_open_def split: if_splits)
      with go(2,4) True mark [of r] race [of r] show thesis
        by (cases "snd (reg_mark_verified (out_digest env) (su_regs s) (reg_id r) token (dr_now d))")
          (simp_all add: confirm_def Let_def split_beta split: option.split_asm)
    qed
  qed (use same in blast)
qed


lemma reg_verify_ok:
  assumes ok: "signups_ok env s" and fresh: "fresh_draw env d s"
  shows "signups_ok env (fst (reg_verify env d token from s))"
proof -
  obtain s' x where run: "reg_verify env d token from s = (s', x)" by fastforce
  then show ?thesis
  proof (cases rule: reg_verify_cases)
    case (same b)
    with ok run show ?thesis by (simp add: signups_ok_def)
  next
    case (admit r pw y)
    have "signups_ok env (fst (admit d r pw s))"
      by (rule admit_ok [OF ok]) (use fresh reg_by_token_in [OF admit(1)] in \<open>simp_all add: fresh_draw_def\<close>)
    with admit run show ?thesis by simp
  next
    case (mark r)
    with ok run show ?thesis by (simp add: mark_verified_ok tell_the_admins_ok)
  next
    case (race r)
    with ok run show ?thesis by (simp add: mark_verified_ok)
  qed
qed

lemma reg_application_in: "reg_application s i = Inr r \<Longrightarrow> r \<in> set (su_regs s) \<and> reg_id r = i"
  by (auto simp: reg_application_def reg_by_id_def split: option.splits dest: fetch_SomeD)

lemma reg_approve_cases:
  assumes "reg_approve d i s = (s', x)"
  obtains (no) f where "x = Inl f" "s' = s"
  | (yes) r s1 u where "x = Inr u" "reg_application s i = Inr r" "reg_state r = AwaitingApproval"
      "admit d r (reg_password_hash r) s = (s1, Inr u)" "s' = send_letter d (AccountApproved u (reg_email r)) s1"
proof (cases "reg_application s i")
  case (Inl f)
  show thesis by (rule no [of f]) (use assms Inl in \<open>simp_all add: reg_approve_def\<close>)
next
  case (Inr r)
  obtain s1 y where y: "admit d r (reg_password_hash r) s = (s1, y)" by fastforce
  show thesis
  proof (cases "reg_state r = AwaitingApproval \<and> (\<exists>u. y = Inr u)")
    case True
    then obtain u where "y = Inr u" by blast
    with True y assms Inr yes [of u r s1] show thesis by (simp add: reg_approve_def)
  next
    case False
    then have "y = Inl f \<Longrightarrow> s1 = s" for f using y by (auto elim: admit_cases)
    with False y assms Inr no show thesis
      by (cases y; cases "reg_state r = AwaitingApproval") (auto simp: reg_approve_def)
  qed
qed

lemma reg_approve_ok:
  assumes ok: "signups_ok env s" and fresh: "fresh_draw env d s"
  shows "signups_ok env (fst (reg_approve d i s))"
proof -
  obtain s' x where run: "reg_approve d i s = (s', x)" by fastforce
  then show ?thesis
  proof (cases rule: reg_approve_cases)
    case (yes r s1 u)
    have "signups_ok env (fst (admit d r (reg_password_hash r) s))"
      by (rule admit_ok [OF ok]) (use fresh reg_application_in [OF yes(2)] in \<open>simp_all add: fresh_draw_def\<close>)
    with yes run show ?thesis by (simp add: send_plain_ok)
  qed (use ok run in simp)
qed

lemma reg_reject_ok: "signups_ok env s \<Longrightarrow> signups_ok env (fst (reg_reject d i reason s))"
proof -
  assume "signups_ok env s"
  then have "signups_ok env (s\<lparr>su_regs := reg_remove (su_regs s) j, su_blocks := b\<rparr>)" for j b
    using fewer_regs_ok [of env s "\<lambda>r. reg_id r = j"] by (simp add: signups_ok_def reg_remove_def)
  then show ?thesis using \<open>signups_ok env s\<close>
    by (auto simp: reg_reject_def split: sum.split intro: send_plain_ok)
qed

lemma reg_sweep_ok: "signups_ok env s \<Longrightarrow> signups_ok env (fst (reg_sweep_now now s))"
proof -
  assume ok: "signups_ok env s"
  have "signups_ok env (s\<lparr>su_regs := delete_where p (delete_where q (su_regs s)), su_blocks := b\<rparr>)" for p q b
    using fewer_regs_ok [OF fewer_regs_ok [OF ok, of q], of p] by (simp add: signups_ok_def)
  then show ?thesis by (simp add: reg_sweep_now_def reg_sweep_def Let_def)
qed

end
