(* ===== verification/Recovery.thy ===== *)
theory Recovery
  imports Registration Sessions
begin

text \<open>
  Setting a password without knowing the old one (\<open>auth/reset.rs\<close>, \<open>api/recovery.rs\<close>): the table
  of reset links, the letters that carry them, and the state \<open>panel\<close> the handlers of
  accounts share - the sign-ups with their accounts and rate limits, the sessions, the links.
\<close>

subsection \<open>Rows and state\<close>

record reset_row =
  rr_id :: id
  rr_user :: id
  rr_token_hash :: ustr
  rr_created_at :: moment
  rr_expires_at :: moment
  rr_used_at :: "moment option"
  rr_requested_ip :: "ustr option"
  rr_user_agent :: "ustr option"

datatype recovery_letter =
    ResetPassword (rl_user: id) (rl_to: ustr) (rl_token: ustr)
  | PasswordChanged id ustr

text \<open>\<open>users::OwnedServer\<close>, with the column \<open>owner_id\<close> it is selected by.\<close>

record owned_server =
  os_id :: id
  os_owner :: id
  os_name :: ustr
  os_memory_mib :: nat

record panel =
  pn_signups :: signups
  pn_sessions :: "session_row list"
  pn_resets :: "reset_row list"
  pn_mail :: "recovery_letter list"
  pn_mail_configured :: bool
  pn_brake :: "ustr brake"
  pn_servers :: "owned_server list"

abbreviation pn_users :: "panel \<Rightarrow> user_row list" where
  "pn_users p \<equiv> su_users (pn_signups p)"

definition on_users :: "(user_row list \<Rightarrow> user_row list) \<Rightarrow> panel \<Rightarrow> panel" where
  "on_users f p = p\<lparr>pn_signups := (pn_signups p)\<lparr>su_users := f (pn_users p)\<rparr>\<rparr>"

definition with_rates :: "buckets \<Rightarrow> panel \<Rightarrow> panel" where
  "with_rates b p = p\<lparr>pn_signups := (pn_signups p)\<lparr>su_rates := b\<rparr>\<rparr>"

definition mail_letter :: "draw \<Rightarrow> recovery_letter \<Rightarrow> panel \<Rightarrow> panel" where
  "mail_letter d l p = (if dr_mail_taken d then p\<lparr>pn_mail := pn_mail p @ [l]\<rparr> else p)"

subsection \<open>The table of links\<close>

definition LIFETIME :: moment where "LIFETIME = 30 * 60"
definition COOL_DOWN :: moment where "COOL_DOWN = 60"
definition PER_HOUR :: nat where "PER_HOUR = 5"
definition KEEP_SPENT :: moment where "KEEP_SPENT = 24 * 3600"

definition reset_forget_all :: "reset_row list \<Rightarrow> id \<Rightarrow> reset_row list \<times> nat" where
  "reset_forget_all t user =
     (delete_where (\<lambda>r. rr_user r = user) t, count_where (\<lambda>r. rr_user r = user) t)"

definition reset_forget_others :: "reset_row list \<Rightarrow> id \<Rightarrow> ustr \<Rightarrow> reset_row list" where
  "reset_forget_others t user keep =
     delete_where (\<lambda>r. rr_user r = user \<and> rr_token_hash r \<noteq> keep) t"

definition reset_mint_for :: "(ustr \<Rightarrow> ustr) \<Rightarrow> reset_row list \<Rightarrow> id \<Rightarrow> ustr \<Rightarrow> id \<Rightarrow> moment option \<Rightarrow>
    ustr option \<Rightarrow> moment \<Rightarrow> reset_row list" where
  "reset_mint_for digest t i token user life from now =
     t @ [\<lparr>rr_id = i, rr_user = user, rr_token_hash = digest token, rr_created_at = now,
           rr_expires_at = now + (case life of None \<Rightarrow> LIFETIME | Some l \<Rightarrow> l), rr_used_at = None,
           rr_requested_ip = from, rr_user_agent = None\<rparr>]"

definition reset_purge :: "reset_row list \<Rightarrow> moment \<Rightarrow> reset_row list" where
  "reset_purge t now =
     (let cutoff = now - KEEP_SPENT in
      delete_where (\<lambda>r. is_some_and (\<lambda>used. used < cutoff) (rr_used_at r) \<or> rr_expires_at r < cutoff) t)"

text \<open>The join leaves out a row whose account is gone.\<close>

definition reset_living ::
  "(ustr \<Rightarrow> ustr) \<Rightarrow> user_row list \<Rightarrow> reset_row list \<Rightarrow> ustr \<Rightarrow> moment \<Rightarrow> (id \<times> ustr) option" where
  "reset_living digest users t token now =
     (case fetch_optional (\<lambda>r. rr_token_hash r = digest token \<and> rr_used_at r = None \<and> rr_expires_at r > now \<and>
             users_find users (rr_user r) \<noteq> None) t of
        None \<Rightarrow> None
      | Some r \<Rightarrow> map_option (\<lambda>u. (rr_user r, u_username u)) (users_find users (rr_user r)))"

definition reset_too_soon :: "reset_row list \<Rightarrow> id \<Rightarrow> moment \<Rightarrow> int option" where
  "reset_too_soon t user now =
     (let mine = (\<lambda>r. rr_user r = user);
          newest = (case order_by_desc rr_created_at (filter mine t) of [] \<Rightarrow> None | r # _ \<Rightarrow> Some (rr_created_at r));
          in_the_hour = count_where (\<lambda>r. mine r \<and> rr_created_at r > now - 3600) t
      in case newest of
           Some newest \<Rightarrow>
             let since = now - newest in
             if since < COOL_DOWN then Some (COOL_DOWN - since)
             else if PER_HOUR \<le> in_the_hour then Some COOL_DOWN else None
         | None \<Rightarrow> if PER_HOUR \<le> in_the_hour then Some COOL_DOWN else None)"

subsection \<open>Asking for a link\<close>

definition too_many :: failure where
  "too_many = failure_new 429 ''too_many_attempts''"

fun take_each :: "limit \<Rightarrow> ustr list \<Rightarrow> instant \<Rightarrow> buckets \<Rightarrow> buckets \<times> unit result" where
  "take_each l [] now b = (b, Inr ())"
| "take_each l (k # ks) now b =
     (case bucket_take b l k now of
        (b, Some _) \<Rightarrow> (b, Inl too_many)
      | (b, None) \<Rightarrow> take_each l ks now b)"

definition reset_note_request ::
  "outside \<Rightarrow> draw \<Rightarrow> ustr \<Rightarrow> ustr option \<Rightarrow> panel \<Rightarrow> panel \<times> unit result" where
  "reset_note_request env d email from p =
     (let keys = out_lower env (trim email) # (case from of None \<Rightarrow> [] | Some ip \<Rightarrow> [ip]);
          (b, answer) = take_each RESET_ATTEMPTS keys (dr_instant d) (su_rates (pn_signups p))
      in (with_rates b p, answer))"

text \<open>\<open>mint\<close>, which runs after the request has been answered.\<close>

definition reset_mint :: "outside \<Rightarrow> draw \<Rightarrow> ustr \<Rightarrow> ustr option \<Rightarrow> ustr option \<Rightarrow> panel \<Rightarrow> panel" where
  "reset_mint env d typed from agent p =
     (let p = p\<lparr>pn_resets := reset_purge (pn_resets p) (dr_now d)\<rparr> in
      case normalise_address (out_lower env) typed of
        Inl _ \<Rightarrow> p
      | Inr email \<Rightarrow>
          (case users_by_email (pn_users p) email of
             None \<Rightarrow> p
           | Some u \<Rightarrow>
               if \<not> su_can_link (pn_signups p) then p
               else if reset_too_soon (pn_resets p) (u_id u) (dr_now d) \<noteq> None then p
               else let t = fst (reset_forget_all (pn_resets p) (u_id u));
                        row = \<lparr>rr_id = dr_id d, rr_user = u_id u, rr_token_hash = out_digest env (dr_token d),
                               rr_created_at = dr_now d, rr_expires_at = dr_now d + LIFETIME, rr_used_at = None,
                               rr_requested_ip = from, rr_user_agent = agent\<rparr>;
                        p = p\<lparr>pn_resets := t @ [row]\<rparr>
                    in if dr_mail_taken d then mail_letter d (ResetPassword (u_id u) email (dr_token d)) p
                       else p\<lparr>pn_resets := delete_where (\<lambda>r. rr_id r = dr_id d) (pn_resets p)\<rparr>))"

definition reset_on_behalf_of :: "outside \<Rightarrow> draw \<Rightarrow> user_row \<Rightarrow> panel \<Rightarrow> panel \<times> unit result" where
  "reset_on_behalf_of env d u p =
     (case u_email u of
        None \<Rightarrow> (p, Inl (conflict ''no_email_address''))
      | Some email \<Rightarrow>
          if \<not> pn_mail_configured p then (p, Inl (conflict ''mail_not_configured''))
          else if \<not> su_can_link (pn_signups p) then (p, Inl (conflict ''mail_no_link_base''))
          else (let (b, waiting) = bucket_take (su_rates (pn_signups p)) ADMIN_RESET_PER_ACCOUNT
                      (out_id_text env (u_id u)) (dr_instant d);
                    p = with_rates b p
                in if waiting \<noteq> None then (p, Inl too_many)
                   else let t = fst (reset_forget_all (reset_purge (pn_resets p) (dr_now d)) (u_id u));
                            p = p\<lparr>pn_resets := reset_mint_for (out_digest env) t (dr_id d) (dr_token d) (u_id u)
                                    None None (dr_now d)\<rparr>
                        in if dr_mail_taken d
                           then (mail_letter d (ResetPassword (u_id u) email (dr_token d)) p, Inr ())
                           else (p\<lparr>pn_resets := fst (reset_forget_all (pn_resets p) (u_id u))\<rparr>,
                                 Inl (dr_refused d))))"

text \<open>The handler of an administrator's request.\<close>

definition reset_for_user :: "outside \<Rightarrow> draw \<Rightarrow> id \<Rightarrow> panel \<Rightarrow> panel \<times> unit result" where
  "reset_for_user env d i p =
     (case users_load (pn_users p) i of Inl f \<Rightarrow> (p, Inl f) | Inr u \<Rightarrow> reset_on_behalf_of env d u p)"

subsection \<open>Using a link\<close>

definition reset_guard :: "draw \<Rightarrow> ustr option \<Rightarrow> panel \<Rightarrow> unit result" where
  "reset_guard d from p =
     (case from of
        None \<Rightarrow> Inr ()
      | Some ip \<Rightarrow>
          if bucket_check (su_rates (pn_signups p)) RESET_ATTEMPTS ip (dr_instant d) \<noteq> None
          then Inl too_many else Inr ())"

definition reset_refuse :: "draw \<Rightarrow> ustr option \<Rightarrow> panel \<Rightarrow> panel \<times> failure" where
  "reset_refuse d from p =
     ((case from of
         None \<Rightarrow> p
       | Some ip \<Rightarrow> with_rates (bucket_note (su_rates (pn_signups p)) RESET_ATTEMPTS ip (dr_instant d)) p),
      bad_request ''invalid_reset_token'')"

definition reset_whose :: "outside \<Rightarrow> draw \<Rightarrow> ustr \<Rightarrow> ustr option \<Rightarrow> panel \<Rightarrow> panel \<times> ustr result" where
  "reset_whose env d token from p =
     (case reset_guard d from p of
        Inl f \<Rightarrow> (p, Inl f)
      | Inr _ \<Rightarrow>
          (case reset_living (out_digest env) (pn_users p) (pn_resets p) token (dr_now d) of
             Some (_, name) \<Rightarrow> (p, Inr name)
           | None \<Rightarrow> (let (p, f) = reset_refuse d from p in (p, Inl f))))"

definition give_password :: "id \<Rightarrow> ustr \<Rightarrow> bool \<Rightarrow> user_row list \<Rightarrow> user_row list" where
  "give_password i hash must_change users = update_where (\<lambda>u. u_id u = i)
     (\<lambda>u. u\<lparr>u_password_hash := hash, u_must_change_password := must_change\<rparr>) users"

text \<open>\<open>confirm\<close>: the link is looked up, the password hashed, and only then is anything written.\<close>

definition reset_settle :: "outside \<Rightarrow> draw \<Rightarrow> ustr \<Rightarrow> id \<Rightarrow> ustr \<Rightarrow> panel \<Rightarrow> panel" where
  "reset_settle env d token user hash p =
     (let p = on_users (give_password user hash False) p;
          digest = out_digest env token;
          t = update_where (\<lambda>r. rr_token_hash r = digest) (\<lambda>r. r\<lparr>rr_used_at := Some (dr_now d)\<rparr>) (pn_resets p);
          p = p\<lparr>pn_resets := reset_forget_others t user digest,
                pn_sessions := fst (session_close_all_of (pn_sessions p) user None)\<rparr>
      in case users_find (pn_users p) user of
           None \<Rightarrow> p
         | Some u \<Rightarrow> (case u_email u of None \<Rightarrow> p | Some email \<Rightarrow> mail_letter d (PasswordChanged user email) p))"

definition reset_ready :: "outside \<Rightarrow> draw \<Rightarrow> ustr \<Rightarrow> ustr \<Rightarrow> ustr option \<Rightarrow> panel \<Rightarrow> panel \<times> (id \<times> ustr) result" where
  "reset_ready env d token chosen from p =
     (case reset_guard d from p of
        Inl f \<Rightarrow> (p, Inl f)
      | Inr _ \<Rightarrow>
          (case reset_living (out_digest env) (pn_users p) (pn_resets p) token (dr_now d) of
             None \<Rightarrow> (let (p, f) = reset_refuse d from p in (p, Inl f))
           | Some (user, _) \<Rightarrow>
               (p, and_then (password_hash (out_encode env) (dr_salt d) chosen) (\<lambda>h. Inr (user, h)))))"

definition reset_confirm :: "outside \<Rightarrow> draw \<Rightarrow> ustr \<Rightarrow> ustr \<Rightarrow> ustr option \<Rightarrow> panel \<Rightarrow> panel \<times> unit result" where
  "reset_confirm env d token chosen from p =
     (case reset_ready env d token chosen from p of
        (p, Inl f) \<Rightarrow> (p, Inl f)
      | (p, Inr (user, hash)) \<Rightarrow> (reset_settle env d token user hash p, Inr ()))"

end
