(* ===== verification/People.thy ===== *)
theory People
  imports Recovery Budget "HOL-Library.List_Lexorder"
begin

text \<open>
  What is done to accounts: signing in and out and changing one's own password
  (\<open>api/session.rs\<close>), the commands of the terminal (\<open>auth/cli.rs\<close>) and the handlers of an
  administrator (\<open>api/admin.rs\<close>). Together with \<open>Registration\<close> and \<open>Recovery\<close> they are the
  steps of \<open>panel_step\<close>, of which the last part proves what holds in every reachable state.
\<close>

subsection \<open>Signing in (\<open>api/session.rs\<close>)\<close>

definition refuse_login ::
  "outside \<Rightarrow> draw \<Rightarrow> ustr \<Rightarrow> ustr option \<Rightarrow> panel \<Rightarrow> panel \<times> failure" where
  "refuse_login env d name address p =
     (p\<lparr>pn_brake := brake_note_failure (out_lower env) (pn_brake p) name address (dr_instant d)\<rparr>,
      failure_new 401 ''invalid_credentials'')"

fun refuse_half_an_account :: "registration_state \<Rightarrow> failure" where
  "refuse_half_an_account EmailUnverified = failure_new 403 ''email_unverified''"
| "refuse_half_an_account AwaitingApproval = failure_new 403 ''approval_pending''"

definition sign_in ::
  "outside \<Rightarrow> draw \<Rightarrow> ustr \<Rightarrow> ustr option \<Rightarrow> ustr option \<Rightarrow> user_row \<Rightarrow> panel \<Rightarrow> panel \<times> session_row" where
  "sign_in env d name address agent u p =
     (let p = p\<lparr>pn_brake := brake_forget (out_lower env) (pn_brake p) name address\<rparr>;
          t = fst (session_purge_expired (pn_sessions p) (dr_now d));
          (t, row, secret) = session_open (out_digest env) t (dr_id d) (dr_token d) (u_id u) agent (dr_now d);
          p = p\<lparr>pn_sessions := t\<rparr>
      in (on_users (update_where (\<lambda>v. u_id v = u_id u) (\<lambda>v. v\<lparr>u_last_login_at := Some (dr_now d)\<rparr>)) p, row))"

definition login :: "outside \<Rightarrow> draw \<Rightarrow> ustr \<Rightarrow> ustr \<Rightarrow> ustr option \<Rightarrow> ustr option \<Rightarrow> panel \<Rightarrow>
    panel \<times> session_row result" where
  "login env d username password address agent p =
     (let name = out_lower env (trim username);
          refused = (let (p, f) = refuse_login env d name address p in (p, Inl f))
      in case brake_check (out_lower env) (pn_brake p) name address (dr_instant d) of
           Inl f \<Rightarrow> (p, Inl f)
         | Inr _ \<Rightarrow>
             (case users_by_name (out_lower env) (pn_users p) name of
                Some u \<Rightarrow>
                  if out_verify env password (u_password_hash u)
                  then (let (p, row) = sign_in env d name address agent u p in (p, Inr row))
                  else refused
              | None \<Rightarrow>
                  (case reg_credentials (su_regs (pn_signups p)) name of
                     Some (hash, pending) \<Rightarrow>
                       if out_verify env password hash then (p, Inl (refuse_half_an_account pending)) else refused
                   | None \<Rightarrow> refused)))"

definition logout :: "outside \<Rightarrow> draw \<Rightarrow> ustr option \<Rightarrow> panel \<Rightarrow> panel" where
  "logout env d cookie p =
     (case cookie of
        None \<Rightarrow> p
      | Some secret \<Rightarrow>
          (case session_lookup (out_digest env) (pn_sessions p) secret (dr_now d) of
             None \<Rightarrow> p
           | Some s \<Rightarrow> p\<lparr>pn_sessions := session_close (pn_sessions p) (ses_id s)\<rparr>))"

definition change_password :: "outside \<Rightarrow> draw \<Rightarrow> ustr option \<Rightarrow> ustr \<Rightarrow> ustr \<Rightarrow> panel \<Rightarrow> panel \<times> unit result" where
  "change_password env d cookie current chosen p =
     (case caller_of_request (out_digest env) (pn_sessions p) (pn_users p) cookie (dr_now d) of
        Inl f \<Rightarrow> (p, Inl f)
      | Inr c \<Rightarrow>
          if \<not> out_verify env current (u_password_hash (caller_user c))
          then (p, Inl (failure_new 403 ''wrong_password''))
          else (case password_hash (out_encode env) (dr_salt d) chosen of
            Inl f \<Rightarrow> (p, Inl f)
          | Inr hash \<Rightarrow>
              let p = on_users (give_password (caller_id c) hash False) p;
                  t = fst (session_close_all_of (pn_sessions p) (caller_id c) None);
                  links = fst (reset_forget_all (pn_resets p) (caller_id c));
                  t = fst (session_open (out_digest env) t (dr_id d) (dr_token d) (caller_id c) None (dr_now d))
              in (p\<lparr>pn_sessions := t, pn_resets := links\<rparr>, Inr ())))"

definition SEARCH_LIMIT :: nat where "SEARCH_LIMIT = 25"

definition how_many :: "nat option \<Rightarrow> nat" where
  "how_many asked = max 1 (min SEARCH_LIMIT (case asked of None \<Rightarrow> SEARCH_LIMIT | Some n \<Rightarrow> n))"

subsection \<open>From the terminal (\<open>auth/cli.rs\<close>)\<close>

datatype cli_refusal = NoAccount ustr | AlreadyThere ustr | Refused failure | BadBase ustr | BadMinutes

definition cli_refused :: "'a result \<Rightarrow> cli_refusal + 'a" where
  "cli_refused r = (case r of Inl f \<Rightarrow> Inl (Refused f) | Inr a \<Rightarrow> Inr a)"

definition cli_account :: "outside \<Rightarrow> ustr \<Rightarrow> panel \<Rightarrow> cli_refusal + user_row" where
  "cli_account env username p =
     (case users_by_name (out_lower env) (pn_users p) username of
        None \<Rightarrow> Inl (NoAccount username) | Some u \<Rightarrow> Inr u)"

definition cli_normalised :: "outside \<Rightarrow> ustr \<Rightarrow> id option \<Rightarrow> panel \<Rightarrow> cli_refusal + ustr" where
  "cli_normalised env typed except p =
     and_then (cli_refused (normalise_address (out_lower env) typed)) (\<lambda>address.
       and_then (cli_refused (claim_email (pn_users p) (su_regs (pn_signups p)) address except)) (\<lambda>_. Inr address))"

definition cli_set_password ::
  "outside \<Rightarrow> draw \<Rightarrow> ustr \<Rightarrow> ustr \<Rightarrow> bool \<Rightarrow> panel \<Rightarrow> panel \<times> (cli_refusal + id \<times> nat \<times> nat)" where
  "cli_set_password env d username secret must_change p =
     (case and_then (cli_account env username p) (\<lambda>u.
             and_then (cli_refused (password_hash (out_encode env) (dr_salt d) secret)) (\<lambda>h. Inr (u, h))) of
        Inl f \<Rightarrow> (p, Inl f)
      | Inr (u, hash) \<Rightarrow>
          let p = on_users (give_password (u_id u) hash must_change) p;
              (t, closed) = session_close_all_of (pn_sessions p) (u_id u) None;
              (r, links) = reset_forget_all (pn_resets p) (u_id u)
          in (p\<lparr>pn_sessions := t, pn_resets := r\<rparr>, Inr (u_id u, closed, links)))"

definition give_email :: "id \<Rightarrow> ustr option \<Rightarrow> user_row list \<Rightarrow> ustr + user_row list" where
  "give_email i email users =
     (if email \<noteq> None \<and> (\<exists>u \<in> set users. u_id u = i) \<and> (\<exists>u \<in> set users. u_id u \<noteq> i \<and> u_email u = email)
      then Inl (unique_violation ''users.email'')
      else Inr (update_where (\<lambda>u. u_id u = i) (\<lambda>u. u\<lparr>u_email := email\<rparr>) users))"

definition cli_set_email ::
  "outside \<Rightarrow> ustr \<Rightarrow> ustr option \<Rightarrow> panel \<Rightarrow> panel \<times> (cli_refusal + id \<times> ustr option \<times> nat)" where
  "cli_set_email env username wanted p =
     (case and_then (cli_account env username p) (\<lambda>u.
             and_then (case wanted of
                 None \<Rightarrow> Inr None
               | Some typed \<Rightarrow> and_then (cli_normalised env typed (Some (u_id u)) p) (\<lambda>a. Inr (Some a)))
             (\<lambda>address. Inr (u, address))) of
        Inl f \<Rightarrow> (p, Inl f)
      | Inr (u, address) \<Rightarrow>
          if address = u_email u then (p, Inr (u_id u, u_email u, 0))
          else (case give_email (u_id u) address (pn_users p) of
            Inl complaint \<Rightarrow> (p, Inl (Refused (map_taken complaint)))
          | Inr users \<Rightarrow>
              let (r, links) = reset_forget_all (pn_resets p) (u_id u)
              in (on_users (\<lambda>_. users) (p\<lparr>pn_resets := r\<rparr>), Inr (u_id u, u_email u, links))))"

text \<open>\<open>link_base\<close> is the address of the panel in the settings of mail.\<close>

definition trim_end_char :: "nat \<Rightarrow> ustr \<Rightarrow> ustr" where
  "trim_end_char c s = rev (dropWhile (\<lambda>x. x = c) (rev s))"

definition cli_reset_link :: "outside \<Rightarrow> draw \<Rightarrow> ustr option \<Rightarrow> ustr \<Rightarrow> ustr option \<Rightarrow> int option \<Rightarrow>
    panel \<Rightarrow> panel \<times> (cli_refusal + ustr)" where
  "cli_reset_link env d link_base username base_url minutes p =
     (case cli_account env username p of
        Inl f \<Rightarrow> (p, Inl f)
      | Inr u \<Rightarrow>
          (case (case base_url of Some given \<Rightarrow> Some given | None \<Rightarrow> link_base) of
             None \<Rightarrow> (p, Inl (BadBase []))
           | Some base \<Rightarrow>
               let base = trim_end_char 47 base;
                   life = map_option (\<lambda>m. 60 * m) minutes
               in if \<not> has_prefix (lit ''http://'') base \<and> \<not> has_prefix (lit ''https://'') base
                  then (p, Inl (BadBase base))
                  else if is_some_and (\<lambda>l. l \<le> 0) life then (p, Inl BadMinutes)
                  else (p\<lparr>pn_resets := reset_mint_for (out_digest env) (fst (reset_forget_all (pn_resets p) (u_id u)))
                             (dr_id d) (dr_token d) (u_id u) life None (dr_now d)\<rparr>,
                        Inr (base @ lit ''/reset-password#'' @ dr_token d))))"

definition unready :: "id \<Rightarrow> user_row list \<Rightarrow> user_row list" where
  "unready i users = update_where (\<lambda>u. u_id u = i) (\<lambda>u. u\<lparr>u_system_state := Provisioning\<rparr>) users"

definition install_checks :: "outside \<Rightarrow> draw \<Rightarrow> ustr \<Rightarrow> ustr option \<Rightarrow> ustr \<Rightarrow> bool \<Rightarrow> panel \<Rightarrow>
    cli_refusal + (user_row list \<times> user_row)" where
  "install_checks env d username address secret must_change p =
     and_then (cli_refused (check_username username)) (\<lambda>_.
     and_then (if users_by_name (out_lower env) (pn_users p) username \<noteq> None
               then Inl (AlreadyThere username) else Inr ()) (\<lambda>_.
     and_then (case address of
         None \<Rightarrow> Inr None
       | Some typed \<Rightarrow> and_then (cli_normalised env typed None p) (\<lambda>a. Inr (Some a))) (\<lambda>email.
     and_then (cli_refused (password_hash (out_encode env) (dr_salt d) secret)) (\<lambda>hash.
     case users_insert (pn_users p) (dr_id d) \<lparr>nu_username = username, nu_email = email, nu_origin = ByAdmin,
            nu_password_hash = hash, nu_role = Admin, nu_must_change_password = must_change,
            nu_limits = su_default_limits (pn_signups p)\<rparr> (dr_now d) of
       Inl complaint \<Rightarrow> Inl (Refused (map_taken complaint))
     | Inr written \<Rightarrow> Inr written))))"

definition cli_install ::
  "outside \<Rightarrow> draw \<Rightarrow> ustr \<Rightarrow> ustr option \<Rightarrow> ustr \<Rightarrow> bool \<Rightarrow> panel \<Rightarrow> panel \<times> (cli_refusal + id)" where
  "cli_install env d username address secret must_change p =
     (case install_checks env d username address secret must_change p of
        Inl f \<Rightarrow> (p, Inl f)
      | Inr (users, row) \<Rightarrow>
          let users = set_system (dr_system d) (u_id row) users;
              users = (if fst (dr_system d) = SystemError then unready (u_id row) users else users)
          in (on_users (\<lambda>_. users) p, Inr (u_id row)))"

subsection \<open>By an administrator (\<open>api/admin.rs\<close>)\<close>

record create_request =
  cr_username :: ustr
  cr_password :: ustr
  cr_role :: panel_role
  cr_email :: "ustr option"
  cr_must_change :: "bool option"
  cr_limits :: "user_limits option"

text \<open>An address that was typed: normalised, and nobody else's.\<close>

definition claimed_address :: "outside \<Rightarrow> ustr \<Rightarrow> id option \<Rightarrow> panel \<Rightarrow> ustr option result" where
  "claimed_address env typed except p =
     and_then (normalise_address (out_lower env) typed) (\<lambda>address.
       and_then (claim_email (pn_users p) (su_regs (pn_signups p)) address except) (\<lambda>_. Inr (Some address)))"

definition create_checks :: "outside \<Rightarrow> draw \<Rightarrow> create_request \<Rightarrow> panel \<Rightarrow> (user_row list \<times> user_row) result" where
  "create_checks env d body p =
     and_then (claim_name (pn_users p) (su_regs (pn_signups p)) (trim (cr_username body)) None) (\<lambda>_.
     and_then (case cr_email body of
         None \<Rightarrow> Inr None
       | Some typed \<Rightarrow> if trim typed = [] then Inr None else claimed_address env (trim typed) None p) (\<lambda>email.
     and_then (password_hash (out_encode env) (dr_salt d) (cr_password body)) (\<lambda>hash.
     and_then (if cr_role body = Admin \<and> cr_limits body \<noteq> None then Inl invalid_request else Inr ()) (\<lambda>_.
     and_then (case cr_limits body of
         Some l \<Rightarrow> and_then (check_limits l) (\<lambda>_. Inr l)
       | None \<Rightarrow> Inr (su_default_limits (pn_signups p))) (\<lambda>limits.
     case users_insert (pn_users p) (dr_id d)
            \<lparr>nu_username = trim (cr_username body), nu_email = email, nu_origin = ByAdmin, nu_password_hash = hash,
             nu_role = cr_role body, nu_must_change_password = (case cr_must_change body of None \<Rightarrow> True | Some b \<Rightarrow> b),
             nu_limits = limits\<rparr> (dr_now d) of
       Inl complaint \<Rightarrow> Inl (map_taken complaint)
     | Inr written \<Rightarrow> Inr written)))))"

definition create_user :: "outside \<Rightarrow> draw \<Rightarrow> create_request \<Rightarrow> panel \<Rightarrow> panel \<times> id result" where
  "create_user env d body p =
     (case create_checks env d body p of
        Inl f \<Rightarrow> (p, Inl f)
      | Inr (users, row) \<Rightarrow> (on_users (\<lambda>_. set_system (dr_system d) (u_id row) users) p, Inr (u_id row)))"

record update_request =
  up_username :: "ustr option"
  up_role :: "panel_role option"
  up_password :: "ustr option"
  up_email :: "ustr option option"
  up_must_change :: "bool option"

record change =
  ch_name :: "ustr option"
  ch_email :: "ustr option option"
  ch_hash :: "ustr option"

definition update_checks :: "outside \<Rightarrow> draw \<Rightarrow> update_request \<Rightarrow> user_row \<Rightarrow> panel \<Rightarrow> change result" where
  "update_checks env d body u p =
     and_then (refuse_if_busy u) (\<lambda>_.
     and_then (case up_username body of
         None \<Rightarrow> Inr None
       | Some wanted \<Rightarrow> and_then (claim_name (pn_users p) (su_regs (pn_signups p)) (trim wanted) (Some (u_id u)))
           (\<lambda>_. Inr (Some (trim wanted)))) (\<lambda>name.
     and_then (case up_email body of
         None \<Rightarrow> Inr None
       | Some None \<Rightarrow> Inr (Some None)
       | Some (Some typed) \<Rightarrow>
           if trim typed = [] then Inr (Some None)
           else and_then (claimed_address env typed (Some (u_id u)) p) (\<lambda>a. Inr (Some a))) (\<lambda>email.
     and_then (if up_role body = Some User \<and> is_last_admin (pn_users p) u then Inl (conflict ''last_admin'') else Inr ()) (\<lambda>_.
     and_then (case up_password body of
         None \<Rightarrow> Inr None
       | Some chosen \<Rightarrow> and_then (password_hash (out_encode env) (dr_salt d) chosen) (\<lambda>h. Inr (Some h))) (\<lambda>hash.
     Inr \<lparr>ch_name = name, ch_email = email, ch_hash = hash\<rparr>)))))"

definition give_name :: "id \<Rightarrow> ustr \<Rightarrow> user_row list \<Rightarrow> ustr + user_row list" where
  "give_name i name users =
     (if (\<exists>u \<in> set users. u_id u = i) \<and> (\<exists>u \<in> set users. u_id u \<noteq> i \<and> u_username u = name)
      then Inl (unique_violation ''users.username'')
      else Inr (update_where (\<lambda>u. u_id u = i) (\<lambda>u. u\<lparr>u_username := name\<rparr>) users))"

definition give_hash :: "id \<Rightarrow> ustr \<Rightarrow> user_row list \<Rightarrow> user_row list" where
  "give_hash i hash users = update_where (\<lambda>u. u_id u = i) (\<lambda>u. u\<lparr>u_password_hash := hash\<rparr>) users"

definition give_role :: "id \<Rightarrow> panel_role \<Rightarrow> user_row list \<Rightarrow> user_row list" where
  "give_role i role users = update_where (\<lambda>u. u_id u = i) (\<lambda>u. u\<lparr>u_role := role\<rparr>) users"

definition give_must_change :: "id \<Rightarrow> bool \<Rightarrow> user_row list \<Rightarrow> user_row list" where
  "give_must_change i b users = update_where (\<lambda>u. u_id u = i) (\<lambda>u. u\<lparr>u_must_change_password := b\<rparr>) users"

text \<open>The transaction; \<open>Inl\<close> rolls all of it back.\<close>

definition write_change :: "id \<Rightarrow> update_request \<Rightarrow> change \<Rightarrow> user_row list \<Rightarrow> ustr + user_row list" where
  "write_change i body c users =
     and_then (case ch_name c of None \<Rightarrow> Inr users | Some name \<Rightarrow> give_name i name users) (\<lambda>users.
       let users = (case ch_hash c of None \<Rightarrow> users | Some hash \<Rightarrow> give_hash i hash users);
           users = (case up_role body of None \<Rightarrow> users | Some role \<Rightarrow> give_role i role users)
       in and_then (case ch_email c of None \<Rightarrow> Inr users | Some email \<Rightarrow> give_email i email users) (\<lambda>users.
            Inr (case up_must_change body of None \<Rightarrow> users | Some b \<Rightarrow> give_must_change i b users)))"

text \<open>\<open>settle_cgroup\<close>: what the helper says of the new limits is \<open>complaint\<close>.\<close>

definition settle_cgroup :: "user_row \<Rightarrow> ustr option \<Rightarrow> user_row list \<Rightarrow> user_row list" where
  "settle_cgroup u complaint users =
     (if u_system_state u \<noteq> Ready then users
      else case complaint of
        None \<Rightarrow> users
      | Some err \<Rightarrow> update_where (\<lambda>v. u_id v = u_id u)
          (\<lambda>v. v\<lparr>u_system_error := Some (lit ''limits were not applied: '' @ err)\<rparr>) users)"

definition update_user ::
  "outside \<Rightarrow> draw \<Rightarrow> id \<Rightarrow> update_request \<Rightarrow> ustr option \<Rightarrow> panel \<Rightarrow> panel \<times> unit result" where
  "update_user env d i body complaint p =
     (case and_then (users_load (pn_users p) i) (\<lambda>u. and_then (update_checks env d body u p) (\<lambda>c.
             case write_change (u_id u) body c (pn_users p) of
               Inl taken \<Rightarrow> Inl (map_taken taken)
             | Inr users \<Rightarrow> Inr (u, c, users))) of
        Inl f \<Rightarrow> (p, Inl f)
      | Inr (u, c, users) \<Rightarrow>
          let address_changed = (is_some_and (\<lambda>e. e \<noteq> u_email u) (ch_email c));
              users = (if is_some_and (\<lambda>role. role \<noteq> u_role u) (up_role body)
                       then settle_cgroup u complaint users else users);
              p = on_users (\<lambda>_. users) p;
              p = (if up_password body \<noteq> None
                   then p\<lparr>pn_sessions := fst (session_close_all_of (pn_sessions p) (u_id u) None),
                          pn_resets := fst (reset_forget_all (pn_resets p) (u_id u))\<rparr>
                   else p);
              p = (if address_changed \<and> up_password body = None
                   then p\<lparr>pn_resets := fst (reset_forget_all (pn_resets p) (u_id u))\<rparr> else p)
          in (p, Inr ()))"

datatype disposal = DeleteServers | TransferServers

text \<open>
  Deleting an account. The references into \<open>users\<close> take the rows of sessions and of reset links
  along, and hold the statement up while a server still belongs to the account.
  \<open>running\<close> are the servers that live, \<open>moved\<close> says whether every directory could be moved.
\<close>

definition owned_servers :: "owned_server list \<Rightarrow> id \<Rightarrow> owned_server list" where
  "owned_servers servers owner = order_by os_name (filter (\<lambda>s. os_owner s = owner) servers)"

definition users_delete :: "id \<Rightarrow> panel \<Rightarrow> panel result" where
  "users_delete i p =
     (if \<exists>s \<in> set (pn_servers p). os_owner s = i then Inl internal
      else Inr ((on_users (delete_where (\<lambda>u. u_id u = i)) p)
        \<lparr>pn_sessions := delete_where (\<lambda>s. ses_user s = i) (pn_sessions p),
         pn_resets := delete_where (\<lambda>r. rr_user r = i) (pn_resets p)\<rparr>))"

definition hand_over :: "id \<Rightarrow> id \<Rightarrow> bool \<Rightarrow> panel \<Rightarrow> panel result" where
  "hand_over leaving receiver moved p =
     (if \<not> moved then Inl internal
      else Inr (on_users (\<lambda>users. set_busy users receiver True)
        (p\<lparr>pn_servers := update_where (\<lambda>s. os_owner s = leaving) (\<lambda>s. s\<lparr>os_owner := receiver\<rparr>) (pn_servers p)\<rparr>)))"

definition dispose_of ::
  "id list \<Rightarrow> bool \<Rightarrow> user_row \<Rightarrow> owned_server list \<Rightarrow> disposal option \<Rightarrow> user_row option \<Rightarrow> panel \<Rightarrow> panel \<times> unit result" where
  "dispose_of running moved leaving owned decision receiver p =
     (if \<exists>s \<in> set owned. os_id s \<in> set running then (p, Inl (conflict ''servers_running''))
      else case (case (decision, receiver) of
                   (Some TransferServers, Some r) \<Rightarrow> hand_over (u_id leaving) (u_id r) moved p
                 | _ \<Rightarrow> Inr p) of
        Inl f \<Rightarrow> (p, Inl f)
      | Inr p \<Rightarrow>
          let p = (if decision = Some DeleteServers
                   then p\<lparr>pn_servers := delete_where (\<lambda>s. os_owner s = u_id leaving) (pn_servers p)\<rparr> else p)
          in (case users_delete (u_id leaving) p of Inl f \<Rightarrow> (p, Inl f) | Inr p \<Rightarrow> (p, Inr ())))"

definition transfer_target :: "user_row list \<Rightarrow> id option \<Rightarrow> user_row \<Rightarrow> user_row result" where
  "transfer_target users wanted leaving =
     (case wanted of
        None \<Rightarrow> Inl (bad_request ''invalid_transfer_target'')
      | Some i \<Rightarrow>
          (case users_find users i of
             None \<Rightarrow> Inl (bad_request ''invalid_transfer_target'')
           | Some target \<Rightarrow>
               if u_id target = u_id leaving \<or> u_system_state target \<noteq> Ready
               then Inl (bad_request ''invalid_transfer_target'')
               else and_then (refuse_if_busy target) (\<lambda>_. Inr target)))"

definition delete_checks :: "id \<Rightarrow> id \<Rightarrow> disposal option \<Rightarrow> id option \<Rightarrow> panel \<Rightarrow>
    (user_row \<times> owned_server list \<times> disposal option \<times> user_row option) result" where
  "delete_checks me i servers transfer_to p =
     and_then (users_load (pn_users p) i) (\<lambda>u.
     and_then (if u_id u = me then Inl (failure_new 403 ''cannot_delete_self'') else Inr ()) (\<lambda>_.
     and_then (refuse_if_busy u) (\<lambda>_.
     and_then (if is_last_admin (pn_users p) u then Inl (conflict ''last_admin'') else Inr ()) (\<lambda>_.
     let owned = owned_servers (pn_servers p) (u_id u) in
     and_then (if owned = [] then Inr None
               else case servers of None \<Rightarrow> Inl (conflict ''user_has_servers'') | Some x \<Rightarrow> Inr (Some x)) (\<lambda>decision.
     and_then (if decision = Some TransferServers
               then and_then (transfer_target (pn_users p) transfer_to u) (\<lambda>r. Inr (Some r)) else Inr None) (\<lambda>receiver.
     Inr (u, owned, decision, receiver)))))))"

definition delete_user ::
  "id \<Rightarrow> id \<Rightarrow> disposal option \<Rightarrow> id option \<Rightarrow> id list \<Rightarrow> bool \<Rightarrow> panel \<Rightarrow> panel \<times> unit result" where
  "delete_user me i servers transfer_to running moved p =
     (case delete_checks me i servers transfer_to p of
        Inl f \<Rightarrow> (p, Inl f)
      | Inr (u, owned, decision, receiver) \<Rightarrow>
          let (users, mine) = claim_busy (pn_users p) (u_id u) in
          if \<not> mine then (p, Inl (conflict ''user_busy''))
          else (case dispose_of running moved u owned decision receiver (on_users (\<lambda>_. users) p) of
                  (p, Inl f) \<Rightarrow> (on_users (\<lambda>users. set_busy users (u_id u) False) p, Inl f)
                | (p, Inr _) \<Rightarrow> (p, Inr ())))"

definition write_limits :: "id \<Rightarrow> user_limits \<Rightarrow> unit result \<Rightarrow> panel \<Rightarrow> panel \<times> unit result" where
  "write_limits i wanted helper p =
     (case and_then (users_load (pn_users p) i) (\<lambda>u. and_then (refuse_if_busy u) (\<lambda>_.
             and_then (if is_admin u then Inl (conflict ''role_unlimited'') else Inr ()) (\<lambda>_.
             and_then (check_limits wanted) (\<lambda>_. and_then helper (\<lambda>_. Inr u))))) of
        Inl f \<Rightarrow> (p, Inl f)
      | Inr u \<Rightarrow> (on_users (update_where (\<lambda>v. u_id v = u_id u) (\<lambda>v. v\<lparr>u_limits := wanted\<rparr>)) p, Inr ()))"

definition retry_system_user :: "draw \<Rightarrow> id \<Rightarrow> panel \<Rightarrow> panel \<times> unit result" where
  "retry_system_user d i p =
     (case users_load (pn_users p) i of
        Inl f \<Rightarrow> (p, Inl f)
      | Inr u \<Rightarrow>
          if u_system_state u = Ready then (p, Inr ())
          else (on_users (set_system (dr_system d) (u_id u)) p,
                if fst (dr_system d) \<noteq> Ready then Inl (conflict ''system_user_not_ready'') else Inr ()))"

end
