(* ===== verification/Panel.thy ===== *)
theory Panel
  imports People
begin

text \<open>
  What holds of the accounts, sign-ups, sessions and reset links of a panel in every state its
  handlers can reach: \<open>panel_step\<close> is one handler of \<open>Registration\<close>, \<open>Recovery\<close> or \<open>People\<close>.
\<close>

subsection \<open>What an account is known by\<close>

definition roll :: "user_row list \<Rightarrow> (id \<times> ustr \<times> ustr option \<times> panel_role) list" where
  "roll users = map (\<lambda>u. (u_id u, u_username u, u_email u, u_role u)) users"

lemma roll_maps:
  "map u_id users = map fst (roll users)" "map u_username users = map (fst \<circ> snd) (roll users)"
  "map u_email users = map (fst \<circ> snd \<circ> snd) (roll users)"
  by (simp_all add: roll_def)

lemma roll_admins: "admin_count users = length (filter (\<lambda>x. snd (snd (snd x)) = Admin) (roll users))"
  by (simp add: admin_count_def count_where_def roll_def filter_map o_def)

lemma roll_update:
  "(\<And>u. u_id (f u) = u_id u \<and> u_username (f u) = u_username u \<and> u_email (f u) = u_email u \<and> u_role (f u) = u_role u) \<Longrightarrow>
    roll (update_where p f users) = roll users"
  unfolding roll_def by (rule map_update) simp

lemma roll_quiet [simp]:
  "roll (set_system a i users) = roll users" "roll (give_password i h b users) = roll users"
  "roll (give_hash i h users) = roll users" "roll (give_must_change i b users) = roll users"
  "roll (set_busy users i b) = roll users" "roll (fst (claim_busy users i)) = roll users"
  "roll (clear_busy users) = roll users" "roll (unready i users) = roll users"
  "roll (settle_cgroup u complaint users) = roll users"
  by (simp_all add: set_system_def give_password_def give_hash_def give_must_change_def set_busy_def claim_busy_def
      Let_def clear_busy_def unready_def settle_cgroup_def roll_update split: option.split)

lemma roll_ids: "roll users' = roll users \<Longrightarrow> u_id ` set users' = u_id ` set users"
  by (metis roll_maps(1) set_map)

lemma in_roll: "u \<in> set users \<Longrightarrow> (u_id u, u_username u, u_email u, u_role u) \<in> set (roll users)"
  by (simp add: roll_def)

lemma roll_has: "(i, n, e, r) \<in> set (roll users) \<Longrightarrow> \<exists>u \<in> set users. u_id u = i \<and> u_username u = n \<and> u_email u = e \<and> u_role u = r"
  by (auto simp: roll_def)

lemma roll_snoc: "roll (users @ [u]) = roll users @ [(u_id u, u_username u, u_email u, u_role u)]"
  by (simp add: roll_def)

lemma roll_accounts: "accounts_ok users \<longleftrightarrow> distinct (map fst (roll users)) \<and> distinct (map (fst \<circ> snd) (roll users)) \<and>
    distinct (filter (\<lambda>e. e \<noteq> None) (map (fst \<circ> snd \<circ> snd) (roll users)))"
  by (simp add: accounts_ok_def roll_maps)

lemma accounts_ok_roll: "roll users' = roll users \<Longrightarrow> accounts_ok users' = accounts_ok users"
  by (simp add: roll_accounts)

lemma row_ok_roll: "roll users' = roll users \<Longrightarrow> row_ok users' = row_ok users"
proof -
  assume "roll users' = roll users"
  then have "map u_email users' = map u_email users" by (simp add: roll_maps)
  then have "u_email ` set users' = u_email ` set users" by (metis set_map)
  then show ?thesis by (simp add: fun_eq_iff row_ok_image)
qed

lemma signups_ok_roll:
  "signups_ok env s \<Longrightarrow> roll users = roll (su_users s) \<Longrightarrow> signups_ok env (s\<lparr>su_users := users\<rparr>)"
  using accounts_ok_roll [of users "su_users s"] row_ok_roll [of users "su_users s"]
  by (simp add: signups_ok_def regs_ok_def)

subsection \<open>Sessions and links\<close>

definition sessions_held :: "user_row list \<Rightarrow> session_row list \<Rightarrow> bool" where
  "sessions_held users t = (sessions_ok t \<and> ses_user ` set t \<subseteq> u_id ` set users)"

text \<open>A link that was mailed is its account's, and went to the address the account has now.\<close>

definition letters_held ::
  "(ustr \<Rightarrow> ustr) \<Rightarrow> user_row list \<Rightarrow> recovery_letter list \<Rightarrow> reset_row list \<Rightarrow> bool" where
  "letters_held digest users mail t =
     (\<forall>i to token. ResetPassword i to token \<in> set mail \<longrightarrow> (\<forall>r \<in> set t. rr_token_hash r = digest token \<longrightarrow>
        rr_user r = i \<and> (\<forall>u \<in> set users. u_id u = i \<longrightarrow> u_email u = Some to)))"

definition resets_held ::
  "(ustr \<Rightarrow> ustr) \<Rightarrow> user_row list \<Rightarrow> recovery_letter list \<Rightarrow> reset_row list \<Rightarrow> bool" where
  "resets_held digest users mail t =
     (distinct (map rr_id t) \<and> distinct (map rr_user t) \<and> distinct (map rr_token_hash t) \<and>
      rr_user ` set t \<subseteq> u_id ` set users \<and>
      letters_held digest users mail t)"

definition panel_ok :: "outside \<Rightarrow> panel \<Rightarrow> bool" where
  "panel_ok env p = (signups_ok env (pn_signups p) \<and> sessions_held (pn_users p) (pn_sessions p) \<and>
     resets_held (out_digest env) (pn_users p) (pn_mail p) (pn_resets p))"

definition panel_fresh :: "outside \<Rightarrow> draw \<Rightarrow> panel \<Rightarrow> bool" where
  "panel_fresh env d p = (fresh_draw env d (pn_signups p) \<and>
     dr_id d \<notin> ses_id ` set (pn_sessions p) \<and> out_digest env (dr_token d) \<notin> ses_token_hash ` set (pn_sessions p) \<and>
     dr_id d \<notin> rr_id ` set (pn_resets p) \<and> out_digest env (dr_token d) \<notin> rr_token_hash ` set (pn_resets p) \<and>
     (\<forall>i to token. ResetPassword i to token \<in> set (pn_mail p) \<longrightarrow> out_digest env token \<noteq> out_digest env (dr_token d)))"

lemma sessions_fewer: "sessions_held users t \<Longrightarrow> sessions_held users (delete_where q t)"
  by (auto simp: sessions_held_def delete_ok set_delete)

lemma sessions_more:
  "sessions_held users t \<Longrightarrow> u_id ` set users \<subseteq> u_id ` set users' \<Longrightarrow> sessions_held users' t"
  unfolding sessions_held_def by blast

lemma sessions_open:
  assumes "sessions_held users t" "dr_id d \<notin> ses_id ` set t" "out_digest env (dr_token d) \<notin> ses_token_hash ` set t"
    "i \<in> u_id ` set users"
  shows "sessions_held users (fst (session_open (out_digest env) t (dr_id d) (dr_token d) i agent now))"
  using assms open_ok [of t "dr_id d" "out_digest env" "dr_token d" i agent now]
  by (simp add: sessions_held_def) (simp add: session_open_def Let_def)

lemma letters_heldD:
  "letters_held digest users mail t \<Longrightarrow> ResetPassword i to token \<in> set mail \<Longrightarrow> r \<in> set t \<Longrightarrow>
    rr_token_hash r = digest token \<Longrightarrow> rr_user r = i \<and> (\<forall>u \<in> set users. u_id u = i \<longrightarrow> u_email u = Some to)"
  by (simp add: letters_held_def)

lemma letters_fewer: "letters_held digest users mail t \<Longrightarrow> set t' \<subseteq> set t \<Longrightarrow> letters_held digest users mail t'"
  unfolding letters_held_def by blast

lemma resets_fewer: "resets_held digest users mail t \<Longrightarrow> resets_held digest users mail (delete_where q t)"
  using letters_fewer [of digest users mail t "delete_where q t"]
  by (auto simp: resets_held_def distinct_delete set_delete)

lemma resets_forget: "resets_held digest users mail t \<Longrightarrow> resets_held digest users mail (fst (reset_forget_all t i))"
  by (simp add: reset_forget_all_def resets_fewer)

lemma resets_mark:
  assumes ok: "resets_held digest users mail t"
  shows "resets_held digest users mail (update_where q (\<lambda>r. r\<lparr>rr_used_at := x\<rparr>) t)" (is "resets_held _ _ _ ?t")
proof -
  have maps: "map rr_id ?t = map rr_id t" "map rr_user ?t = map rr_user t" "map rr_token_hash ?t = map rr_token_hash t"
    by (simp_all add: map_update)
  have "letters_held digest users mail ?t"
    unfolding letters_held_def
  proof (intro allI impI ballI)
    fix i to token r
    assume l: "ResetPassword i to token \<in> set mail" and r: "r \<in> set ?t" "rr_token_hash r = digest token"
    obtain q where q: "q \<in> set t" "rr_user r = rr_user q" "rr_token_hash r = rr_token_hash q"
      using r(1) by (auto simp: in_update split: if_splits)
    have "letters_held digest users mail t" using ok by (simp add: resets_held_def)
    from letters_heldD [OF this l q(1)] r(2) q
    show "rr_user r = i \<and> (\<forall>u \<in> set users. u_id u = i \<longrightarrow> u_email u = Some to)" by simp
  qed
  moreover have "rr_user ` set ?t = rr_user ` set t" using maps(2) by (metis set_map)
  ultimately show ?thesis using ok unfolding resets_held_def maps by simp
qed

text \<open>The rows of the links mean the same over another table of accounts that has their owners.\<close>

lemma resets_users:
  assumes ok: "resets_held digest users mail t" and ids: "rr_user ` set t \<subseteq> u_id ` set users'"
    and same: "\<And>u. u \<in> set users' \<Longrightarrow> u_id u \<in> rr_user ` set t \<Longrightarrow> \<exists>v \<in> set users. u_id v = u_id u \<and> u_email v = u_email u"
  shows "resets_held digest users' mail t"
proof -
  have "letters_held digest users' mail t"
    unfolding letters_held_def
  proof (intro allI impI ballI)
    fix i to token r
    assume l: "ResetPassword i to token \<in> set mail" and r: "r \<in> set t" "rr_token_hash r = digest token"
    have "letters_held digest users mail t" using ok by (simp add: resets_held_def)
    note held = letters_heldD [OF this l r]
    have "u_email u = Some to" if u: "u \<in> set users'" "u_id u = i" for u
    proof -
      have "u_id u \<in> rr_user ` set t" using r(1) u(2) held by force
      then obtain v where "v \<in> set users" "u_id v = u_id u" "u_email v = u_email u" using same [OF u(1)] by blast
      then show ?thesis using held u(2) by auto
    qed
    then show "rr_user r = i \<and> (\<forall>u \<in> set users'. u_id u = i \<longrightarrow> u_email u = Some to)" using held by simp
  qed
  then show ?thesis using ok ids by (simp add: resets_held_def)
qed

lemma resets_mint:
  assumes ok: "resets_held digest users mail t" and user: "rr_user row \<in> u_id ` set users" "rr_user row \<notin> rr_user ` set t"
    and fresh: "rr_id row \<notin> rr_id ` set t" "rr_token_hash row \<notin> rr_token_hash ` set t"
    and new: "\<And>i to token. ResetPassword i to token \<in> set mail \<Longrightarrow> digest token \<noteq> rr_token_hash row"
  shows "resets_held digest users mail (t @ [row])"
proof -
  have "letters_held digest users mail (t @ [row])"
    unfolding letters_held_def
  proof (intro allI impI ballI)
    fix i to token r
    assume l: "ResetPassword i to token \<in> set mail" and r: "r \<in> set (t @ [row])" "rr_token_hash r = digest token"
    then have "r \<in> set t" using new [OF l] by auto
    with ok l r(2) show "rr_user r = i \<and> (\<forall>u \<in> set users. u_id u = i \<longrightarrow> u_email u = Some to)"
      unfolding resets_held_def by (blast dest: letters_heldD)
  qed
  then show ?thesis using ok user fresh by (auto simp: resets_held_def)
qed

lemma resets_letter:
  assumes ok: "resets_held digest users mail t"
    and to: "\<And>r u. r \<in> set t \<Longrightarrow> rr_token_hash r = digest token \<Longrightarrow> rr_user r = i \<and>
      (u \<in> set users \<longrightarrow> u_id u = i \<longrightarrow> u_email u = Some to)"
  shows "resets_held digest users (mail @ [ResetPassword i to token]) t"
  using assms unfolding resets_held_def letters_held_def by auto

lemma resets_plain: "resets_held digest users (mail @ [PasswordChanged i to]) t = resets_held digest users mail t"
  by (simp add: resets_held_def letters_held_def)

subsection \<open>The handlers keep it\<close>

text \<open>Accounts changed in ways nobody is known by, and sessions and links that only went away.\<close>

lemma panel_quiet:
  assumes ok: "panel_ok env p" and users: "roll users' = roll (pn_users p)"
    and s: "pn_signups p' = (pn_signups p)\<lparr>su_users := users', su_rates := b\<rparr>"
    and t: "sessions_held (pn_users p) (pn_sessions p')" and r: "resets_held (out_digest env) (pn_users p) (pn_mail p') (pn_resets p')"
  shows "panel_ok env p'"
proof -
  have users': "pn_users p' = users'" by (simp add: s)
  have "signups_ok env ((pn_signups p)\<lparr>su_users := users'\<rparr>)"
    using ok users by (simp add: panel_ok_def signups_ok_roll)
  then have "signups_ok env (pn_signups p')"
    by (rule signups_ok_parts) (simp_all add: s)
  moreover have ids: "u_id ` set (pn_users p') = u_id ` set (pn_users p)"
    unfolding users' using users by (metis roll_maps(1) set_map)
  then have "sessions_held (pn_users p') (pn_sessions p')" using t by (simp add: sessions_held_def)
  moreover have "resets_held (out_digest env) (pn_users p') (pn_mail p') (pn_resets p')"
  proof (rule resets_users [OF r])
    show "rr_user ` set (pn_resets p') \<subseteq> u_id ` set (pn_users p')" using r ids by (simp add: resets_held_def)
  next
    fix u assume "u \<in> set (pn_users p')"
    from in_roll [OF this] show "\<exists>v \<in> set (pn_users p). u_id v = u_id u \<and> u_email v = u_email u"
      unfolding users' users by (blast dest: roll_has)
  qed
  ultimately show ?thesis by (simp add: panel_ok_def)
qed

text \<open>A new account, with an identifier nobody has.\<close>

lemma panel_new_user:
  assumes ok: "panel_ok env p" and s: "signups_ok env s" and new: "i \<notin> u_id ` set (pn_users p)"
    and users: "roll (su_users s) = roll (pn_users p) \<or> (\<exists>n e r. roll (su_users s) = roll (pn_users p) @ [(i, n, e, r)])"
  shows "panel_ok env (p\<lparr>pn_signups := s\<rparr>)"
proof -
  have ids: "u_id ` set (su_users s) = fst ` set (roll (su_users s))" "u_id ` set (pn_users p) = fst ` set (roll (pn_users p))"
    by (metis roll_maps(1) set_map)+
  have more: "u_id ` set (pn_users p) \<subseteq> u_id ` set (su_users s)" unfolding ids using users by auto
  have r: "rr_user ` set (pn_resets p) \<subseteq> u_id ` set (pn_users p)" using ok by (simp add: panel_ok_def resets_held_def)
  have "resets_held (out_digest env) (su_users s) (pn_mail p) (pn_resets p)"
  proof (rule resets_users)
    show "resets_held (out_digest env) (pn_users p) (pn_mail p) (pn_resets p)" using ok by (simp add: panel_ok_def)
    show "rr_user ` set (pn_resets p) \<subseteq> u_id ` set (su_users s)" using r more by blast
  next
    fix u assume u: "u \<in> set (su_users s)" "u_id u \<in> rr_user ` set (pn_resets p)"
    then have "u_id u \<noteq> i" using r new by blast
    moreover have "(u_id u, u_username u, u_email u, u_role u) \<in> set (roll (su_users s))" using u(1) by (rule in_roll)
    ultimately have "(u_id u, u_username u, u_email u, u_role u) \<in> set (roll (pn_users p))" using users by auto
    then show "\<exists>v \<in> set (pn_users p). u_id v = u_id u \<and> u_email v = u_email u" by (blast dest: roll_has)
  qed
  then show ?thesis using ok s sessions_more [OF _ more] by (simp add: panel_ok_def)
qed


subsection \<open>Who joins\<close>

text \<open>A handler leaves the roll alone or adds one account under the fresh identifier.\<close>

definition joined :: "draw \<Rightarrow> user_row list \<Rightarrow> user_row list \<Rightarrow> bool" where
  "joined d users users' = (roll users' = roll users \<or> (\<exists>n e r. roll users' = roll users @ [(dr_id d, n, e, r)]))"

lemma joined_refl [simp]: "joined d users users"
  by (simp add: joined_def)

lemma joined_insert:
  assumes "users_insert users (dr_id d) new now = Inr (users', row)"
  shows "joined d users (set_system a i users') \<and> joined d users users'"
proof -
  have "users' = users @ [new_row (dr_id d) new now]"
    using assms by (auto simp: users_insert_def Let_def split: if_splits)
  then show ?thesis by (auto simp: joined_def roll_snoc new_row_def)
qed

lemma admit_joined: "joined d (su_users s) (su_users (fst (admit d r pw s)))"
proof -
  obtain s' x where run: "admit d r pw s = (s', x)" by (cases "admit d r pw s")
  then show ?thesis
  proof (cases rule: admit_cases)
    case (2 users row)
    from joined_insert [OF 2(2)] show ?thesis by (simp add: run 2(3))
  qed (simp add: run)
qed

lemma tell_the_admins_same [simp]:
  "su_users (tell_the_admins d r s) = su_users s" "su_regs (tell_the_admins d r s) = su_regs s"
proof -
  have "su_users (fold (\<lambda>u. send_letter d (AccountAwaitingReview (u_id u) n)) us s) = su_users s \<and>
      su_regs (fold (\<lambda>u. send_letter d (AccountAwaitingReview (u_id u) n)) us s) = su_regs s" for us :: "user_row list" and n
    by (induction us arbitrary: s) simp_all
  then show "su_users (tell_the_admins d r s) = su_users s" "su_regs (tell_the_admins d r s) = su_regs s"
    by (simp_all add: tell_the_admins_def)
qed

lemma write_application_users: "su_users (fst (write_application env d name email pw from u s)) = su_users s"
  by (simp add: write_application_def Let_def split: sum.split option.split prod.split)

lemma reg_apply_users: "su_users (fst (reg_apply env d n e c from s)) = su_users s"
proof -
  obtain s' x where run: "reg_apply env d n e c from s = (s', x)" by fastforce
  then show ?thesis
  proof (cases rule: reg_apply_cases)
    case (2 b address pw opened unconfirmed)
    from 2(5) have "s' = fst (open_application env d (trim n) address pw from opened unconfirmed (s\<lparr>su_rates := b\<rparr>))" by simp
    also have "su_users \<dots> = su_users s"
      by (simp add: open_application_def write_application_users split: option.split)
    finally show ?thesis by (simp add: run)
  qed (simp add: run)
qed

lemma reg_verify_joined: "joined d (su_users s) (su_users (fst (reg_verify env d token from s)))"
proof -
  obtain s' x where run: "reg_verify env d token from s = (s', x)" by fastforce
  then show ?thesis
  proof (cases rule: reg_verify_cases)
    case (admit r pw y)
    with admit_joined [of d s r pw] show ?thesis by (simp add: run)
  qed (simp_all add: run)
qed

lemma reg_resend_users: "su_users (fst (reg_resend env d email s)) = su_users s"
  by (simp add: reg_resend_def mint_and_send_def Let_def split: sum.split option.split prod.split)

lemma reg_approve_joined: "joined d (su_users s) (su_users (fst (reg_approve d i s)))"
proof -
  obtain s' x where run: "reg_approve d i s = (s', x)" by fastforce
  then show ?thesis
  proof (cases rule: reg_approve_cases)
    case (yes r s1 u)
    with admit_joined [of d s r "reg_password_hash r"] show ?thesis by (simp add: run)
  qed (simp add: run)
qed

lemma reg_reject_users: "su_users (fst (reg_reject d i reason s)) = su_users s"
  by (simp add: reg_reject_def split: sum.split)

lemma reg_sweep_users: "su_users (fst (reg_sweep_now now s)) = su_users s"
  by (simp add: reg_sweep_now_def reg_sweep_def Let_def)

subsection \<open>The steps\<close>

definition on_signups :: "(signups \<Rightarrow> signups) \<Rightarrow> panel \<Rightarrow> panel" where
  "on_signups h p = p\<lparr>pn_signups := h (pn_signups p)\<rparr>"

text \<open>What an administrator sets and a restart forgets: not the tables.\<close>

definition configured :: "bool \<Rightarrow> bool \<Rightarrow> user_limits \<Rightarrow> bool \<Rightarrow> bool \<Rightarrow> panel \<Rightarrow> panel" where
  "configured enabled approval limits can_link mail p =
     p\<lparr>pn_signups := (pn_signups p)\<lparr>su_enabled := enabled, su_requires_approval := approval,
         su_default_limits := limits, su_can_link := can_link\<rparr>, pn_mail_configured := mail\<rparr>"

definition restarted :: "panel \<Rightarrow> panel" where
  "restarted p = on_users clear_busy (with_rates Map.empty (p\<lparr>pn_brake := Map.empty\<rparr>))"

inductive panel_step :: "outside \<Rightarrow> panel \<Rightarrow> panel \<Rightarrow> bool" for env where
  apply_step: "panel_fresh env d p \<Longrightarrow>
    panel_step env p (on_signups (\<lambda>s. fst (reg_apply env d name email chosen from s)) p)"
| verify_step: "panel_fresh env d p \<Longrightarrow> panel_step env p (on_signups (\<lambda>s. fst (reg_verify env d token from s)) p)"
| resend_step: "panel_fresh env d p \<Longrightarrow> panel_step env p (on_signups (\<lambda>s. fst (reg_resend env d email s)) p)"
| approve_step: "panel_fresh env d p \<Longrightarrow> panel_step env p (on_signups (\<lambda>s. fst (reg_approve d i s)) p)"
| reject_step: "panel_step env p (on_signups (\<lambda>s. fst (reg_reject d i reason s)) p)"
| sweep_step: "panel_step env p (on_signups (\<lambda>s. fst (reg_sweep_now now s)) p)"
| note_step: "panel_step env p (fst (reset_note_request env d email from p))"
| mint_step: "panel_fresh env d p \<Longrightarrow> panel_step env p (reset_mint env d typed from agent p)"
| behalf_step: "panel_fresh env d p \<Longrightarrow> panel_step env p (fst (reset_for_user env d i p))"
| whose_step: "panel_step env p (fst (reset_whose env d token from p))"
| confirm_step: "panel_step env p (fst (reset_confirm env d token chosen from p))"
| login_step: "panel_fresh env d p \<Longrightarrow> panel_step env p (fst (login env d username password address agent p))"
| logout_step: "panel_step env p (logout env d cookie p)"
| password_step: "panel_fresh env d p \<Longrightarrow> panel_step env p (fst (change_password env d cookie current chosen p))"
| passwd_step: "panel_step env p (fst (cli_set_password env d username secret must_change p))"
| email_step: "panel_step env p (fst (cli_set_email env username wanted p))"
| link_step: "panel_fresh env d p \<Longrightarrow>
    panel_step env p (fst (cli_reset_link env d link_base username base_url minutes p))"
| install_step: "panel_fresh env d p \<Longrightarrow>
    panel_step env p (fst (cli_install env d username typed secret must_change p))"
| create_step: "panel_fresh env d p \<Longrightarrow> panel_step env p (fst (create_user env d new_account p))"
| update_step: "panel_step env p (fst (update_user env d i wanted_change complaint p))"
| delete_step: "panel_step env p (fst (delete_user me i servers transfer_to running moved p))"
| release_step: "panel_step env p (on_users (\<lambda>users. set_busy users i False) p)"
| limits_step: "panel_step env p (fst (write_limits i wanted_limits helper p))"
| retry_step: "panel_step env p (fst (retry_system_user d i p))"
| slide_step: "panel_step env p (p\<lparr>pn_sessions := fst (slide_sessions (out_digest env) (pn_sessions p) cookie now)\<rparr>)"
| configure_step: "panel_step env p (configured enabled approval limits can_link mail p)"
| restart_step: "panel_step env p (restarted p)"

inductive panel_reachable :: "outside \<Rightarrow> panel \<Rightarrow> bool" for env where
  empty: "pn_users p = [] \<Longrightarrow> su_regs (pn_signups p) = [] \<Longrightarrow> su_letters (pn_signups p) = [] \<Longrightarrow>
    pn_sessions p = [] \<Longrightarrow> pn_resets p = [] \<Longrightarrow> pn_mail p = [] \<Longrightarrow> panel_reachable env p"
| step: "panel_reachable env p \<Longrightarrow> panel_step env p p' \<Longrightarrow> panel_reachable env p'"


subsection \<open>Every step keeps the panel in order\<close>

lemma panel_simps [simp]:
  "pn_users (on_users f p) = f (pn_users p)" "pn_sessions (on_users f p) = pn_sessions p"
  "pn_resets (on_users f p) = pn_resets p" "pn_mail (on_users f p) = pn_mail p" "pn_servers (on_users f p) = pn_servers p"
  "pn_users (with_rates b p) = pn_users p" "pn_sessions (with_rates b p) = pn_sessions p"
  "pn_resets (with_rates b p) = pn_resets p" "pn_mail (with_rates b p) = pn_mail p"
  "pn_signups (mail_letter d l p) = pn_signups p" "pn_sessions (mail_letter d l p) = pn_sessions p"
  "pn_resets (mail_letter d l p) = pn_resets p"
  "pn_mail (mail_letter d l p) = (if dr_mail_taken d then pn_mail p @ [l] else pn_mail p)"
  by (simp_all add: on_users_def with_rates_def mail_letter_def)

lemma rates_kept: "panel_ok env p \<Longrightarrow> panel_ok env (with_rates b p)"
  by (simp add: panel_ok_def with_rates_def signups_ok_def)

lemma users_kept: "panel_ok env p \<Longrightarrow> roll (f (pn_users p)) = roll (pn_users p) \<Longrightarrow> panel_ok env (on_users f p)"
  by (rule panel_quiet [where p = p and users' = "f (pn_users p)" and b = "su_rates (pn_signups p)"])
    (simp_all add: panel_ok_def, simp add: on_users_def)

lemma sessions_kept: "panel_ok env p \<Longrightarrow> sessions_held (pn_users p) t \<Longrightarrow> panel_ok env (p\<lparr>pn_sessions := t\<rparr>)"
  by (simp add: panel_ok_def)

lemma resets_kept:
  "panel_ok env p \<Longrightarrow> resets_held (out_digest env) (pn_users p) (pn_mail p) t \<Longrightarrow> panel_ok env (p\<lparr>pn_resets := t\<rparr>)"
  by (simp add: panel_ok_def)

lemma notice_kept: "panel_ok env p \<Longrightarrow> panel_ok env (mail_letter d (PasswordChanged i to) p)"
  by (simp add: panel_ok_def resets_plain)

lemma closed_kept: "panel_ok env p \<Longrightarrow> panel_ok env (p\<lparr>pn_sessions := fst (session_close_all_of (pn_sessions p) i x)\<rparr>)"
  by (rule sessions_kept) (simp_all add: session_close_all_of_def Let_def sessions_fewer panel_ok_def)

lemma forgotten_kept: "panel_ok env p \<Longrightarrow> panel_ok env (p\<lparr>pn_resets := fst (reset_forget_all (pn_resets p) i)\<rparr>)"
  by (rule resets_kept) (simp_all add: resets_forget panel_ok_def)

lemma purged_kept: "panel_ok env p \<Longrightarrow> panel_ok env (p\<lparr>pn_resets := reset_purge (pn_resets p) now\<rparr>)"
  by (rule resets_kept) (simp_all add: reset_purge_def Let_def resets_fewer panel_ok_def)

text \<open>A fresh link takes the place of the account's others; its letter goes to the account's address.\<close>

lemma minted:
  assumes ok: "panel_ok env p" and fresh: "panel_fresh env d p" and u: "u \<in> set (pn_users p)"
    and row: "rr_id row = dr_id d" "rr_user row = u_id u" "rr_token_hash row = out_digest env (dr_token d)"
    and t: "t = delete_where (\<lambda>r. rr_user r = u_id u) (delete_where q (pn_resets p)) @ [row]"
  shows "panel_ok env (p\<lparr>pn_resets := t\<rparr>)"
    and "u_email u = Some to \<Longrightarrow> panel_ok env (p\<lparr>pn_resets := t, pn_mail := pn_mail p @ [ResetPassword (u_id u) to (dr_token d)]\<rparr>)"
proof -
  let ?t = "delete_where (\<lambda>r. rr_user r = u_id u) (delete_where q (pn_resets p))"
  have old: "resets_held (out_digest env) (pn_users p) (pn_mail p) ?t"
    using ok by (simp add: panel_ok_def resets_fewer)
  have held: "resets_held (out_digest env) (pn_users p) (pn_mail p) t"
    unfolding t
  proof (rule resets_mint [OF old])
    show "rr_user row \<in> u_id ` set (pn_users p)" using u row by simp
    show "rr_user row \<notin> rr_user ` set ?t" using row by (auto simp: set_delete)
    show "rr_id row \<notin> rr_id ` set ?t" "rr_token_hash row \<notin> rr_token_hash ` set ?t"
      using fresh row by (auto simp: panel_fresh_def set_delete)
  next
    fix i to token assume "ResetPassword i to token \<in> set (pn_mail p)"
    then show "out_digest env token \<noteq> rr_token_hash row" using fresh row by (auto simp: panel_fresh_def)
  qed
  with ok show "panel_ok env (p\<lparr>pn_resets := t\<rparr>)" by (simp add: panel_ok_def)
  assume email: "u_email u = Some to"
  have "resets_held (out_digest env) (pn_users p) (pn_mail p @ [ResetPassword (u_id u) to (dr_token d)]) t"
  proof (rule resets_letter [OF held])
    fix r v assume "r \<in> set t" "rr_token_hash r = out_digest env (dr_token d)"
    moreover have "out_digest env (dr_token d) \<notin> rr_token_hash ` set (pn_resets p)" using fresh by (simp add: panel_fresh_def)
    ultimately have "r \<notin> set (pn_resets p)" by (metis imageI)
    with \<open>r \<in> set t\<close> have "r = row" by (simp add: t set_delete)
    moreover have "v = u" if "v \<in> set (pn_users p)" "u_id v = u_id u"
      using that u ok by (auto simp: panel_ok_def signups_ok_def accounts_ok_def
          dest: inj_onD [OF distinct_map [THEN iffD1, THEN conjunct2]])
    ultimately show "rr_user r = u_id u \<and> (v \<in> set (pn_users p) \<longrightarrow> u_id v = u_id u \<longrightarrow> u_email v = Some to)"
      using row email by auto
  qed
  with ok show "panel_ok env (p\<lparr>pn_resets := t, pn_mail := pn_mail p @ [ResetPassword (u_id u) to (dr_token d)]\<rparr>)"
    by (simp add: panel_ok_def)
qed

lemma users_by_email_in: "users_by_email users e = Some u \<Longrightarrow> u \<in> set users \<and> u_email u = Some e"
  by (auto simp: users_by_email_def dest: fetch_SomeD)

lemma users_by_name_in: "users_by_name lower users n = Some u \<Longrightarrow> u \<in> set users"
  by (auto simp: users_by_name_def dest: fetch_SomeD)

lemma users_load_in: "users_load users i = Inr u \<Longrightarrow> u \<in> set users \<and> u_id u = i"
  by (auto simp: users_load_def users_find_def split: option.splits dest: fetch_SomeD)

lemma mint_kept:
  assumes ok: "panel_ok env p" and fresh: "panel_fresh env d p"
  shows "panel_ok env (reset_mint env d typed from agent p)"
proof -
  let ?p = "p\<lparr>pn_resets := reset_purge (pn_resets p) (dr_now d)\<rparr>"
  have p: "panel_ok env ?p" using ok by (rule purged_kept)
  show ?thesis
  proof (cases "normalise_address (out_lower env) typed")
    case (Inr email)
    show ?thesis
    proof (cases "users_by_email (pn_users p) email")
      case (Some u)
      note u = users_by_email_in [OF Some]
      define row where "row = \<lparr>rr_id = dr_id d, rr_user = u_id u, rr_token_hash = out_digest env (dr_token d),
        rr_created_at = dr_now d, rr_expires_at = dr_now d + LIFETIME, rr_used_at = None,
        rr_requested_ip = from, rr_user_agent = agent\<rparr>"
      have row: "rr_id row = dr_id d" "rr_user row = u_id u" "rr_token_hash row = out_digest env (dr_token d)"
        by (simp_all add: row_def)
      define t where "t = fst (reset_forget_all (reset_purge (pn_resets p) (dr_now d)) (u_id u)) @ [row]"
      have t: "t = delete_where (\<lambda>r. rr_user r = u_id u) (delete_where (\<lambda>r. (\<exists>used. rr_used_at r = Some used \<and>
          used < dr_now d - KEEP_SPENT) \<or> rr_expires_at r < dr_now d - KEEP_SPENT) (pn_resets p)) @ [row]"
        by (simp add: t_def reset_forget_all_def reset_purge_def Let_def)
      note m = minted(1) [OF ok fresh u [THEN conjunct1] row t]
        minted(2) [OF ok fresh u [THEN conjunct1] row t u [THEN conjunct2]]
      have "panel_ok env (mail_letter d (ResetPassword (u_id u) email (dr_token d)) (p\<lparr>pn_resets := t\<rparr>))" if "dr_mail_taken d"
        using m(2) that by (simp add: mail_letter_def)
      moreover have "panel_ok env (p\<lparr>pn_resets := delete_where q t\<rparr>)" for q
        using m(1) by (simp add: panel_ok_def resets_fewer)
      ultimately show ?thesis using p Inr Some
        by (simp add: reset_mint_def Let_def t_def row_def)
    qed (use p Inr in \<open>simp add: reset_mint_def\<close>)
  qed (use p in \<open>simp add: reset_mint_def\<close>)
qed


lemma with_rates_users [simp]: "su_can_link (pn_signups (with_rates b p)) = su_can_link (pn_signups p)"
  by (simp add: with_rates_def)

lemma fresh_rates: "panel_fresh env d p \<Longrightarrow> panel_fresh env d (with_rates b p)"
  by (simp add: panel_fresh_def fresh_draw_def with_rates_def)

lemma behalf_kept:
  assumes ok: "panel_ok env p" and fresh: "panel_fresh env d p" and u: "u \<in> set (pn_users p)"
  shows "panel_ok env (fst (reset_on_behalf_of env d u p))"
proof -
  obtain b waiting where b: "bucket_take (su_rates (pn_signups p)) ADMIN_RESET_PER_ACCOUNT
      (out_id_text env (u_id u)) (dr_instant d) = (b, waiting)" by fastforce
  let ?p = "with_rates b p"
  have p: "panel_ok env ?p" using ok by (rule rates_kept)
  show ?thesis
  proof (cases "u_email u")
    case (Some email)
    define row where "row = \<lparr>rr_id = dr_id d, rr_user = u_id u, rr_token_hash = out_digest env (dr_token d),
      rr_created_at = dr_now d, rr_expires_at = dr_now d + LIFETIME, rr_used_at = None,
      rr_requested_ip = None, rr_user_agent = None\<rparr>"
    have row: "rr_id row = dr_id d" "rr_user row = u_id u" "rr_token_hash row = out_digest env (dr_token d)"
      by (simp_all add: row_def)
    define t where "t = reset_mint_for (out_digest env) (fst (reset_forget_all (reset_purge (pn_resets p) (dr_now d)) (u_id u)))
      (dr_id d) (dr_token d) (u_id u) None None (dr_now d)"
    have t: "t = delete_where (\<lambda>r. rr_user r = u_id u) (delete_where (\<lambda>r. (\<exists>used. rr_used_at r = Some used \<and>
        used < dr_now d - KEEP_SPENT) \<or> rr_expires_at r < dr_now d - KEEP_SPENT) (pn_resets ?p)) @ [row]"
      by (simp add: t_def reset_forget_all_def reset_purge_def Let_def reset_mint_for_def row_def)
    have u': "u \<in> set (pn_users ?p)" using u by simp
    note m = minted(1) [OF p fresh_rates [OF fresh] u' row t] minted(2) [OF p fresh_rates [OF fresh] u' row t Some]
    have "panel_ok env (mail_letter d (ResetPassword (u_id u) email (dr_token d)) (?p\<lparr>pn_resets := t\<rparr>))" if "dr_mail_taken d"
      using m(2) that by (simp add: mail_letter_def)
    moreover have "panel_ok env (?p\<lparr>pn_resets := fst (reset_forget_all t (u_id u))\<rparr>)"
      using forgotten_kept [OF m(1)] by simp
    ultimately show ?thesis using ok p Some b
      by (simp add: reset_on_behalf_of_def Let_def t_def)
  qed (use ok in \<open>simp add: reset_on_behalf_of_def\<close>)
qed

lemma for_user_kept:
  assumes ok: "panel_ok env p" and fresh: "panel_fresh env d p"
  shows "panel_ok env (fst (reset_for_user env d i p))"
  using ok behalf_kept [OF ok fresh] users_load_in [of "pn_users p" i]
  by (auto simp: reset_for_user_def split: sum.split)

lemma refused_kept: "panel_ok env p \<Longrightarrow> panel_ok env (fst (reset_refuse d from p))"
  by (simp add: reset_refuse_def rates_kept split: option.split)

lemma note_kept: "panel_ok env p \<Longrightarrow> panel_ok env (fst (reset_note_request env d email from p))"
  by (simp add: reset_note_request_def Let_def rates_kept split: prod.split)

lemma whose_kept: "panel_ok env p \<Longrightarrow> panel_ok env (fst (reset_whose env d token from p))"
  using refused_kept [of env p d "from"]
  by (auto simp: reset_whose_def Let_def split: sum.split option.split prod.split)

lemma settle_kept:
  assumes ok: "panel_ok env p"
  shows "panel_ok env (reset_settle env d token user hash p)"
proof -
  let ?q = "on_users (give_password user hash False) p"
  have q: "panel_ok env ?q" by (rule users_kept [OF ok]) simp
  let ?t = "reset_forget_others (update_where (\<lambda>r. rr_token_hash r = out_digest env token)
    (\<lambda>r. r\<lparr>rr_used_at := Some (dr_now d)\<rparr>) (pn_resets p)) user (out_digest env token)"
  have "resets_held (out_digest env) (pn_users ?q) (pn_mail ?q) ?t"
    unfolding reset_forget_others_def
    by (intro resets_fewer resets_mark) (use q in \<open>simp add: panel_ok_def\<close>)
  from closed_kept [OF resets_kept [OF q this], of user None]
  have p': "panel_ok env (?q\<lparr>pn_resets := ?t, pn_sessions := fst (session_close_all_of (pn_sessions p) user None)\<rparr>)"
    by simp
  show ?thesis
    using p' notice_kept [OF p'] by (simp add: reset_settle_def Let_def split: option.split)
qed

lemma confirm_kept:
  assumes ok: "panel_ok env p"
  shows "panel_ok env (fst (reset_confirm env d token chosen from p))"
proof -
  obtain q x where q: "reset_ready env d token chosen from p = (q, x)" by fastforce
  have "panel_ok env q"
    using q ok refused_kept [OF ok, of d "from"]
    by (auto simp: reset_ready_def Let_def split: sum.splits option.splits prod.splits)
  then show ?thesis using q settle_kept by (auto simp: reset_confirm_def split: sum.split prod.split)
qed


subsection \<open>Signing in and the terminal\<close>

lemma sign_in_kept:
  assumes ok: "panel_ok env p" and fresh: "panel_fresh env d p" and u: "u \<in> set (pn_users p)"
  shows "panel_ok env (fst (sign_in env d name address agent u p))"
proof -
  define t where "t = fst (session_open (out_digest env) (fst (session_purge_expired (pn_sessions p) (dr_now d)))
    (dr_id d) (dr_token d) (u_id u) agent (dr_now d))"
  have "sessions_held (pn_users p) (fst (session_purge_expired (pn_sessions p) (dr_now d)))"
    using ok by (simp add: session_purge_expired_def sessions_fewer panel_ok_def)
  then have t: "sessions_held (pn_users p) t"
    unfolding t_def by (rule sessions_open)
      (use fresh u in \<open>auto simp: panel_fresh_def session_purge_expired_def set_delete\<close>)
  let ?q = "p\<lparr>pn_brake := brake_forget (out_lower env) (pn_brake p) name address, pn_sessions := t\<rparr>"
  have "panel_ok env ?q" using ok t by (simp add: panel_ok_def)
  then have "panel_ok env (on_users (update_where (\<lambda>v. u_id v = u_id u) (\<lambda>v. v\<lparr>u_last_login_at := Some (dr_now d)\<rparr>)) ?q)"
    by (rule users_kept) (simp add: roll_update)
  then show ?thesis by (simp add: sign_in_def Let_def split_beta t_def)
qed

lemma brake_kept: "panel_ok env p \<Longrightarrow> panel_ok env (p\<lparr>pn_brake := b\<rparr>)"
  by (simp add: panel_ok_def)

lemma login_kept:
  assumes ok: "panel_ok env p" and fresh: "panel_fresh env d p"
  shows "panel_ok env (fst (login env d username password address agent p))"
proof -
  let ?name = "out_lower env (trim username)"
  have refused: "panel_ok env (fst (refuse_login env d ?name address p))"
    using ok by (simp add: refuse_login_def brake_kept)
  have "panel_ok env (fst (sign_in env d ?name address agent u p))"
    if "users_by_name (out_lower env) (pn_users p) ?name = Some u" for u
    by (rule sign_in_kept [OF ok fresh users_by_name_in [OF that]])
  with ok refused show ?thesis
    by (simp add: login_def Let_def split_beta split: sum.split option.split)
qed

lemma logout_kept: "panel_ok env p \<Longrightarrow> panel_ok env (logout env d cookie p)"
  by (auto simp: logout_def session_close_def panel_ok_def sessions_fewer split: option.split)

lemma caller_in: "caller_of_request digest t users cookie now = Inr c \<Longrightarrow> caller_user c \<in> set users"
  by (auto simp: caller_of_request_def users_find_def split: option.splits dest: fetch_SomeD)

lemma change_password_kept:
  assumes ok: "panel_ok env p" and fresh: "panel_fresh env d p"
  shows "panel_ok env (fst (change_password env d cookie current chosen p))"
proof -
  have changed: "panel_ok env ((on_users (give_password (caller_id c) hash False) p)\<lparr>pn_sessions := fst (session_open (out_digest env)
      (fst (session_close_all_of (pn_sessions p) (caller_id c) None)) (dr_id d) (dr_token d) (caller_id c) None (dr_now d)),
      pn_resets := fst (reset_forget_all (pn_resets p) (caller_id c))\<rparr>)"
    if "caller_user c \<in> set (pn_users p)" for c hash
  proof -
    let ?q = "on_users (give_password (caller_id c) hash False) p"
    let ?t = "fst (session_close_all_of (pn_sessions p) (caller_id c) None)"
    have q: "panel_ok env ?q" by (rule users_kept [OF ok]) simp
    have "sessions_held (pn_users p) ?t"
      using ok by (simp add: session_close_all_of_def Let_def sessions_fewer panel_ok_def)
    then have "sessions_held (pn_users p) (fst (session_open (out_digest env) ?t (dr_id d) (dr_token d) (caller_id c) None (dr_now d)))"
      by (rule sessions_open)
        (use fresh that in \<open>auto simp: panel_fresh_def session_close_all_of_def Let_def set_delete caller_id_def\<close>)
    then have "sessions_held (pn_users ?q) (fst (session_open (out_digest env) ?t (dr_id d) (dr_token d) (caller_id c) None (dr_now d)))"
      by (rule sessions_more) (simp add: roll_ids [of "give_password (caller_id c) hash False (pn_users p)"])
    from forgotten_kept [OF sessions_kept [OF q this], of "caller_id c"] show ?thesis by simp
  qed
  show ?thesis
  proof (cases "caller_of_request (out_digest env) (pn_sessions p) (pn_users p) cookie (dr_now d)")
    case (Inr c)
    with ok changed [OF caller_in [OF Inr]] show ?thesis
      by (simp add: change_password_def Let_def split: sum.split)
  qed (use ok in \<open>simp add: change_password_def\<close>)
qed

lemma passwd_kept:
  assumes ok: "panel_ok env p"
  shows "panel_ok env (fst (cli_set_password env d username secret must_change p))"
proof -
  have "panel_ok env ((on_users (give_password i h must_change) p)\<lparr>pn_sessions := fst (session_close_all_of (pn_sessions p) i None),
      pn_resets := fst (reset_forget_all (pn_resets p) i)\<rparr>)" for i h
  proof -
    have "panel_ok env (on_users (give_password i h must_change) p)" by (rule users_kept [OF ok]) simp
    from forgotten_kept [OF closed_kept [OF this, of i None], of i] show ?thesis by simp
  qed
  with ok show ?thesis by (simp add: cli_set_password_def Let_def split_beta split: sum.split)
qed

lemma link_kept:
  assumes ok: "panel_ok env p" and fresh: "panel_fresh env d p"
  shows "panel_ok env (fst (cli_reset_link env d link_base username base_url minutes p))"
proof -
  have "panel_ok env (p\<lparr>pn_resets := reset_mint_for (out_digest env) (fst (reset_forget_all (pn_resets p) (u_id u)))
      (dr_id d) (dr_token d) (u_id u) life None (dr_now d)\<rparr>)" if u: "u \<in> set (pn_users p)" for u life
    by (rule minted(1) [OF ok fresh u, where q = "\<lambda>_. False"])
      (simp_all add: reset_mint_for_def reset_forget_all_def delete_where_def)
  with ok show ?thesis
    by (auto simp: cli_reset_link_def cli_account_def Let_def dest!: users_by_name_in split: sum.splits option.splits)
qed


subsection \<open>Names and addresses that change\<close>

text \<open>What the links look at of an account.\<close>

definition reached :: "user_row list \<Rightarrow> (id \<times> ustr option) list" where
  "reached users = map (\<lambda>u. (u_id u, u_email u)) users"

definition readdress :: "id \<Rightarrow> ustr option \<Rightarrow> (id \<times> ustr option) list \<Rightarrow> (id \<times> ustr option) list" where
  "readdress i e = map (\<lambda>(j, x). (j, if j = i then e else x))"

lemma roll_reached: "roll users' = roll users \<Longrightarrow> reached users' = reached users"
proof -
  have "reached u = map (\<lambda>(i, n, e, r). (i, e)) (roll u)" for u by (simp add: reached_def roll_def)
  then show "roll users' = roll users \<Longrightarrow> reached users' = reached users" by simp
qed

lemma reached_ids: "map fst (reached users) = map u_id users" "map snd (reached users) = map u_email users"
  by (simp_all add: reached_def)

lemma reached_update:
  "(\<And>u. u_id (f u) = u_id u \<and> u_email (f u) = u_email u) \<Longrightarrow> reached (update_where p f users) = reached users"
  unfolding reached_def by (rule map_update) simp

lemma reached_email:
  "reached (update_where (\<lambda>u. u_id u = i) (\<lambda>u. u\<lparr>u_email := e\<rparr>) users) = readdress i e (reached users)"
  by (auto simp: reached_def readdress_def update_where_def)

lemma distinct_some_update:
  "distinct (map j t) \<Longrightarrow> distinct (filter (\<lambda>e. e \<noteq> None) (map k t)) \<Longrightarrow> (\<And>r. p r \<Longrightarrow> j r = i) \<Longrightarrow>
    (\<And>r. r \<in> set t \<Longrightarrow> c \<noteq> None \<Longrightarrow> \<not> p r \<Longrightarrow> k r \<noteq> c) \<Longrightarrow> (\<And>r. k (f r) = c) \<Longrightarrow>
    distinct (filter (\<lambda>e. e \<noteq> None) (map k (update_where p f t)))"
proof (induction t)
  case (Cons x t)
  have IH: "distinct (filter (\<lambda>e. e \<noteq> None) (map k (update_where p f t)))" using Cons by (simp split: if_splits)
  show ?case
  proof (cases "p x")
    case True
    have "\<not> p y" if "y \<in> set t" for y
      using Cons.prems(1,3) True that by (metis distinct.simps(2) image_eqI list.set_map list.simps(9))
    then have "update_where p f t = t" by (simp add: update_where_def map_idI)
    moreover have "k y \<noteq> c" if "y \<in> set t" "c \<noteq> None" for y
      using Cons.prems(4) [of y] \<open>\<And>y. y \<in> set t \<Longrightarrow> \<not> p y\<close> that by simp
    then have "c \<noteq> None \<Longrightarrow> c \<notin> k ` set t" by blast
    ultimately show ?thesis using IH True Cons.prems(5) by (auto simp: update_where_def)
  next
    case False
    then have "c \<noteq> None \<Longrightarrow> k x \<noteq> c" using Cons.prems(4) by simp
    then have "k x \<noteq> None \<Longrightarrow> k x \<notin> k ` set (update_where p f t)"
      using Cons.prems(2,5) by (auto simp: update_where_def split: if_splits)
    moreover have "update_where p f (x # t) = x # update_where p f t" using False by (simp add: update_where_def)
    ultimately show ?thesis using IH by auto
  qed
qed (simp add: update_where_def)

lemma update_nobody: "\<not> (\<exists>u \<in> set t. p u) \<Longrightarrow> update_where p f t = t"
  by (simp add: update_where_def map_idI)

lemma give_name_ok:
  assumes ok: "accounts_ok users" and given: "give_name i name users = Inr users'"
  shows "accounts_ok users' \<and> reached users' = reached users"
proof -
  have users': "users' = update_where (\<lambda>u. u_id u = i) (\<lambda>u. u\<lparr>u_username := name\<rparr>) users"
    using given by (auto simp: give_name_def split: if_splits)
  have "distinct (map u_username users')"
  proof (cases "\<exists>u \<in> set users. u_id u = i")
    case True
    show ?thesis unfolding users'
    proof (rule distinct_update_one [where j = u_id and i = i])
      show "u_username u \<noteq> name" if "u \<in> set users" "u_id u \<noteq> i" for u
        using given True that by (auto simp: give_name_def split: if_splits)
    qed (use ok in \<open>simp_all add: accounts_ok_def\<close>)
  next
    case False
    then have "users' = users" unfolding users' by (rule update_nobody)
    then show ?thesis using ok by (simp add: accounts_ok_def)
  qed
  moreover have "map u_id users' = map u_id users" "map u_email users' = map u_email users" "reached users' = reached users"
    by (simp_all add: users' map_update reached_update)
  ultimately show ?thesis using ok by (simp add: accounts_ok_def)
qed

lemma give_email_ok:
  assumes ok: "accounts_ok users" and given: "give_email i e users = Inr users'"
  shows "accounts_ok users' \<and> reached users' = readdress i e (reached users)"
proof -
  have users': "users' = update_where (\<lambda>u. u_id u = i) (\<lambda>u. u\<lparr>u_email := e\<rparr>) users"
    using given by (auto simp: give_email_def split: if_splits)
  have "distinct (filter (\<lambda>e. e \<noteq> None) (map u_email users'))"
  proof (cases "\<exists>u \<in> set users. u_id u = i")
    case True
    show ?thesis unfolding users'
    proof (rule distinct_some_update [where j = u_id and i = i])
      show "u_email u \<noteq> e" if "u \<in> set users" "e \<noteq> None" "u_id u \<noteq> i" for u
        using given True that by (auto simp: give_email_def split: if_splits)
    qed (use ok in \<open>simp_all add: accounts_ok_def\<close>)
  next
    case False
    then have "users' = users" unfolding users' by (rule update_nobody)
    then show ?thesis using ok by (simp add: accounts_ok_def)
  qed
  moreover have "map u_id users' = map u_id users" "map u_username users' = map u_username users"
    by (simp_all add: users' map_update)
  ultimately show ?thesis using ok by (simp add: accounts_ok_def users' reached_email)
qed

lemma write_change_ok:
  assumes ok: "accounts_ok users" and written: "write_change i body c users = Inr users'"
  shows "accounts_ok users' \<and> reached users' = (case ch_email c of None \<Rightarrow> reached users | Some e \<Rightarrow> readdress i e (reached users))"
proof -
  obtain a where a: "(case ch_name c of None \<Rightarrow> Inr users | Some name \<Rightarrow> give_name i name users) = Inr a"
    using written by (auto simp: write_change_def and_then_Inr)
  define b where "b = (let users = (case ch_hash c of None \<Rightarrow> a | Some hash \<Rightarrow> give_hash i hash a)
    in case up_role body of None \<Rightarrow> users | Some role \<Rightarrow> give_role i role users)"
  have rest: "and_then (case ch_email c of None \<Rightarrow> Inr b | Some email \<Rightarrow> give_email i email b)
      (\<lambda>e. Inr (case up_must_change body of None \<Rightarrow> e | Some m \<Rightarrow> give_must_change i m e)) = Inr users'"
    using written unfolding write_change_def a and_then_simps b_def Let_def .
  obtain e where e: "(case ch_email c of None \<Rightarrow> Inr b | Some email \<Rightarrow> give_email i email b) = Inr e"
    and users': "users' = (case up_must_change body of None \<Rightarrow> e | Some m \<Rightarrow> give_must_change i m e)"
    using rest by (auto simp: and_then_Inr)
  have a_ok: "accounts_ok a \<and> reached a = reached users"
    using a ok give_name_ok by (auto split: option.splits)
  have maps: "map u_id b = map u_id a \<and> map u_username b = map u_username a \<and> map u_email b = map u_email a \<and> reached b = reached a"
    by (simp add: b_def Let_def give_hash_def give_role_def map_update reached_update split: option.split)
  then have "accounts_ok b" "reached b = reached users" using a_ok by (simp_all add: accounts_ok_def)
  then have "accounts_ok e \<and> reached e = (case ch_email c of None \<Rightarrow> reached users | Some m \<Rightarrow> readdress i m (reached users))"
    using e give_email_ok by (auto split: option.splits)
  moreover have "roll users' = roll e" by (simp add: users' split: option.split)
  ultimately show ?thesis using accounts_ok_roll roll_reached by metis
qed


lemma reached_in: "(i, e) \<in> set (reached users) \<longleftrightarrow> (\<exists>u \<in> set users. u_id u = i \<and> u_email u = e)"
  by (auto simp: reached_def)

text \<open>
  The accounts are exchanged for others of the same identifiers: each keeps its address or has
  lost its links, and no address of theirs waits in an application.
\<close>

lemma changed_users:
  assumes ok: "panel_ok env p" and accounts: "accounts_ok users'"
    and ids: "map u_id users' = map u_id (pn_users p)"
    and free: "\<And>r. r \<in> set (su_regs (pn_signups p)) \<Longrightarrow> Some (reg_email r) \<notin> u_email ` set users'"
    and same: "\<And>i e. (i, e) \<in> set (reached users') \<Longrightarrow> i \<in> rr_user ` set (delete_where q (pn_resets p)) \<Longrightarrow>
      (i, e) \<in> set (reached (pn_users p))"
    and p': "pn_signups p' = (pn_signups p)\<lparr>su_users := users'\<rparr>" "pn_sessions p' = delete_where w (pn_sessions p)"
      "pn_resets p' = delete_where q (pn_resets p)" "pn_mail p' = pn_mail p"
  shows "panel_ok env p'"
proof -
  have ids': "u_id ` set users' = u_id ` set (pn_users p)" using ids by (metis set_map)
  have "row_ok users' r" if "r \<in> set (su_regs (pn_signups p))" for r
    using ok free [OF that] that by (simp add: panel_ok_def signups_ok_def regs_ok_def row_ok_image)
  then have "signups_ok env ((pn_signups p)\<lparr>su_users := users'\<rparr>)"
    using ok accounts by (simp add: panel_ok_def signups_ok_def regs_ok_def)
  moreover have "sessions_held users' (delete_where w (pn_sessions p))"
    using ok sessions_more [of "pn_users p" _ users'] ids' by (simp add: panel_ok_def sessions_fewer)
  moreover have old: "resets_held (out_digest env) (pn_users p) (pn_mail p) (delete_where q (pn_resets p))"
    using ok by (simp add: panel_ok_def resets_fewer)
  have "resets_held (out_digest env) users' (pn_mail p) (delete_where q (pn_resets p))"
  proof (rule resets_users [OF old])
    show "rr_user ` set (delete_where q (pn_resets p)) \<subseteq> u_id ` set users'"
      using old ids' by (simp add: resets_held_def)
  next
    fix u assume "u \<in> set users'" "u_id u \<in> rr_user ` set (delete_where q (pn_resets p))"
    then have "(u_id u, u_email u) \<in> set (reached (pn_users p))" by (intro same) (auto simp: reached_in)
    then show "\<exists>v \<in> set (pn_users p). u_id v = u_id u \<and> u_email v = u_email u" by (simp add: reached_in)
  qed
  ultimately show ?thesis by (simp add: panel_ok_def p')
qed

lemma claimed_free:
  "claim_email users regs e except = Inr () \<Longrightarrow> r \<in> set regs \<Longrightarrow> reg_email r \<noteq> e"
  by (auto simp: claim_email_def Let_def fetch_None split: if_splits option.splits)

lemma readdress_in: "(j, x) \<in> set (readdress i e l) \<longleftrightarrow> (\<exists>y. (j, y) \<in> set l \<and> x = (if j = i then e else y))"
  unfolding readdress_def set_map by force

lemma regs_free: "panel_ok env p \<Longrightarrow> r \<in> set (su_regs (pn_signups p)) \<Longrightarrow> (i, Some (reg_email r)) \<notin> set (reached (pn_users p))"
  by (auto simp: panel_ok_def signups_ok_def regs_ok_def row_ok_def reached_in)

lemma emails_reached: "Some e \<in> u_email ` set users \<Longrightarrow> \<exists>i. (i, Some e) \<in> set (reached users)"
  unfolding reached_in by (metis imageE)

lemma email_kept:
  assumes ok: "panel_ok env p"
  shows "panel_ok env (fst (cli_set_email env username wanted p))"
proof -
  have changed: "panel_ok env (on_users (\<lambda>_. users) (p\<lparr>pn_resets := fst (reset_forget_all (pn_resets p) i)\<rparr>))"
    if given: "give_email i e (pn_users p) = Inr users"
      and free: "\<And>r a. e = Some a \<Longrightarrow> r \<in> set (su_regs (pn_signups p)) \<Longrightarrow> reg_email r \<noteq> a" for i e users
  proof -
    have accounts: "accounts_ok (pn_users p)" using ok by (simp add: panel_ok_def signups_ok_def)
    note new = give_email_ok [OF accounts given]
    then have r: "reached users = readdress i e (reached (pn_users p))" by simp
    show ?thesis
    proof (rule changed_users [OF ok, where users' = users and q = "\<lambda>r. rr_user r = i" and w = "\<lambda>_. False"])
      show "map u_id users = map u_id (pn_users p)"
        using given by (auto simp: give_email_def map_update split: if_splits)
    next
      fix x assume x: "x \<in> set (su_regs (pn_signups p))"
      show "Some (reg_email x) \<notin> u_email ` set users"
      proof
        assume "Some (reg_email x) \<in> u_email ` set users"
        from emails_reached [OF this] obtain j y where "(j, y) \<in> set (reached (pn_users p))"
          "Some (reg_email x) = (if j = i then e else y)" unfolding r readdress_in by blast
        then show False using regs_free [OF ok x, of j] free [OF _ x] by (auto split: if_splits)
      qed
    next
      fix j x assume "(j, x) \<in> set (reached users)" "j \<in> rr_user ` set (delete_where (\<lambda>r. rr_user r = i) (pn_resets p))"
      then show "(j, x) \<in> set (reached (pn_users p))" unfolding r readdress_in by (auto simp: set_delete)
    qed (use new in \<open>simp_all add: reset_forget_all_def on_users_def, simp add: delete_where_def\<close>)
  qed
  show ?thesis
  proof (cases "and_then (cli_account env username p) (\<lambda>u.
             and_then (case wanted of
                 None \<Rightarrow> Inr None
               | Some typed \<Rightarrow> and_then (cli_normalised env typed (Some (u_id u)) p) (\<lambda>a. Inr (Some a)))
             (\<lambda>address. Inr (u, address)))")
    case (Inr ua)
    obtain u address where ua: "ua = (u, address)" by (cases ua)
    have "reg_email r \<noteq> a" if "address = Some a" "r \<in> set (su_regs (pn_signups p))" for r a
      using Inr that claimed_free unfolding ua
      by (fastforce simp: and_then_Inr cli_normalised_def cli_refused_def split: option.splits sum.splits)
    with ok Inr ua changed [of "u_id u" address] show ?thesis
      by (simp add: cli_set_email_def Let_def split_beta split: sum.split)
  qed (use ok in \<open>simp add: cli_set_email_def\<close>)
qed


lemma update_kept:
  assumes ok: "panel_ok env p"
  shows "panel_ok env (fst (update_user env d i body complaint p))"
proof (cases "and_then (users_load (pn_users p) i) (\<lambda>u. and_then (update_checks env d body u p) (\<lambda>c.
             case write_change (u_id u) body c (pn_users p) of
               Inl taken \<Rightarrow> Inl (map_taken taken)
             | Inr users \<Rightarrow> Inr (u, c, users)))")
  case (Inr ucw)
  obtain u c users where ucw: "ucw = (u, c, users)" by (cases ucw)
  have u: "users_load (pn_users p) i = Inr u" and c: "update_checks env d body u p = Inr c"
    and written: "write_change (u_id u) body c (pn_users p) = Inr users"
    using Inr unfolding ucw by (auto simp: and_then_Inr case_Inr)
  define users' where "users' = (if is_some_and (\<lambda>role. role \<noteq> u_role u) (up_role body)
    then settle_cgroup u complaint users else users)"
  define q where "q r = (rr_user r = u_id u \<and> (up_password body \<noteq> None \<or> is_some_and (\<lambda>e. e \<noteq> u_email u) (ch_email c)))" for r :: reset_row
  define w where "w s = (ses_user s = u_id u \<and> up_password body \<noteq> None)" for s :: session_row
  have result: "fst (update_user env d i body complaint p) =
    (on_users (\<lambda>_. users') p)\<lparr>pn_sessions := delete_where w (pn_sessions p), pn_resets := delete_where q (pn_resets p)\<rparr>"
    using Inr unfolding ucw
    by (cases "up_password body = None")
      (auto simp: update_user_def Let_def users'_def w_def q_def reset_forget_all_def session_close_all_of_def
        delete_where_def on_users_def)
  have accounts: "accounts_ok (pn_users p)" using ok by (simp add: panel_ok_def signups_ok_def)
  have roll: "roll users' = roll users" by (simp add: users'_def)
  note new = write_change_ok [OF accounts written]
  have r: "reached users' = (case ch_email c of None \<Rightarrow> reached (pn_users p) | Some e \<Rightarrow> readdress (u_id u) e (reached (pn_users p)))"
    using new roll_reached [OF roll] by simp
  have free: "reg_email x \<noteq> a" if "ch_email c = Some (Some a)" "x \<in> set (su_regs (pn_signups p))" for x a
    using c that claimed_free
    by (fastforce simp: update_checks_def and_then_Inr claimed_address_def split: option.splits if_splits)
  show ?thesis
    unfolding result
  proof (rule changed_users [OF ok, where users' = users' and q = q and w = w])
    show "accounts_ok users'" using new accounts_ok_roll [OF roll] by simp
  next
    have "map fst (reached users') = map fst (reached (pn_users p))"
      unfolding r by (auto simp: readdress_def split: option.split)
    then show "map u_id users' = map u_id (pn_users p)" by (simp add: reached_ids)
  next
    fix x assume x: "x \<in> set (su_regs (pn_signups p))"
    show "Some (reg_email x) \<notin> u_email ` set users'"
    proof
      assume "Some (reg_email x) \<in> u_email ` set users'"
      then obtain j where j: "(j, Some (reg_email x)) \<in> set (reached users')" using emails_reached by blast
      then show False using regs_free [OF ok x, of j] free [OF _ x]
        unfolding r by (auto simp: readdress_in split: option.splits if_splits)
    qed
  next
    fix j x assume x: "(j, x) \<in> set (reached users')" "j \<in> rr_user ` set (delete_where q (pn_resets p))"
    show "(j, x) \<in> set (reached (pn_users p))"
    proof (cases "\<exists>e. ch_email c = Some e \<and> j = u_id u")
      case True
      then obtain e where e: "ch_email c = Some e" "j = u_id u" by blast
      then have "e = u_email u" using x(2) by (auto simp: set_delete q_def)
      moreover have "x = e" using x(1) e unfolding r by (auto simp: readdress_in)
      ultimately show ?thesis using users_load_in [OF u] e(2) by (auto simp: reached_in)
    qed (use x(1) in \<open>auto simp: r readdress_in split: option.splits\<close>)
  qed (simp_all add: on_users_def)
qed (use ok in \<open>simp add: update_user_def\<close>)


subsection \<open>New accounts, and accounts that go\<close>

lemma signups_insert_ok:
  assumes ok: "panel_ok env p" and fresh: "panel_fresh env d p"
    and written: "users_insert (pn_users p) (dr_id d) new now = Inr (users, row)"
    and free: "\<And>r a. nu_email new = Some a \<Longrightarrow> r \<in> set (su_regs (pn_signups p)) \<Longrightarrow> reg_email r \<noteq> a"
    and users': "roll users' = roll users"
  shows "panel_ok env (on_users (\<lambda>_. users') p)"
proof -
  have accounts: "accounts_ok (pn_users p)" using ok by (simp add: panel_ok_def signups_ok_def)
  have i: "dr_id d \<notin> u_id ` set (pn_users p)" using fresh by (simp add: panel_fresh_def fresh_draw_def)
  note new = accounts_insert_ok [OF accounts i written]
  have "row_ok users r" if r: "r \<in> set (su_regs (pn_signups p))" for r
    using ok new free [OF _ r] r
    by (auto simp: panel_ok_def signups_ok_def regs_ok_def row_ok_def new_row_def)
  then have "row_ok users' r" if "r \<in> set (su_regs (pn_signups p))" for r
    using that row_ok_roll [OF users'] by simp
  moreover have "accounts_ok users'" unfolding accounts_ok_roll [OF users'] using new by (rule conjunct1)
  ultimately have "signups_ok env ((pn_signups p)\<lparr>su_users := users'\<rparr>)"
    using ok by (simp add: panel_ok_def signups_ok_def regs_ok_def)
  moreover have "roll users' = roll (pn_users p) @ [(dr_id d, nu_username new, nu_email new, nu_role new)]"
    using new users' by (simp add: roll_snoc new_row_def)
  ultimately show ?thesis
    using panel_new_user [OF ok, of "(pn_signups p)\<lparr>su_users := users'\<rparr>" "dr_id d"] i by (simp add: on_users_def)
qed

lemma create_kept:
  assumes ok: "panel_ok env p" and fresh: "panel_fresh env d p"
  shows "panel_ok env (fst (create_user env d body p))"
proof (cases "create_checks env d body p")
  case (Inr w)
  obtain users row where w: "w = (users, row)" by (cases w)
  obtain email hash limits where email: "(case cr_email body of
         None \<Rightarrow> Inr None
       | Some typed \<Rightarrow> if trim typed = [] then Inr None else claimed_address env (trim typed) None p) = Inr email"
    and written: "users_insert (pn_users p) (dr_id d)
            \<lparr>nu_username = trim (cr_username body), nu_email = email, nu_origin = ByAdmin, nu_password_hash = hash,
             nu_role = cr_role body, nu_must_change_password = (case cr_must_change body of None \<Rightarrow> True | Some b \<Rightarrow> b),
             nu_limits = limits\<rparr> (dr_now d) = Inr (users, row)"
    using Inr unfolding w create_checks_def by (auto simp: and_then_Inr case_Inr)
  have "panel_ok env (on_users (\<lambda>_. set_system (dr_system d) (u_id row) users) p)"
  proof (rule signups_insert_ok [OF ok fresh written])
    show "reg_email r \<noteq> a" if "nu_email \<lparr>nu_username = trim (cr_username body), nu_email = email, nu_origin = ByAdmin,
      nu_password_hash = hash, nu_role = cr_role body, nu_must_change_password = (case cr_must_change body of None \<Rightarrow> True | Some b \<Rightarrow> b),
      nu_limits = limits\<rparr> = Some a" "r \<in> set (su_regs (pn_signups p))" for r a
      using email that claimed_free
      by (fastforce simp: claimed_address_def and_then_Inr split: option.splits if_splits)
  qed simp
  then show ?thesis using Inr w by (simp add: create_user_def)
qed (use ok in \<open>simp add: create_user_def\<close>)

lemma install_kept:
  assumes ok: "panel_ok env p" and fresh: "panel_fresh env d p"
  shows "panel_ok env (fst (cli_install env d username address secret must_change p))"
proof (cases "install_checks env d username address secret must_change p")
  case (Inr w)
  obtain users row where w: "w = (users, row)" by (cases w)
  obtain email hash where email: "(case address of
                 None \<Rightarrow> Inr None
               | Some typed \<Rightarrow> and_then (cli_normalised env typed None p) (\<lambda>a. Inr (Some a))) = Inr email"
    and written: "users_insert (pn_users p) (dr_id d) \<lparr>nu_username = username, nu_email = email, nu_origin = ByAdmin,
                    nu_password_hash = hash, nu_role = Admin, nu_must_change_password = must_change,
                    nu_limits = su_default_limits (pn_signups p)\<rparr> (dr_now d) = Inr (users, row)"
    using Inr unfolding w install_checks_def by (auto simp: and_then_Inr case_Inr)
  have "panel_ok env (on_users (\<lambda>_. if b then unready (u_id row) (set_system (dr_system d) (u_id row) users)
        else set_system (dr_system d) (u_id row) users) p)" for b
  proof (rule signups_insert_ok [OF ok fresh written])
    show "reg_email r \<noteq> a" if "nu_email \<lparr>nu_username = username, nu_email = email, nu_origin = ByAdmin,
        nu_password_hash = hash, nu_role = Admin, nu_must_change_password = must_change,
        nu_limits = su_default_limits (pn_signups p)\<rparr> = Some a" "r \<in> set (su_regs (pn_signups p))" for r a
      using email that claimed_free
      by (fastforce simp: cli_normalised_def cli_refused_def and_then_Inr split: option.splits sum.splits)
  qed simp
  then show ?thesis using Inr w by (simp add: cli_install_def Let_def)
qed (use ok in \<open>simp add: cli_install_def\<close>)


lemma servers_kept [simp]: "panel_ok env (p\<lparr>pn_servers := x\<rparr>) = panel_ok env p"
  by (simp add: panel_ok_def)

lemma accounts_delete_ok: "accounts_ok users \<Longrightarrow> accounts_ok (delete_where q users)"
proof (induction users)
  case (Cons u us)
  have "set (delete_where q us) \<subseteq> set us" by (auto simp: set_delete)
  then have "u_id ` set (delete_where q us) \<subseteq> u_id ` set us" "u_username ` set (delete_where q us) \<subseteq> u_username ` set us"
    "u_email ` set (delete_where q us) \<subseteq> u_email ` set us" by auto
  with Cons show ?case by (auto simp: accounts_ok_def delete_where_def split: if_splits)
qed (simp add: delete_where_def)

lemma users_delete_kept:
  assumes ok: "panel_ok env p" and deleted: "users_delete i p = Inr p'"
  shows "panel_ok env p'"
proof -
  let ?users = "delete_where (\<lambda>u. u_id u = i) (pn_users p)"
  have p': "p' = (on_users (delete_where (\<lambda>u. u_id u = i)) p)
        \<lparr>pn_sessions := delete_where (\<lambda>s. ses_user s = i) (pn_sessions p),
         pn_resets := delete_where (\<lambda>r. rr_user r = i) (pn_resets p)\<rparr>"
    using deleted by (simp add: users_delete_def split: if_splits)
  have "accounts_ok ?users" using ok by (simp add: panel_ok_def signups_ok_def accounts_delete_ok)
  moreover have "row_ok ?users r" if "r \<in> set (su_regs (pn_signups p))" for r
    using ok that by (auto simp: panel_ok_def signups_ok_def regs_ok_def row_ok_def set_delete)
  ultimately have "signups_ok env (pn_signups p')"
    using ok by (simp add: p' on_users_def panel_ok_def signups_ok_def regs_ok_def)
  moreover have "sessions_held ?users (pn_sessions p')"
    using ok sessions_fewer [of "pn_users p" "pn_sessions p" "\<lambda>s. ses_user s = i"]
    by (fastforce simp: p' panel_ok_def sessions_held_def set_delete)
  moreover have held: "resets_held (out_digest env) (pn_users p) (pn_mail p) (delete_where (\<lambda>r. rr_user r = i) (pn_resets p))"
    using ok by (simp add: panel_ok_def resets_fewer)
  have "resets_held (out_digest env) ?users (pn_mail p) (delete_where (\<lambda>r. rr_user r = i) (pn_resets p))"
  proof (rule resets_users [OF held])
    show "rr_user ` set (delete_where (\<lambda>r. rr_user r = i) (pn_resets p)) \<subseteq> u_id ` set ?users"
      using held by (fastforce simp: resets_held_def set_delete)
  qed (auto simp: set_delete)
  ultimately show ?thesis by (simp add: panel_ok_def p')
qed

lemma dispose_kept:
  assumes ok: "panel_ok env p"
  shows "panel_ok env (fst (dispose_of running moved leaving owned decision receiver p))"
proof -
  have handed: "panel_ok env q" if "hand_over i j moved p = Inr q" for i j q
    using that users_kept [OF ok, of "\<lambda>users. set_busy users j True"]
    by (auto simp: hand_over_def on_users_def panel_ok_def split: if_splits)
  have gone: "panel_ok env (fst (case users_delete i q of Inl f \<Rightarrow> (q, Inl f) | Inr p \<Rightarrow> (p, Inr ())))" if "panel_ok env q" for i q
    using that users_delete_kept [OF that] by (simp split: sum.split)
  define x where "x = (case (decision, receiver) of
                   (Some TransferServers, Some r) \<Rightarrow> hand_over (u_id leaving) (u_id r) moved p
                 | _ \<Rightarrow> Inr p)"
  have x: "panel_ok env q" if "x = Inr q" for q
    using that handed ok by (auto simp: x_def split: option.splits disposal.splits)
  have run: "dispose_of running moved leaving owned decision receiver p =
    (if \<exists>s \<in> set owned. os_id s \<in> set running then (p, Inl (conflict ''servers_running''))
     else case x of Inl f \<Rightarrow> (p, Inl f) | Inr p \<Rightarrow>
       let p = (if decision = Some DeleteServers
           then p\<lparr>pn_servers := delete_where (\<lambda>s. os_owner s = u_id leaving) (pn_servers p)\<rparr> else p)
       in (case users_delete (u_id leaving) p of Inl f \<Rightarrow> (p, Inl f) | Inr p \<Rightarrow> (p, Inr ())))"
    by (simp add: dispose_of_def x_def)
  show ?thesis
  proof (cases x)
    case (Inr q)
    with ok x [OF Inr] gone show ?thesis by (simp add: run Let_def)
  qed (simp add: run ok)
qed

lemma delete_kept:
  assumes ok: "panel_ok env p"
  shows "panel_ok env (fst (delete_user me i servers transfer_to running moved p))"
proof (cases "delete_checks me i servers transfer_to p")
  case (Inr x)
  obtain u owned decision receiver where x: "x = (u, owned, decision, receiver)" by (cases x)
  let ?q = "on_users (\<lambda>_. fst (claim_busy (pn_users p) (u_id u))) p"
  obtain q y where y: "dispose_of running moved u owned decision receiver ?q = (q, y)" by fastforce
  have "panel_ok env ?q" by (rule users_kept [OF ok]) simp
  from dispose_kept [OF this, of running moved u owned decision receiver] have q: "panel_ok env q" by (simp add: y)
  have "panel_ok env (on_users (\<lambda>users. set_busy users (u_id u) False) q)" by (rule users_kept [OF q]) simp
  with q ok Inr x y show ?thesis
    by (simp add: delete_user_def split_beta Let_def split: sum.split)
qed (use ok in \<open>simp add: delete_user_def\<close>)

subsection \<open>Every step\<close>

lemma slide_kept:
  assumes ok: "panel_ok env p"
  shows "panel_ok env (p\<lparr>pn_sessions := fst (slide_sessions digest (pn_sessions p) cookie now)\<rparr>)"
proof (rule sessions_kept [OF ok])
  have "ses_user ` set (fst (session_refresh (pn_sessions p) s now)) = ses_user ` set (pn_sessions p)" for s
  proof -
    have "map ses_user (fst (session_refresh (pn_sessions p) s now)) = map ses_user (pn_sessions p)"
      by (simp add: session_refresh_def Let_def map_update)
    then show ?thesis by (metis set_map)
  qed
  then have "ses_user ` set (fst (slide_sessions digest (pn_sessions p) cookie now)) = ses_user ` set (pn_sessions p)"
    by (simp add: slide_sessions_def split_beta split: option.split)
  then show "sessions_held (pn_users p) (fst (slide_sessions digest (pn_sessions p) cookie now))"
    using ok slide_ok [of "pn_sessions p"] by (simp add: panel_ok_def sessions_held_def)
qed

lemma signups_step_kept:
  assumes ok: "panel_ok env p" and fresh: "panel_fresh env d p"
    and s: "signups_ok env (h (pn_signups p))" "joined d (pn_users p) (su_users (h (pn_signups p)))"
  shows "panel_ok env (on_signups h p)"
  unfolding on_signups_def
  by (rule panel_new_user [OF ok s(1), where i = "dr_id d"]) (use fresh s(2) in \<open>auto simp: joined_def panel_fresh_def fresh_draw_def\<close>)

lemma signups_same_kept:
  assumes ok: "panel_ok env p" and s: "signups_ok env (h (pn_signups p))" "su_users (h (pn_signups p)) = pn_users p"
  shows "panel_ok env (on_signups h p)"
  using ok s by (simp add: on_signups_def panel_ok_def)

lemma panel_step_ok:
  assumes "panel_step env p p'" "panel_ok env p"
  shows "panel_ok env p'"
proof -
  note ok = assms(2)
  have s: "signups_ok env (pn_signups p)" using ok by (simp add: panel_ok_def)
  have draw: "fresh_draw env d (pn_signups p)" if "panel_fresh env d p" for d using that by (simp add: panel_fresh_def)
  from assms(1) show ?thesis
  proof cases
    case (apply_step d) show ?thesis unfolding apply_step(1)
      by (rule signups_same_kept [OF ok]) (simp_all add: reg_apply_ok [OF s draw [OF apply_step(2)]] reg_apply_users)
  next
    case (verify_step d) show ?thesis unfolding verify_step(1)
      by (rule signups_step_kept [OF ok verify_step(2)])
        (simp_all add: reg_verify_ok [OF s draw [OF verify_step(2)]] reg_verify_joined)
  next
    case (resend_step d) show ?thesis unfolding resend_step(1)
      by (rule signups_same_kept [OF ok]) (simp_all add: reg_resend_ok [OF s draw [OF resend_step(2)]] reg_resend_users)
  next
    case (approve_step d) show ?thesis unfolding approve_step(1)
      by (rule signups_step_kept [OF ok approve_step(2)])
        (simp_all add: reg_approve_ok [OF s draw [OF approve_step(2)]] reg_approve_joined)
  next
    case reject_step show ?thesis unfolding reject_step
      by (rule signups_same_kept [OF ok]) (simp_all add: reg_reject_ok [OF s] reg_reject_users)
  next
    case sweep_step show ?thesis unfolding sweep_step
      by (rule signups_same_kept [OF ok]) (simp_all add: reg_sweep_ok [OF s] reg_sweep_users)
  next
    case release_step show ?thesis unfolding release_step by (rule users_kept [OF ok]) simp
  next
    case limits_step
    have "panel_ok env (on_users (update_where (\<lambda>v. u_id v = j) (\<lambda>v. v\<lparr>u_limits := l\<rparr>)) p)" for j l
      by (rule users_kept [OF ok]) (simp add: roll_update)
    then show ?thesis unfolding limits_step using ok by (simp add: write_limits_def split: sum.split)
  next
    case (retry_step d i)
    have "panel_ok env (on_users (set_system (dr_system d) j) p)" for j by (rule users_kept [OF ok]) simp
    then show ?thesis unfolding retry_step using ok by (simp add: retry_system_user_def split: sum.split)
  next
    case configure_step
    have "signups_ok env ((pn_signups p)\<lparr>su_enabled := e, su_requires_approval := a, su_default_limits := l, su_can_link := c\<rparr>)"
      for e a l c by (rule signups_ok_parts [OF s]) simp_all
    then show ?thesis unfolding configure_step using ok by (simp add: configured_def panel_ok_def)
  next
    case restart_step
    have "panel_ok env (with_rates Map.empty (p\<lparr>pn_brake := Map.empty\<rparr>))" using ok by (intro rates_kept brake_kept)
    then show ?thesis unfolding restart_step restarted_def by (rule users_kept) simp
  qed (use ok note_kept mint_kept for_user_kept whose_kept confirm_kept login_kept logout_kept change_password_kept
      passwd_kept email_kept link_kept install_kept create_kept update_kept delete_kept slide_kept in \<open>simp_all\<close>)
qed

lemma panel_reachable_ok: "panel_reachable env p \<Longrightarrow> panel_ok env p"
proof (induction rule: panel_reachable.induct)
  case (empty p)
  then show ?case
    by (simp add: panel_ok_def signups_ok_def accounts_ok_def regs_ok_def links_ok_def sessions_held_def sessions_ok_def
        resets_held_def letters_held_def)
qed (rule panel_step_ok)


subsection \<open>The last administrator\<close>

lemma another_one:
  assumes "distinct (map k t)" "2 \<le> count_where P t"
  shows "\<exists>v \<in> set t. P v \<and> k v \<noteq> i"
proof -
  have "distinct (map k t) \<Longrightarrow> count_where P t \<le> count_where (\<lambda>v. P v \<and> k v \<noteq> i) t + 1"
  proof (induction t)
    case (Cons x t)
    have "k v \<noteq> k x" if "v \<in> set t" for v using Cons.prems that by (metis distinct.simps(2) image_eqI list.set_map list.simps(9))
    then have "count_where (\<lambda>v. P v \<and> k v \<noteq> i) t = count_where P t" if "k x = i"
      using that by (auto simp: count_where_def intro!: arg_cong [where f = length] filter_cong)
    then show ?case using Cons by (auto simp: count_where_def)
  qed (simp add: count_where_def)
  with assms have "0 < count_where (\<lambda>v. P v \<and> k v \<noteq> i) t" by simp
  then show ?thesis by (simp add: count_pos_iff)
qed

definition admins :: "user_row list \<Rightarrow> id set" where
  "admins users = {u_id u |u. u \<in> set users \<and> u_role u = Admin}"

lemma admin_count_pos: "0 < admin_count users \<longleftrightarrow> admins users \<noteq> {}"
  by (auto simp: admin_count_def count_pos_iff admins_def)

lemma admins_roll_set: "i \<in> admins users \<longleftrightarrow> (\<exists>n e. (i, n, e, Admin) \<in> set (roll users))"
proof
  assume "i \<in> admins users"
  then obtain u where "u \<in> set users" "u_id u = i" "u_role u = Admin" by (auto simp: admins_def)
  with in_roll [OF this(1)] have "(i, u_username u, u_email u, Admin) \<in> set (roll users)" by simp
  then show "\<exists>n e. (i, n, e, Admin) \<in> set (roll users)" by blast
next
  assume "\<exists>n e. (i, n, e, Admin) \<in> set (roll users)"
  then obtain n e where "(i, n, e, Admin) \<in> set (roll users)" by blast
  from roll_has [OF this] show "i \<in> admins users" by (auto simp: admins_def)
qed

lemma admins_roll: "roll users' = roll users \<Longrightarrow> admins users' = admins users"
  by (simp add: set_eq_iff admins_roll_set)

lemma admins_joined:
  assumes "joined d users users'" "i \<in> admins users"
  shows "i \<in> admins users'"
proof -
  obtain n e where "(i, n, e, Admin) \<in> set (roll users)" using assms(2) admins_roll_set by blast
  then have "(i, n, e, Admin) \<in> set (roll users')" using assms(1) by (auto simp: joined_def)
  then show ?thesis using admins_roll_set by blast
qed

lemma admins_kept: "(\<And>u. u_id (f u) = u_id u \<and> u_role (f u) = u_role u) \<Longrightarrow> admins (update_where p f users) = admins users"
  by (auto simp: admins_def in_update) (metis)+

lemma not_the_last:
  assumes "distinct (map u_id users)" "u \<in> set users" "\<not> is_last_admin users u" "admins users \<noteq> {}"
  shows "\<exists>i \<in> admins users. i \<noteq> u_id u"
proof (cases "is_admin u")
  case True
  then have "2 \<le> count_where (\<lambda>v. u_role v = Admin) users"
    using assms(3) by (simp add: is_last_admin_def admin_count_def)
  from another_one [OF assms(1) this, of "u_id u"] show ?thesis by (auto simp: admins_def)
next
  case False
  from assms(4) obtain v where v: "v \<in> set users" "u_role v = Admin" by (auto simp: admins_def)
  then have "u_id v \<noteq> u_id u" using False assms(1,2)
    by (auto simp: is_admin_def dest: inj_onD [OF distinct_map [THEN iffD1, THEN conjunct2]])
  with v show ?thesis by (auto simp: admins_def)
qed

lemma write_change_admins:
  assumes "write_change i body c users = Inr users'" "j \<in> admins users" "j \<noteq> i \<or> up_role body \<noteq> Some User"
  shows "j \<in> admins users'"
proof -
  obtain a where a: "(case ch_name c of None \<Rightarrow> Inr users | Some name \<Rightarrow> give_name i name users) = Inr a"
    using assms(1) by (auto simp: write_change_def and_then_Inr)
  define b where "b = (let users = (case ch_hash c of None \<Rightarrow> a | Some hash \<Rightarrow> give_hash i hash a)
    in case up_role body of None \<Rightarrow> users | Some role \<Rightarrow> give_role i role users)"
  have rest: "and_then (case ch_email c of None \<Rightarrow> Inr b | Some email \<Rightarrow> give_email i email b)
      (\<lambda>e. Inr (case up_must_change body of None \<Rightarrow> e | Some m \<Rightarrow> give_must_change i m e)) = Inr users'"
    using assms(1) unfolding write_change_def a and_then_simps b_def Let_def .
  have "admins a = admins users"
    using a by (auto simp: give_name_def admins_kept split: option.splits if_splits)
  moreover have "j \<in> admins (give_role i r t)" if j: "j \<in> admins t" "j \<noteq> i \<or> r \<noteq> User" for t r
  proof -
    obtain v where v: "v \<in> set t" "u_role v = Admin" "u_id v = j" using j(1) by (auto simp: admins_def)
    let ?w = "if u_id v = i then v\<lparr>u_role := r\<rparr> else v"
    have "?w \<in> set (give_role i r t)" using v(1) by (auto simp: give_role_def in_update)
    moreover have "u_role ?w = Admin" using v j(2) by (cases r) auto
    moreover have "u_id ?w = j" using v by simp
    ultimately show ?thesis unfolding admins_def by blast
  qed
  moreover have "admins (give_hash i h t) = admins t" for h t by (simp add: give_hash_def admins_kept)
  ultimately have "j \<in> admins b" using assms(2,3) by (auto simp: b_def Let_def split: option.split)
  moreover have "admins users' = admins b"
    using rest by (auto simp: and_then_Inr give_email_def give_must_change_def admins_kept split: option.splits if_splits)
  ultimately show ?thesis by simp
qed


text \<open>The steps after which everybody is known by what they were known by before.\<close>

lemma rates_roll [simp]: "roll (pn_users (with_rates b p)) = roll (pn_users p)" by simp

lemma note_users: "pn_users (fst (reset_note_request env d email from p)) = pn_users p"
  by (simp add: reset_note_request_def Let_def split_beta)

lemma mint_users: "pn_users (reset_mint env d email from agent p) = pn_users p"
proof (cases "normalise_address (out_lower env) email")
  case (Inr address)
  then show ?thesis by (cases "users_by_email (pn_users p) address") (simp_all add: reset_mint_def Let_def)
qed (simp add: reset_mint_def)

lemma behalf_users: "pn_users (fst (reset_on_behalf_of env d u p)) = pn_users p"
  by (cases "u_email u") (simp_all add: reset_on_behalf_of_def Let_def split_beta)

lemma refused_users: "pn_users (fst (reset_refuse d from p)) = pn_users p"
  by (simp add: reset_refuse_def split: option.split)

lemma whose_users: "pn_users (fst (reset_whose env d token from p)) = pn_users p"
  by (cases "reset_guard d from p") (simp_all add: reset_whose_def refused_users split_beta Let_def split: option.split)

lemma settle_roll: "roll (pn_users (reset_settle env d token i h p)) = roll (pn_users p)"
  by (simp add: reset_settle_def Let_def split: option.split)

lemma ready_users: "pn_users (fst (reset_ready env d token chosen from p)) = pn_users p"
  by (cases "reset_guard d from p") (simp_all add: reset_ready_def refused_users split_beta Let_def split: option.split)

lemma confirm_roll: "roll (pn_users (fst (reset_confirm env d token chosen from p))) = roll (pn_users p)"
proof -
  obtain q x where q: "reset_ready env d token chosen from p = (q, x)" by fastforce
  have "pn_users q = pn_users p" using ready_users [of env d token chosen "from" p] by (simp add: q)
  then show ?thesis by (simp add: reset_confirm_def q split_beta settle_roll split: sum.split)
qed

lemma for_user_users: "pn_users (fst (reset_for_user env d i p)) = pn_users p"
  by (simp add: reset_for_user_def behalf_users split: sum.split)

lemma sign_in_roll: "roll (pn_users (fst (sign_in env d name address agent u p))) = roll (pn_users p)"
  by (simp add: sign_in_def Let_def split_beta roll_update)

lemma login_roll: "roll (pn_users (fst (login env d username password address agent p))) = roll (pn_users p)"
proof -
  have "pn_users (fst (refuse_login env d name address p)) = pn_users p" for name by (simp add: refuse_login_def)
  then show ?thesis
    by (simp add: login_def Let_def split_beta sign_in_roll split: sum.split option.split)
qed

lemma logout_users: "pn_users (logout env d cookie p) = pn_users p"
  by (simp add: logout_def split: option.split)

lemma change_password_roll:
  "roll (pn_users (fst (change_password env d cookie current chosen p))) = roll (pn_users p)"
  by (simp add: change_password_def Let_def split: sum.split)

lemma passwd_roll: "roll (pn_users (fst (cli_set_password env d username secret must_change p))) = roll (pn_users p)"
  by (simp add: cli_set_password_def Let_def split_beta split: sum.split)

lemma link_users: "pn_users (fst (cli_reset_link env d link_base username base_url minutes p)) = pn_users p"
proof (cases "cli_account env username p")
  case (Inr u)
  then show ?thesis
    by (cases "case base_url of Some given \<Rightarrow> Some given | None \<Rightarrow> link_base")
      (simp_all add: cli_reset_link_def Let_def)
qed (simp add: cli_reset_link_def)

lemma write_limits_roll: "roll (pn_users (fst (write_limits i l helper p))) = roll (pn_users p)"
  by (simp add: write_limits_def roll_update split: sum.split)

lemma retry_roll: "roll (pn_users (fst (retry_system_user d i p))) = roll (pn_users p)"
  by (simp add: retry_system_user_def split: sum.split)

lemma configured_users: "pn_users (configured enabled approval limits can_link mail p) = pn_users p"
  by (simp add: configured_def)

lemma restarted_roll: "roll (pn_users (restarted p)) = roll (pn_users p)"
  by (simp add: restarted_def)

lemmas quiet_rolls = note_users mint_users whose_users confirm_roll for_user_users login_roll logout_users change_password_roll passwd_roll
  link_users write_limits_roll retry_roll configured_users restarted_roll

lemma settled_admins: "admins (settle_cgroup u complaint users) = admins users"
  by (rule admins_roll) simp

lemma email_admins: "admins (pn_users (fst (cli_set_email env username wanted p))) = admins (pn_users p)"
  by (auto simp: cli_set_email_def Let_def split_beta give_email_def admins_kept split: sum.split if_splits)

lemma update_admins:
  assumes ok: "panel_ok env p" and some: "admins (pn_users p) \<noteq> {}"
  shows "admins (pn_users (fst (update_user env d i body complaint p))) \<noteq> {}"
proof (cases "and_then (users_load (pn_users p) i) (\<lambda>u. and_then (update_checks env d body u p) (\<lambda>c.
             case write_change (u_id u) body c (pn_users p) of
               Inl taken \<Rightarrow> Inl (map_taken taken)
             | Inr users \<Rightarrow> Inr (u, c, users)))")
  case (Inr ucw)
  obtain u c users where ucw: "ucw = (u, c, users)" by (cases ucw)
  have u: "users_load (pn_users p) i = Inr u" and c: "update_checks env d body u p = Inr c"
    and written: "write_change (u_id u) body c (pn_users p) = Inr users"
    using Inr unfolding ucw by (auto simp: and_then_Inr case_Inr)
  have "\<exists>j \<in> admins (pn_users p). j \<noteq> u_id u \<or> up_role body \<noteq> Some User"
  proof (cases "up_role body = Some User")
    case True
    then have "\<not> is_last_admin (pn_users p) u"
      using c by (auto simp: update_checks_def and_then_Inr split: if_splits)
    moreover have "distinct (map u_id (pn_users p))" using ok by (simp add: panel_ok_def signups_ok_def accounts_ok_def)
    ultimately show ?thesis using not_the_last users_load_in [OF u] some by blast
  qed (use some in blast)
  then obtain j where "j \<in> admins users" using write_change_admins [OF written] by blast
  moreover have "admins (pn_users (fst (update_user env d i body complaint p))) = admins users"
    using Inr unfolding ucw by (simp add: update_user_def Let_def settled_admins)
  ultimately show ?thesis by blast
qed (use some in \<open>simp add: update_user_def\<close>)

lemma dispose_users:
  "\<exists>users. roll users = roll (pn_users p) \<and>
    (pn_users (fst (dispose_of running moved leaving owned decision receiver p)) = users \<or>
     pn_users (fst (dispose_of running moved leaving owned decision receiver p)) = delete_where (\<lambda>u. u_id u = u_id leaving) users)"
proof -
  define x where "x = (case (decision, receiver) of
                   (Some TransferServers, Some r) \<Rightarrow> hand_over (u_id leaving) (u_id r) moved p
                 | _ \<Rightarrow> Inr p)"
  have x: "roll (pn_users q) = roll (pn_users p)" if "x = Inr q" for q
    using that by (auto simp: x_def hand_over_def split: option.splits disposal.splits if_splits)
  have run: "dispose_of running moved leaving owned decision receiver p =
    (if \<exists>s \<in> set owned. os_id s \<in> set running then (p, Inl (conflict ''servers_running''))
     else case x of Inl f \<Rightarrow> (p, Inl f) | Inr p \<Rightarrow>
       let p = (if decision = Some DeleteServers
           then p\<lparr>pn_servers := delete_where (\<lambda>s. os_owner s = u_id leaving) (pn_servers p)\<rparr> else p)
       in (case users_delete (u_id leaving) p of Inl f \<Rightarrow> (p, Inl f) | Inr p \<Rightarrow> (p, Inr ())))"
    by (simp add: dispose_of_def x_def)
  show ?thesis
  proof (cases x)
    case (Inr q)
    then show ?thesis using x [OF Inr]
      by (intro exI [of _ "if \<exists>s \<in> set owned. os_id s \<in> set running then pn_users p else pn_users q"])
        (auto simp: run Let_def users_delete_def)
  qed (auto simp: run)
qed

lemma delete_admins:
  assumes ok: "panel_ok env p" and some: "admins (pn_users p) \<noteq> {}"
  shows "admins (pn_users (fst (delete_user me i servers transfer_to running moved p))) \<noteq> {}"
proof (cases "delete_checks me i servers transfer_to p")
  case (Inr x)
  obtain u owned decision receiver where x: "x = (u, owned, decision, receiver)" by (cases x)
  have u: "users_load (pn_users p) i = Inr u" "\<not> is_last_admin (pn_users p) u"
    using Inr unfolding x by (auto simp: delete_checks_def and_then_Inr Let_def split: if_splits)
  have "distinct (map u_id (pn_users p))" using ok by (simp add: panel_ok_def signups_ok_def accounts_ok_def)
  then obtain j where j: "j \<in> admins (pn_users p)" "j \<noteq> u_id u"
    using not_the_last users_load_in [OF u(1)] u(2) some by blast
  let ?q = "on_users (\<lambda>_. fst (claim_busy (pn_users p) (u_id u))) p"
  obtain q y where y: "dispose_of running moved u owned decision receiver ?q = (q, y)" by fastforce
  obtain users where users: "roll users = roll (pn_users p)" "pn_users q = users \<or> pn_users q = delete_where (\<lambda>v. u_id v = u_id u) users"
    using dispose_users [of ?q running moved u owned decision receiver] by (auto simp: y)
  have "j \<in> admins users" using j(1) admins_roll [OF users(1)] by simp
  then have "j \<in> admins (pn_users q)" using users(2) j(2) by (auto simp: admins_def set_delete)
  then have "j \<in> admins (pn_users (on_users (\<lambda>users. set_busy users (u_id u) False) q))" "j \<in> admins (pn_users q)"
    using admins_roll [of "set_busy (pn_users q) (u_id u) False" "pn_users q"] by simp_all
  with j Inr x y show ?thesis
    by (auto simp: delete_user_def split_beta Let_def split: sum.split)
qed (use some in \<open>simp add: delete_user_def\<close>)

lemma create_joined: "joined d (pn_users p) (pn_users (fst (create_user env d body p)))"
proof (cases "create_checks env d body p")
  case (Inr w)
  obtain users row where w: "w = (users, row)" by (cases w)
  obtain new where "users_insert (pn_users p) (dr_id d) new (dr_now d) = Inr (users, row)"
    using Inr unfolding w create_checks_def by (auto simp: and_then_Inr case_Inr)
  from joined_insert [OF this] show ?thesis using Inr w by (simp add: create_user_def)
qed (simp add: create_user_def)

lemma install_joined: "joined d (pn_users p) (pn_users (fst (cli_install env d username address secret must_change p)))"
proof (cases "install_checks env d username address secret must_change p")
  case (Inr w)
  obtain users row where w: "w = (users, row)" by (cases w)
  obtain new where "users_insert (pn_users p) (dr_id d) new (dr_now d) = Inr (users, row)"
    using Inr unfolding w install_checks_def by (auto simp: and_then_Inr case_Inr)
  from joined_insert [OF this] show ?thesis using Inr w by (simp add: cli_install_def Let_def joined_def)
qed (simp add: cli_install_def)

lemma panel_step_admins:
  assumes "panel_step env p p'" and ok: "panel_ok env p" and some: "admins (pn_users p) \<noteq> {}"
  shows "admins (pn_users p') \<noteq> {}"
proof -
  have same: "admins users' \<noteq> {}" if "roll users' = roll (pn_users p)" for users'
    using admins_roll [OF that] some by simp
  have more: "admins users' \<noteq> {}" if "joined d (pn_users p) users'" for d users'
    using admins_joined [OF that] some by blast
  from assms(1) show ?thesis
  proof cases
    case (verify_step d) then show ?thesis using more [OF reg_verify_joined] by (simp add: on_signups_def)
  next
    case (approve_step d) then show ?thesis using more [OF reg_approve_joined] by (simp add: on_signups_def)
  next
    case email_step then show ?thesis using some by (simp add: email_admins)
  next
    case install_step then show ?thesis using more [OF install_joined] by simp
  next
    case create_step then show ?thesis using more [OF create_joined] by simp
  next
    case update_step then show ?thesis using update_admins [OF ok some] by simp
  next
    case delete_step then show ?thesis using delete_admins [OF ok some] by simp
  qed (rule same; simp add: on_signups_def reg_apply_users reg_resend_users reg_reject_users reg_sweep_users
      quiet_rolls)+
qed


subsection \<open>What a link can do\<close>

lemma reg_verify_confirms:
  assumes ok: "signups_ok env s" and l: "VerifyEmail to name token \<in> set (su_letters s)"
    and fresh: "dr_id d \<notin> u_id ` set (su_users s)"
  shows "\<And>u. u \<in> set (su_users (fst (reg_verify env d token from s))) \<Longrightarrow> u \<notin> set (su_users s) \<Longrightarrow> u_email u = Some to"
    and "\<And>r. r \<in> set (su_regs (fst (reg_verify env d token from s))) \<Longrightarrow> r \<notin> set (su_regs s) \<Longrightarrow> reg_email r = to"
proof -
  have held: "links_ok (out_digest env) (su_letters s) (su_regs s)" using ok by (simp add: signups_ok_def)
  have own: "reg_email r = to" if "r \<in> set (su_regs s)" "reg_token_hash r = out_digest env token" for r
    using held l that unfolding links_ok_def by blast
  have marked: "reg_email r = to" if "r \<in> set (fst (reg_mark_verified (out_digest env) (su_regs s) i token now))"
    "r \<notin> set (su_regs s)" for r i now
    using that own by (auto simp: reg_mark_verified_def Let_def in_update split: if_splits)
  obtain s' x where run: "reg_verify env d token from s = (s', x)" by fastforce
  then have "(\<forall>u \<in> set (su_users s'). u \<in> set (su_users s) \<or> u_email u = Some to) \<and>
    (\<forall>r \<in> set (su_regs s'). r \<in> set (su_regs s) \<or> reg_email r = to)"
  proof (cases rule: reg_verify_cases)
    case (admit r pw y)
    have r: "reg_email r = to" using own reg_by_token_in [OF admit(1)] by blast
    from admit(4) show ?thesis
    proof (cases rule: admit_cases)
      case (2 users row)
      have accounts: "accounts_ok (su_users s)" using ok by (simp add: signups_ok_def)
      note new = accounts_insert_ok [OF accounts fresh 2(2)]
      have row: "u_id row = dr_id d" "u_email row = Some to" using new r by (simp_all add: new_row_def admitted_def)
      have "u \<in> set (su_users s) \<or> u_email u = Some to" if u: "u \<in> set (su_users s')" for u
      proof -
        obtain v where v: "v \<in> set users" "u = (if u_id v = u_id row then v\<lparr>u_system_state := fst (dr_system d),
          u_system_uid := fst (snd (dr_system d)), u_system_error := snd (snd (dr_system d))\<rparr> else v)"
          using u by (auto simp: 2(3) set_system_def in_update)
        have users: "users = su_users s @ [row]" using new by simp
        show ?thesis
        proof (cases "v = row")
          case True
          then show ?thesis using v(2) row by simp
        next
          case False
          then have "v \<in> set (su_users s)" using v(1) users by simp
          moreover from this have "u_id v \<noteq> u_id row" using fresh row(1) by force
          ultimately show ?thesis using v(2) by simp
        qed
      qed
      then show ?thesis by (auto simp: 2(3) reg_remove_def set_delete)
    qed auto
  next
    case (mark r)
    with marked show ?thesis by auto
  next
    case (race r)
    with marked show ?thesis by auto
  qed simp
  with run show
    "\<And>u. u \<in> set (su_users (fst (reg_verify env d token from s))) \<Longrightarrow> u \<notin> set (su_users s) \<Longrightarrow> u_email u = Some to"
    "\<And>r. r \<in> set (su_regs (fst (reg_verify env d token from s))) \<Longrightarrow> r \<notin> set (su_regs s) \<Longrightarrow> reg_email r = to"
    by auto
qed

text \<open>A confirmed reset: whose it was, and what it wrote.\<close>

lemma living_row:
  "reset_living digest users t token now = Some (i, name) \<Longrightarrow>
    \<exists>r \<in> set t. rr_token_hash r = digest token \<and> rr_used_at r = None \<and> now < rr_expires_at r \<and> rr_user r = i"
  by (auto simp: reset_living_def split: option.splits dest!: fetch_SomeD)

lemma confirm_cases:
  assumes "reset_confirm env d token chosen from p = (p', Inr ())"
  obtains i name where "reset_living (out_digest env) (pn_users p) (pn_resets p) token (dr_now d) = Some (i, name)"
    "MIN_LENGTH \<le> length chosen" "p' = reset_settle env d token i (out_encode env (dr_salt d) chosen) p"
proof -
  obtain q x where q: "reset_ready env d token chosen from p = (q, x)" by fastforce
  obtain i h where x: "x = Inr (i, h)" and p': "p' = reset_settle env d token i h q"
    using assms q by (cases x) (auto simp: reset_confirm_def)
  have "reset_guard d from p = Inr ()" using q x by (auto simp: reset_ready_def split: sum.splits)
  with q x obtain name where "reset_living (out_digest env) (pn_users p) (pn_resets p) token (dr_now d) = Some (i, name)"
    "q = p" "and_then (password_hash (out_encode env) (dr_salt d) chosen) (\<lambda>h. Inr (i, h)) = Inr (i, h)"
    by (auto simp: reset_ready_def Let_def split_beta and_then_Inr split: option.splits)
  with that [of i name] p' show thesis
    by (auto simp: and_then_Inr password_hash_def check_strength_def split: if_splits)
qed

lemma settle_tables:
  assumes ok: "panel_ok env p" and i: "r \<in> set (pn_resets p)" "rr_token_hash r = out_digest env token" "rr_user r = i"
  shows "pn_users (reset_settle env d token i h p) = give_password i h False (pn_users p)"
    and "pn_sessions (reset_settle env d token i h p) = delete_where (\<lambda>s. ses_user s = i) (pn_sessions p)"
    and "\<And>q. q \<in> set (pn_resets (reset_settle env d token i h p)) \<Longrightarrow> rr_user q = i \<Longrightarrow> rr_used_at q \<noteq> None"
proof -
  show "pn_users (reset_settle env d token i h p) = give_password i h False (pn_users p)"
    "pn_sessions (reset_settle env d token i h p) = delete_where (\<lambda>s. ses_user s = i) (pn_sessions p)"
    by (simp_all add: reset_settle_def Let_def session_close_all_of_def split: option.split)
next
  fix q assume q: "q \<in> set (pn_resets (reset_settle env d token i h p))" "rr_user q = i"
  have "pn_resets (reset_settle env d token i h p) = reset_forget_others (update_where (\<lambda>r. rr_token_hash r = out_digest env token)
      (\<lambda>r. r\<lparr>rr_used_at := Some (dr_now d)\<rparr>) (pn_resets p)) i (out_digest env token)"
    by (simp add: reset_settle_def Let_def split: option.split)
  with q have hash: "rr_token_hash q = out_digest env token"
    and "q \<in> set (update_where (\<lambda>r. rr_token_hash r = out_digest env token) (\<lambda>r. r\<lparr>rr_used_at := Some (dr_now d)\<rparr>) (pn_resets p))"
    by (auto simp: reset_forget_others_def set_delete)
  then obtain r0 where "q = (if rr_token_hash r0 = out_digest env token then r0\<lparr>rr_used_at := Some (dr_now d)\<rparr> else r0)"
    unfolding in_update by blast
  then show "rr_used_at q \<noteq> None" using hash by (cases "rr_token_hash r0 = out_digest env token") simp_all
qed

lemma used_is_dead:
  assumes "\<And>q. q \<in> set t \<Longrightarrow> rr_user q = i \<Longrightarrow> rr_used_at q \<noteq> None"
  shows "reset_living digest users t token now \<noteq> Some (i, name)"
  using assms living_row [of digest users t token now i name] by blast

text \<open>
  An account never has a second row, so the count of the last hour never reaches the limit: what
  spaces the letters is the minute after the newest one alone.
\<close>

lemma hourly_limit_never_applies:
  assumes "panel_reachable env p"
  shows "count_where (\<lambda>r. rr_user r = i \<and> now - 3600 < rr_created_at r) (pn_resets p) \<le> 1"
proof -
  have d: "distinct (map rr_user (pn_resets p))"
    using panel_reachable_ok [OF assms] by (simp add: panel_ok_def resets_held_def)
  then show ?thesis by (rule count_distinct_le)
qed

end
