(* ===== verification/Retry.thy ===== *)
theory Retry
  imports Prelude
begin

text \<open>
  What Google's refusals mean and how often a call to it is made again (\<open>drive/http.rs\<close>,
  \<open>drive/retry.rs\<close>). Durations are natural numbers of nanoseconds.
\<close>

subsection \<open>Failures (\<open>drive/http.rs\<close>)\<close>

datatype drive_error =
    Unreachable ustr | Revoked ustr | QuotaFull ustr | RateLimited | Throttled ustr | DayFull ustr
  | PendingD (slow_down: bool) | Denied | ExpiredD | GoneD | SessionOver | Abusive ustr
  | RefusedD nat ustr ustr | CancelledD | BusyD | Unreadable ustr | Damaged ustr | Unconfirmed ustr
  | Replaced ustr | SetupD ustr

definition is_revoked :: "drive_error \<Rightarrow> bool" where
  "is_revoked e = (case e of Revoked _ \<Rightarrow> True | _ \<Rightarrow> False)"

definition is_worth_repeating :: "drive_error \<Rightarrow> bool" where
  "is_worth_repeating e =
     (case e of
        Unreachable _ \<Rightarrow> True
      | RateLimited \<Rightarrow> True
      | RefusedD st _ _ \<Rightarrow> if st = 507 then False else 500 \<le> st
      | _ \<Rightarrow> False)"

definition operation_code :: "drive_error \<Rightarrow> string" where
  "operation_code e =
     (case e of
        Revoked _ \<Rightarrow> ''drive_revoked''
      | QuotaFull _ \<Rightarrow> ''drive_quota_exceeded''
      | Throttled _ \<Rightarrow> ''drive_throttled''
      | DayFull _ \<Rightarrow> ''drive_day_full''
      | GoneD \<Rightarrow> ''drive_file_missing''
      | SessionOver \<Rightarrow> ''drive_session_expired''
      | Abusive _ \<Rightarrow> ''drive_abuse_blocked''
      | Damaged _ \<Rightarrow> ''drive_checksum_mismatch''
      | Unconfirmed _ \<Rightarrow> ''drive_unconfirmed''
      | Replaced _ \<Rightarrow> ''drive_file_replaced''
      | BusyD \<Rightarrow> ''drive_busy''
      | _ \<Rightarrow> ''drive_unavailable'')"

definition worth_a_look :: "nat \<Rightarrow> bool" where
  "worth_a_look st = (st = 403 \<or> st = 429 \<or> 500 \<le> st)"

definition shorten :: "ustr \<Rightarrow> ustr" where
  "shorten s = take 200 s"

text \<open>
  The bodies are given decoded: an \<open>Envelope\<close> with the message and the reasons of its fault, a
  \<open>Refusal\<close> with its three fields, and the text of the body for the case that they say nothing.
\<close>

definition api_refusal :: "nat \<Rightarrow> (ustr option \<times> ustr option list) option \<Rightarrow> ustr \<Rightarrow> drive_error" where
  "api_refusal st fault body =
     (let reason = (case fault of Some (_, Some r # _) \<Rightarrow> r | _ \<Rightarrow> []);
          detail = (case fault of Some (Some m, _) \<Rightarrow> m | _ \<Rightarrow> shorten body)
      in if reason = lit ''storageQuotaExceeded'' then QuotaFull (shorten detail)
         else if reason = lit ''rateLimitExceeded'' \<or> reason = lit ''userRateLimitExceeded'' then RateLimited
         else if reason = lit ''cannotDownloadAbusiveFile'' then Abusive (shorten detail)
         else if reason = lit ''sharingRateLimitExceeded'' \<or> reason = lit ''uploadLimitExceeded'' \<or>
           reason = lit ''teamDriveFileLimitExceeded'' then RefusedD st reason (shorten detail)
         else if st = 429 then RateLimited
         else if st = 404 \<or> st = 410 then GoneD
         else if st = 401 then Revoked (shorten detail)
         else RefusedD st reason (shorten detail))"

definition oauth_refusal :: "nat \<Rightarrow> ustr option \<times> ustr option \<times> ustr option \<Rightarrow> ustr \<Rightarrow> drive_error" where
  "oauth_refusal st parsed body =
     (let (error, error_code, description) = parsed;
          name = (case error of Some e \<Rightarrow> e | None \<Rightarrow> (case error_code of Some c \<Rightarrow> c | None \<Rightarrow> []));
          detail = (case description of Some d \<Rightarrow> d | None \<Rightarrow> shorten body)
      in if name = lit ''authorization_pending'' then PendingD False
         else if name = lit ''slow_down'' then PendingD True
         else if name = lit ''access_denied'' then Denied
         else if name = lit ''expired_token'' then ExpiredD
         else if name = lit ''invalid_grant'' then Revoked (shorten detail)
         else if name = lit ''rate_limit_exceeded'' then RateLimited
         else if st = 429 then RateLimited
         else RefusedD st name (shorten detail))"

subsection \<open>Plans\<close>

definition NANOS :: nat where "NANOS = 1000000000"
definition MILLI :: nat where "MILLI = 1000000"

record backoff =
  bo_tries :: nat
  bo_first :: nat
  bo_ceiling :: nat
  bo_budget :: nat

definition ONCE :: backoff where
  "ONCE = \<lparr>bo_tries = 1, bo_first = 0, bo_ceiling = 0, bo_budget = 0\<rparr>"
definition BRIEF :: backoff where
  "BRIEF = \<lparr>bo_tries = 3, bo_first = 1 * NANOS, bo_ceiling = 4 * NANOS, bo_budget = 10 * NANOS\<rparr>"
definition PATIENT :: backoff where
  "PATIENT = \<lparr>bo_tries = 7, bo_first = 1 * NANOS, bo_ceiling = 64 * NANOS, bo_budget = 5 * 60 * NANOS\<rparr>"
definition HURRIED :: backoff where
  "HURRIED = \<lparr>bo_tries = 4, bo_first = 10 * MILLI, bo_ceiling = 50 * MILLI, bo_budget = 3 * NANOS\<rparr>"

record pace =
  pc_brief :: backoff
  pc_patient :: backoff
  pc_run :: nat

definition REAL :: pace where
  "REAL = \<lparr>pc_brief = BRIEF, pc_patient = PATIENT, pc_run = 15 * 60 * NANOS\<rparr>"
definition HURRIED_PACE :: pace where
  "HURRIED_PACE = \<lparr>pc_brief = HURRIED, pc_patient = HURRIED, pc_run = 2 * NANOS\<rparr>"

text \<open>What one run may wait in all, over every call it makes: \<open>waited\<close> is an \<open>AtomicU64\<close> of
  milliseconds.\<close>

record spent =
  sp_budget :: nat
  sp_waited :: nat

definition spent_of :: "nat \<Rightarrow> spent" where
  "spent_of budget = \<lparr>sp_budget = budget, sp_waited = 0\<rparr>"

definition spent_waited :: "spent \<Rightarrow> nat" where
  "spent_waited s = sp_waited s * MILLI"

definition charge :: "nat \<Rightarrow> spent \<Rightarrow> spent \<times> nat" where
  "charge pause s =
     (let now = (sp_waited s + (pause div MILLI) mod 2 ^ 64) mod 2 ^ 64
      in (s\<lparr>sp_waited := now\<rparr>, now * MILLI))"

definition SLICE :: nat where "SLICE = 200 * MILLI"
definition LONGEST_HINT :: nat where "LONGEST_HINT = 10 * 60 * NANOS"
definition DURATION_MAX :: nat where "DURATION_MAX = 2 ^ 64 * NANOS - 1"

definition jitter :: "nat \<Rightarrow> nat \<Rightarrow> nat" where
  "jitter drawn first =
     (let span = min (first div MILLI) 1000 in
      if span = 0 then 0 else (drawn mod 2 ^ 16 mod span) * MILLI)"

definition pause_after :: "nat \<Rightarrow> nat \<Rightarrow> nat option \<Rightarrow> backoff \<Rightarrow> nat" where
  "pause_after drawn tried said plan =
     (let grown = min (bo_first plan * 2 ^ min (tried - 1) 16) DURATION_MAX;
          ours = min (grown + jitter drawn (bo_first plan)) (bo_ceiling plan)
      in max ours (min (case said of None \<Rightarrow> 0 | Some d \<Rightarrow> d) LONGEST_HINT))"

subsection \<open>Waiting\<close>

text \<open>
  A run is watched or not; a watched one may be called off at any moment. \<open>watch\<close> says what the
  n-th look at the flag finds, and the number of looks taken is counted.
\<close>

type_synonym watch = "(nat \<Rightarrow> bool) option"

definition called_off :: "watch \<Rightarrow> nat \<Rightarrow> bool" where
  "called_off w n = (case w of None \<Rightarrow> False | Some look \<Rightarrow> look n)"

function linger :: "watch \<Rightarrow> nat \<Rightarrow> nat \<Rightarrow> nat \<times> bool" where
  "linger w n left =
     (if left = 0 then (Suc n, \<not> called_off w n)
      else if called_off w n then (Suc n, False)
      else linger w (Suc n) (left - min left SLICE))"
  by pat_completeness auto

termination
  by (relation "measure (\<lambda>(w, n, left). left)") (auto simp: SLICE_def MILLI_def)

declare linger.simps [simp del]

definition spoken :: "nat \<Rightarrow> ustr" where
  "spoken pause =
     (let s = pause div NANOS in
      if s = 0 then lit ''a moment''
      else if s = 1 then lit ''1 second''
      else if s < 120 then digits_of s @ lit '' seconds''
      else digits_of (s div 60) @ lit '' minutes'')"

definition throttled :: "nat \<Rightarrow> nat \<Rightarrow> nat option \<Rightarrow> drive_error" where
  "throttled waited budget said =
     (let again = (case said of
            Some after \<Rightarrow> lit ''Google last asked for '' @ spoken after @ lit '' before the next call''
          | None \<Rightarrow> lit ''Google named no time of its own, and its documentation names none either; an hour is the usual pause before another run is worth starting'')
      in Throttled (lit ''Google turned this account away again and again. One run may spend '' @ spoken budget @
           lit '' waiting on it, and this one spent '' @ spoken waited @
           lit '', so it stopped rather than carry on for hours. '' @ again @ lit ''.''))"

subsection \<open>Trying again\<close>

record setback =
  sb_error :: drive_error
  sb_after :: "nat option"

definition setback_plain :: "drive_error \<Rightarrow> setback" where
  "setback_plain e = \<lparr>sb_error = e, sb_after = None\<rparr>"

record waiting_plan =
  wp_plan :: backoff
  wp_watch :: watch

text \<open>
  The n-th call answers \<open>calls n\<close>, the n-th pause draws \<open>drawn n\<close>. The state of the loop: looks taken,
  calls made, pauses waited (the newest first), what the run has spent.
\<close>

record trying =
  tr_looks :: nat
  tr_calls :: nat
  tr_pauses :: "nat list"
  tr_run :: "spent option"

definition run_over :: "nat \<Rightarrow> nat option \<Rightarrow> trying \<Rightarrow> trying \<times> drive_error option" where
  "run_over pause said t =
     (case tr_run t of
        None \<Rightarrow> (t, None)
      | Some run \<Rightarrow>
          let (run, over_all) = charge pause run in
          (t\<lparr>tr_run := Some run\<rparr>,
           if sp_budget run < over_all then Some (throttled over_all (sp_budget run) said) else None))"

function trying_on :: "waiting_plan \<Rightarrow> (nat \<Rightarrow> nat) \<Rightarrow> (nat \<Rightarrow> setback + 'a) \<Rightarrow> nat \<Rightarrow> nat \<Rightarrow> trying \<Rightarrow>
    trying \<times> (drive_error + 'a)" where
  "trying_on w drawn calls tried spent t =
     (if called_off (wp_watch w) (tr_looks t) then (t\<lparr>tr_looks := Suc (tr_looks t)\<rparr>, Inl CancelledD)
      else let answer = calls (tr_calls t);
               t = t\<lparr>tr_looks := Suc (tr_looks t), tr_calls := Suc (tr_calls t)\<rparr>
      in case answer of
           Inr value \<Rightarrow> (t, Inr value)
         | Inl s \<Rightarrow>
             let tried = tried + 1 in
             if bo_tries (wp_plan w) \<le> tried \<or> \<not> is_worth_repeating (sb_error s)
             then (t, Inl (sb_error s))
             else let pause = pause_after (drawn (tr_calls t)) tried (sb_after s) (wp_plan w) in
               if bo_budget (wp_plan w) < spent + pause then (t, Inl (sb_error s))
               else let (t, over) = run_over pause (sb_after s) t in
                 case over of
                   Some e \<Rightarrow> (t, Inl e)
                 | None \<Rightarrow>
                     let (looks, carried) = linger (wp_watch w) (tr_looks t) pause;
                         t = t\<lparr>tr_looks := looks, tr_pauses := pause # tr_pauses t\<rparr>
                     in if carried then trying_on w drawn calls tried (spent + pause) t
                        else (t, Inl CancelledD))"
  by pat_completeness auto

termination
  by (relation "measure (\<lambda>(w, _, _, tried, _, _). bo_tries (wp_plan w) - tried)") auto

declare trying_on.simps [simp del]

definition keep_trying :: "waiting_plan \<Rightarrow> (nat \<Rightarrow> nat) \<Rightarrow> (nat \<Rightarrow> setback + 'a) \<Rightarrow> spent option \<Rightarrow>
    trying \<times> (drive_error + 'a)" where
  "keep_trying w drawn calls run =
     trying_on w drawn calls 0 0 \<lparr>tr_looks = 0, tr_calls = 0, tr_pauses = [], tr_run = run\<rparr>"

definition breathe :: "waiting_plan \<Rightarrow> nat \<Rightarrow> nat \<Rightarrow> nat \<Rightarrow> nat \<times> bool" where
  "breathe w drawn looks tried =
     linger (wp_watch w) looks (pause_after drawn (max tried 1) None (wp_plan w))"

subsection \<open>How a turn of the loop ends\<close>

abbreviation after_call :: "trying \<Rightarrow> trying" where
  "after_call t \<equiv> t\<lparr>tr_looks := Suc (tr_looks t), tr_calls := Suc (tr_calls t)\<rparr>"

lemma run_over_same:
  "run_over pause said t = (t', over) \<Longrightarrow> tr_calls t' = tr_calls t \<and> tr_pauses t' = tr_pauses t \<and> tr_looks t' = tr_looks t"
  by (auto simp: run_over_def Let_def split: option.splits prod.splits)

lemma trying_on_cases:
  assumes "trying_on w drawn calls tried spent t = (t', r)"
  obtains
    (off) "t' = t\<lparr>tr_looks := Suc (tr_looks t)\<rparr>" "r = Inl CancelledD" "called_off (wp_watch w) (tr_looks t)"
  | (answered) v where "calls (tr_calls t) = Inr v" "t' = after_call t" "r = Inr v"
  | (gave_up) s where "calls (tr_calls t) = Inl s" "t' = after_call t" "r = Inl (sb_error s)"
      "bo_tries (wp_plan w) \<le> tried + 1 \<or> \<not> is_worth_repeating (sb_error s) \<or> bo_budget (wp_plan w) <
        spent + pause_after (drawn (Suc (tr_calls t))) (tried + 1) (sb_after s) (wp_plan w)"
  | (throttle) s pause e where "calls (tr_calls t) = Inl s" "run_over pause (sb_after s) (after_call t) = (t', Some e)" "r = Inl e"
      "tried + 1 < bo_tries (wp_plan w)" "is_worth_repeating (sb_error s)"
  | (stopped) s pause t1 looks where "calls (tr_calls t) = Inl s" "run_over pause (sb_after s) (after_call t) = (t1, None)"
      "t' = t1\<lparr>tr_looks := looks, tr_pauses := pause # tr_pauses t1\<rparr>" "r = Inl CancelledD"
      "linger (wp_watch w) (tr_looks t1) pause = (looks, False)"
      "spent + pause \<le> bo_budget (wp_plan w)" "tried + 1 < bo_tries (wp_plan w)" "is_worth_repeating (sb_error s)"
  | (again) s pause t1 looks where "calls (tr_calls t) = Inl s" "run_over pause (sb_after s) (after_call t) = (t1, None)"
      "trying_on w drawn calls (tried + 1) (spent + pause) (t1\<lparr>tr_looks := looks, tr_pauses := pause # tr_pauses t1\<rparr>) = (t', r)"
      "spent + pause \<le> bo_budget (wp_plan w)" "tried + 1 < bo_tries (wp_plan w)" "is_worth_repeating (sb_error s)"
      "pause = pause_after (drawn (Suc (tr_calls t))) (tried + 1) (sb_after s) (wp_plan w)"
proof (cases "called_off (wp_watch w) (tr_looks t)")
  case True
  with assms off show thesis by (subst (asm) trying_on.simps) simp
next
  case on: False
  show thesis
  proof (cases "calls (tr_calls t)")
    case (Inr v)
    with assms on answered show thesis by (subst (asm) trying_on.simps) (simp add: Let_def)
  next
    case (Inl s)
    define pause where "pause = pause_after (drawn (Suc (tr_calls t))) (tried + 1) (sb_after s) (wp_plan w)"
    show thesis
    proof (cases "bo_tries (wp_plan w) \<le> tried + 1 \<or> \<not> is_worth_repeating (sb_error s) \<or> bo_budget (wp_plan w) < spent + pause")
      case True
      with assms on Inl have "t' = after_call t" "r = Inl (sb_error s)"
        by (subst (asm) trying_on.simps, simp add: Let_def pause_def split: if_splits)+
      with Inl gave_up True show thesis by (simp add: pause_def)
    next
      case go: False
      obtain t1 over where ro: "run_over pause (sb_after s) (after_call t) = (t1, over)" by fastforce
      obtain looks carried where li: "linger (wp_watch w) (tr_looks t1) pause = (looks, carried)" by fastforce
      have eq: "(t', r) = (case over of Some e \<Rightarrow> (t1, Inl e) | None \<Rightarrow>
          if carried then trying_on w drawn calls (tried + 1) (spent + pause) (t1\<lparr>tr_looks := looks, tr_pauses := pause # tr_pauses t1\<rparr>)
          else (t1\<lparr>tr_looks := looks, tr_pauses := pause # tr_pauses t1\<rparr>, Inl CancelledD))"
        using assms on Inl go ro li by (subst (asm) trying_on.simps) (simp add: Let_def pause_def split: option.splits if_splits)
      show thesis
      proof (cases over)
        case (Some e)
        with eq ro Inl go show thesis by (intro throttle [of s pause e]) simp_all
      next
        case None
        show thesis
        proof (cases carried)
          case True
          with eq ro Inl go None show thesis by (intro again [of s pause t1 looks]) (simp_all add: pause_def)
        next
          case False
          with eq ro Inl go None li show thesis by (intro stopped [of s pause t1 looks]) simp_all
        qed
      qed
    qed
  qed
qed

text \<open>The induction over the turns, for a fixed plan and fixed answers.\<close>

lemma trying_on_induct [consumes 1, case_names off answered gave_up throttle stopped again]:
  assumes run: "trying_on w drawn calls tried spent t = (t', r)"
    and off: "\<And>tried spent t. P tried spent t (t\<lparr>tr_looks := Suc (tr_looks t)\<rparr>) (Inl CancelledD)"
    and answered: "\<And>tried spent t v. calls (tr_calls t) = Inr v \<Longrightarrow> P tried spent t (after_call t) (Inr v)"
    and gave_up: "\<And>tried spent t s. calls (tr_calls t) = Inl s \<Longrightarrow> P tried spent t (after_call t) (Inl (sb_error s))"
    and throttle: "\<And>tried spent t s pause t' e. calls (tr_calls t) = Inl s \<Longrightarrow>
      run_over pause (sb_after s) (after_call t) = (t', Some e) \<Longrightarrow> P tried spent t t' (Inl e)"
    and stopped: "\<And>tried spent t s pause t1 looks. calls (tr_calls t) = Inl s \<Longrightarrow>
      run_over pause (sb_after s) (after_call t) = (t1, None) \<Longrightarrow> spent + pause \<le> bo_budget (wp_plan w) \<Longrightarrow>
      P tried spent t (t1\<lparr>tr_looks := looks, tr_pauses := pause # tr_pauses t1\<rparr>) (Inl CancelledD)"
    and again: "\<And>tried spent t s pause t1 looks t' r. calls (tr_calls t) = Inl s \<Longrightarrow>
      run_over pause (sb_after s) (after_call t) = (t1, None) \<Longrightarrow>
      pause = pause_after (drawn (Suc (tr_calls t))) (tried + 1) (sb_after s) (wp_plan w) \<Longrightarrow>
      spent + pause \<le> bo_budget (wp_plan w) \<Longrightarrow> tried + 1 < bo_tries (wp_plan w) \<Longrightarrow> is_worth_repeating (sb_error s) \<Longrightarrow>
      P (tried + 1) (spent + pause) (t1\<lparr>tr_looks := looks, tr_pauses := pause # tr_pauses t1\<rparr>) t' r \<Longrightarrow> P tried spent t t' r"
  shows "P tried spent t t' r"
  using run
proof (induction "bo_tries (wp_plan w) - tried" arbitrary: tried spent t rule: less_induct)
  case less
  show ?case
  proof (cases rule: trying_on_cases [OF less.prems])
    case 1
    with off show ?thesis by simp
  next
    case (2 v)
    with answered show ?thesis by simp
  next
    case (3 s)
    with gave_up show ?thesis by simp
  next
    case (4 s pause e)
    with throttle show ?thesis by simp
  next
    case (5 s pause t1 looks)
    with stopped show ?thesis by simp
  next
    case (6 s pause t1 looks)
    then have "bo_tries (wp_plan w) - (tried + 1) < bo_tries (wp_plan w) - tried" by simp
    from again [OF 6(1,2,7,4,5,6) less.hyps [OF this 6(3)]] show ?thesis .
  qed
qed

subsection \<open>It ends\<close>

lemma trying_on_bounds:
  "trying_on w drawn calls tried spent t = (t', r) \<Longrightarrow> sum_list (tr_pauses t) = spent \<Longrightarrow> spent \<le> bo_budget (wp_plan w) \<Longrightarrow>
    tr_calls t' \<le> tr_calls t + max 1 (bo_tries (wp_plan w) - tried) \<and> sum_list (tr_pauses t') \<le> bo_budget (wp_plan w)"
proof (induction rule: trying_on_induct)
  case (again tried spent t s pause t1 looks t' r)
  then show ?case using run_over_same [OF again(2)] by auto
qed (auto dest!: run_over_same)

text \<open>All calls but the last failed in a way worth repeating; what is answered is the last call's
  answer, unless the run was called off or may wait no longer.\<close>

lemma trying_on_calls:
  "trying_on w drawn calls tried spent t = (t', r) \<Longrightarrow>
    tr_calls t \<le> tr_calls t' \<and>
    (\<forall>n. tr_calls t \<le> n \<and> n + 1 < tr_calls t' \<longrightarrow> (\<exists>s. calls n = Inl s \<and> is_worth_repeating (sb_error s))) \<and>
    (case r of
       Inr v \<Rightarrow> tr_calls t < tr_calls t' \<and> calls (tr_calls t' - 1) = Inr v
     | Inl e \<Rightarrow> e = CancelledD \<or> (\<exists>why. e = Throttled why) \<or>
         tr_calls t < tr_calls t' \<and> (\<exists>s. calls (tr_calls t' - 1) = Inl s \<and> e = sb_error s))"
proof (induction rule: trying_on_induct)
  case (again tried spent t s pause t1 looks t' r)
  have "tr_calls t1 = Suc (tr_calls t)" using run_over_same [OF again(2)] by simp
  moreover have "\<exists>s. calls n = Inl s \<and> is_worth_repeating (sb_error s)" if "tr_calls t \<le> n" "n + 1 < tr_calls t'" for n
  proof (cases "n = tr_calls t")
    case True
    with again(1,6) show ?thesis by blast
  next
    case False
    with again(7) calculation that show ?thesis by simp
  qed
  ultimately show ?case using again(7) by (auto split: sum.splits)
next
  case (throttle tried spent t s pause t' e)
  have "tr_calls t' = Suc (tr_calls t)" using run_over_same [OF throttle(2)] by simp
  moreover have "\<exists>why. e = Throttled why"
    using throttle(2) by (auto simp: run_over_def throttled_def Let_def split: option.splits prod.splits if_splits)
  ultimately show ?case by auto
qed (auto dest!: run_over_same)

lemma retries_end:
  assumes "keep_trying w drawn calls run = (t, r)"
  shows "tr_calls t \<le> max 1 (bo_tries (wp_plan w))" "sum_list (tr_pauses t) \<le> bo_budget (wp_plan w)"
  using trying_on_bounds [OF assms [unfolded keep_trying_def]] by auto

subsection \<open>It does not give up early\<close>

lemma linger_unwatched: "snd (linger None n left)"
proof (induction left arbitrary: n rule: less_induct)
  case (less left)
  show ?case
  proof (cases "left = 0")
    case False
    then have "left - min left SLICE < left" by (simp add: SLICE_def MILLI_def)
    with less False show ?thesis by (subst linger.simps) (simp add: called_off_def)
  qed (subst linger.simps, simp add: called_off_def)
qed

lemma jitter_le: "jitter drawn first \<le> first"
proof -
  define span where "span = min (first div MILLI) 1000"
  have whole: "span * MILLI \<le> first"
  proof -
    have "span * MILLI \<le> first div MILLI * MILLI" by (simp add: span_def)
    then show ?thesis using div_times_less_eq_dividend le_trans by blast
  qed
  show ?thesis
  proof (cases "span = 0")
    case False
    then have "drawn mod 2 ^ 16 mod span * MILLI \<le> span * MILLI"
      by (intro mult_le_mono1) (simp add: less_imp_le)
    then have "drawn mod 2 ^ 16 mod span * MILLI \<le> first" using whole by (rule le_trans)
    with False show ?thesis by (simp add: jitter_def span_def [symmetric] Let_def)
  qed (simp add: jitter_def span_def [symmetric])
qed

lemma pause_grows: "pause_after drawn (i + 1) None plan \<le> bo_first plan * (2 ^ i + 1)"
proof -
  have "bo_first plan * 2 ^ min i 16 \<le> bo_first plan * 2 ^ i" by (simp add: power_increasing)
  then have "min (bo_first plan * 2 ^ min i 16) DURATION_MAX \<le> bo_first plan * 2 ^ i" by (rule min.coboundedI1)
  then have "min (bo_first plan * 2 ^ min i 16) DURATION_MAX + jitter drawn (bo_first plan) \<le> bo_first plan * 2 ^ i + bo_first plan"
    using jitter_le by (rule add_mono)
  then show ?thesis by (simp add: pause_after_def Let_def min.coboundedI1 algebra_simps)
qed

definition room_for_all :: "backoff \<Rightarrow> bool" where
  "room_for_all plan = (bo_first plan * (2 ^ (bo_tries plan - 1) + bo_tries plan) \<le> bo_budget plan)"

lemma real_plans_have_room: "room_for_all BRIEF" "room_for_all PATIENT" "room_for_all HURRIED"
  by (simp_all add: room_for_all_def BRIEF_def PATIENT_def HURRIED_def NANOS_def MILLI_def)

lemma trying_on_persists:
  assumes "trying_on \<lparr>wp_plan = plan, wp_watch = None\<rparr> drawn calls tried spent t = (t', r)"
    and "tr_run t = None" "tr_calls t = tried" "tried \<le> k" "k < bo_tries plan" "calls k = Inr v"
    and "\<And>n. n < k \<Longrightarrow> \<exists>e. calls n = Inl (setback_plain e) \<and> is_worth_repeating e"
    and "room_for_all plan" "spent \<le> bo_first plan * (2 ^ tried + tried)"
  shows "r = Inr v"
  using assms
proof (induction "k - tried" arbitrary: tried spent t rule: less_induct)
  case less
  show ?case
  proof (cases "tried = k")
    case True
    with less.prems show ?thesis by (subst (asm) trying_on.simps) (simp add: called_off_def)
  next
    case False
    then have "tried < k" using less.prems(4) by simp
    from less.prems(7) [OF this] obtain e where e: "calls tried = Inl (setback_plain e)" "is_worth_repeating e" by blast
    have more: "spent + pause_after x (tried + 1) None plan \<le> bo_first plan * (2 ^ (tried + 1) + (tried + 1))" for x
      using less.prems(9) pause_grows [of x tried plan] by (simp add: algebra_simps)
    have "tried + 1 \<le> bo_tries plan - 1" using \<open>tried < k\<close> less.prems(5) by simp
    then have "(2 :: nat) ^ (tried + 1) + (tried + 1) \<le> 2 ^ (bo_tries plan - 1) + bo_tries plan"
      by (intro add_mono power_increasing) simp_all
    then have "bo_first plan * (2 ^ (tried + 1) + (tried + 1)) \<le> bo_budget plan"
      using less.prems(8) unfolding room_for_all_def by (meson le_trans mult_le_mono2)
    then have enough: "spent + pause_after x (tried + 1) None plan \<le> bo_budget plan" for x
      using more [of x] by (rule le_trans [rotated])
    show ?thesis
    proof (cases rule: trying_on_cases [OF less.prems(1)])
      case (6 s pause t1 looks)
      have s: "s = setback_plain e" using 6(1) e less.prems(3) by simp
      have t1: "tr_run t1 = None" "tr_calls t1 = tried + 1"
        using 6(2) less.prems(2,3) by (auto simp: run_over_def)
      have "spent + pause \<le> bo_first plan * (2 ^ (tried + 1) + (tried + 1))"
        using more by (simp add: 6(7) s setback_plain_def)
      with t1 \<open>tried < k\<close> show ?thesis
        by (intro less.hyps [OF _ 6(3)]) (use less.prems in auto)
    next
      case (3 s)
      moreover have "s = setback_plain e" using 3(1) e(1) less.prems(3) by simp
      ultimately show ?thesis using e(2) less.prems(3,5) enough [of "drawn (Suc (tr_calls t))"] \<open>tried < k\<close>
        by (simp add: setback_plain_def)
    next
      case (5 s pause t1 looks)
      with linger_unwatched [of "tr_looks t1" pause] show ?thesis by simp
    next
      case 1
      then show ?thesis by (simp add: called_off_def)
    qed (use less.prems e in \<open>auto simp: run_over_def\<close>)
  qed
qed

lemma retries_persist:
  assumes "keep_trying \<lparr>wp_plan = plan, wp_watch = None\<rparr> drawn calls None = (t, r)"
    and "plan \<in> {BRIEF, PATIENT, HURRIED}" "k < bo_tries plan" "calls k = Inr v"
    and "\<And>n. n < k \<Longrightarrow> \<exists>e. calls n = Inl (setback_plain e) \<and> is_worth_repeating e"
  shows "r = Inr v"
  using assms(2) real_plans_have_room
  by (intro trying_on_persists [OF assms(1) [unfolded keep_trying_def] _ _ _ assms(3,4,5)]) auto

end
