(* ===== verification/Upload.thy ===== *)
theory Upload
  imports Retry
begin

text \<open>
  Sending an archive to Google Drive in chunks (\<open>drive/upload.rs\<close>), and what an account has sent in
  a day (\<open>drive/day.rs\<close>). A digest is kept as the bytes it has taken; \<open>hashes\<close> turns them into
  what \<open>md5()\<close> and \<open>sha256()\<close> answer.
\<close>

subsection \<open>The day of an account (\<open>drive/day.rs\<close>)\<close>

record tally =
  ta_ceiling :: nat
  ta_before :: nat
  ta_added :: nat

definition CEILING :: nat where "CEILING = 750 * 1000 * 1000 * 1000"

definition tally_of :: "nat \<Rightarrow> tally" where
  "tally_of before = \<lparr>ta_ceiling = CEILING, ta_before = before, ta_added = 0\<rparr>"

definition tally_took :: "nat \<Rightarrow> tally \<Rightarrow> tally" where
  "tally_took bytes t = t\<lparr>ta_added := (ta_added t + bytes) mod 2 ^ 64\<rparr>"

definition tally_today :: "tally \<Rightarrow> nat" where
  "tally_today t = min (ta_before t + ta_added t) (2 ^ 64 - 1)"

definition tally_room :: "tally \<Rightarrow> nat" where
  "tally_room t = ta_ceiling t - tally_today t"

definition tally_full :: "tally \<Rightarrow> bool" where
  "tally_full t = (tally_room t = 0)"

definition tally_reached :: "tally \<Rightarrow> drive_error" where
  "tally_reached t = DayFull (digits_of (tally_today t) @ lit '' bytes have gone up from this account today and Google takes 750 GB a day, so the rest waits. Google does not write down when the day turns over for an account; this panel counts from midnight UTC, and the run is worth starting again after that'')"

subsection \<open>What Google answers\<close>

definition CHUNK :: nat where "CHUNK = 8 * 1024 * 1024"
definition ATTEMPTS :: nat where "ATTEMPTS = 5"
definition RENEWALS :: nat where "RENEWALS = 1"
definition READ_AT_ONCE :: nat where "READ_AT_ONCE = 1024 * 1024"

record uploaded =
  ul_id :: ustr
  ul_size :: "ustr option"
  ul_md5 :: "ustr option"
  ul_sha256 :: "ustr option"

datatype chunk = ChunkDone uploaded | ChunkMore nat "ustr option"

fun split_once :: "nat \<Rightarrow> ustr \<Rightarrow> (ustr \<times> ustr) option" where
  "split_once c [] = None"
| "split_once c (x # xs) =
     (if x = c then Some ([], xs) else map_option (\<lambda>(a, b). (x # a, b)) (split_once c xs))"

definition rsplit_once :: "nat \<Rightarrow> ustr \<Rightarrow> (ustr \<times> ustr) option" where
  "rsplit_once c s = map_option (\<lambda>(a, b). (rev b, rev a)) (split_once c (rev s))"

definition parse_u64 :: "ustr \<Rightarrow> nat option" where
  "parse_u64 s =
     (case parse_magnitude (case s of c # cs \<Rightarrow> if c = 43 then cs else s | [] \<Rightarrow> []) of
        None \<Rightarrow> None
      | Some n \<Rightarrow> if n < 2 ^ 64 then Some n else None)"

definition after :: "ustr option \<Rightarrow> nat" where
  "after header =
     (case header of
        None \<Rightarrow> 0
      | Some r \<Rightarrow>
          (case split_once 61 r of
             None \<Rightarrow> 0
           | Some (_, reach) \<Rightarrow>
               (case rsplit_once 45 reach of
                  None \<Rightarrow> 0
                | Some (_, final) \<Rightarrow>
                    (case parse_u64 (trim final) of None \<Rightarrow> 0 | Some e \<Rightarrow> (e + 1) mod 2 ^ 64))))"

text \<open>A response: its status, the two headers, and its body - read or not, decoded or not.\<close>

record response =
  rs_status :: nat
  rs_location :: "ustr option"
  rs_range :: "ustr option"
  rs_body :: "drive_error + (ustr + uploaded) \<times> (ustr option \<times> ustr option list) option \<times> ustr"

definition read_answer :: "response \<Rightarrow> drive_error + chunk" where
  "read_answer r =
     (if rs_status r = 308 then Inr (ChunkMore (after (rs_range r)) (rs_location r))
      else if rs_status r = 404 then Inl SessionOver
      else (case rs_body r of
              Inl e \<Rightarrow> Inl e
            | Inr (decoded, fault, body) \<Rightarrow>
                if \<not> (200 \<le> rs_status r \<and> rs_status r < 300) then Inl (api_refusal (rs_status r) fault body)
                else (case decoded of
                        Inl why \<Rightarrow> Inl (Unreadable (shorten why))
                      | Inr u \<Rightarrow> Inr (ChunkDone u))))"

subsection \<open>Sending\<close>

record hashes =
  ha_md5 :: "ustr \<Rightarrow> ustr"
  ha_sha256 :: "ustr \<Rightarrow> ustr"

record sent_file =
  sf_file :: uploaded
  sf_md5 :: ustr
  sf_sha256 :: ustr
  sf_covered :: nat

definition sent_of :: "hashes \<Rightarrow> uploaded \<Rightarrow> ustr \<Rightarrow> nat \<Rightarrow> sent_file" where
  "sent_of h file ours covered =
     \<lparr>sf_file = file, sf_md5 = ha_md5 h ours, sf_sha256 = ha_sha256 h ours, sf_covered = covered\<rparr>"

text \<open>What one turn of the loop meets: whether the run was called off, the token or why there is none,
  an error of the disk, Google's answer to the chunk, why a renewal failed, and whether the pause
  after a fruitless try was waited out.\<close>

record turn =
  tu_cancelled :: bool
  tu_token :: "drive_error option"
  tu_disk :: "drive_error option"
  tu_answer :: "drive_error + chunk"
  tu_renewal :: "drive_error option"
  tu_breathed :: bool

record sending =
  sd_turns :: nat
  sd_offset :: nat
  sd_fruitless :: nat
  sd_renewals :: nat
  sd_ours :: ustr
  sd_session :: ustr
  sd_progress :: nat
  sd_tally :: tally
  sd_offered :: "(nat \<times> ustr) list"

definition refused_again :: "ustr \<Rightarrow> drive_error" where
  "refused_again why = RefusedD 401 (lit ''unauthorized'') (lit ''Google turned a chunk away as unauthorised even with a token minted a moment earlier. The connection itself still stands, so this is not something reconnecting fixes. Google said: '' @ why)"

text \<open>\<open>read_exact\<close> fails when the file ends before the chunk does.\<close>

definition chunk_at :: "ustr \<Rightarrow> nat \<Rightarrow> nat \<Rightarrow> ustr option" where
  "chunk_at archive offset wanted =
     (if offset + wanted \<le> length archive then Some (take wanted (drop offset archive)) else None)"

definition cut_short :: drive_error where
  "cut_short = Unreachable (lit ''the archive could not be read back: early eof'')"

text \<open>The answer to a chunk that went through: \<open>None\<close> goes on with the loop.\<close>

definition acknowledged :: "hashes \<Rightarrow> turn \<Rightarrow> ustr \<Rightarrow> nat \<Rightarrow> ustr option \<Rightarrow> sending \<Rightarrow>
    sending \<times> (drive_error + sent_file) option" where
  "acknowledged h tu bytes received moved st =
     (let st = (case moved of Some fresh \<Rightarrow> st\<lparr>sd_session := fresh\<rparr> | None \<Rightarrow> st);
          wanted = length bytes;
          sent = sd_offset st + wanted
      in if sent < received
         then (st, Some (Inl (Unreadable (lit ''Google claims '' @ digits_of received @ lit '' bytes of the archive when only '' @
                digits_of sent @ lit '' have ever been sent''))))
         else if received \<le> sd_offset st
         then let st = st\<lparr>sd_fruitless := sd_fruitless st + 1\<rparr> in
              if ATTEMPTS \<le> sd_fruitless st
              then (st, Some (Inl (Unreadable (lit ''Google acknowledged nothing of the archive after '' @
                     digits_of (sd_fruitless st) @ lit '' tries at offset '' @ digits_of (sd_offset st)))))
              else if \<not> tu_breathed tu then (st, Some (Inl CancelledD))
              else (st, None)
         else let taken = received - sd_offset st in
              (st\<lparr>sd_fruitless := 0, sd_renewals := 0,
                  sd_ours := (if taken = wanted then sd_ours st @ bytes else sd_ours st @ take taken bytes),
                  sd_progress := sd_progress st + taken, sd_tally := tally_took taken (sd_tally st),
                  sd_offset := received\<rparr>, None))"

definition answered :: "hashes \<Rightarrow> turn \<Rightarrow> ustr \<Rightarrow> ustr \<Rightarrow> sending \<Rightarrow> sending \<times> (drive_error + sent_file) option" where
  "answered h tu bytes ahead st =
     (case tu_answer tu of
        Inl (Revoked why) \<Rightarrow>
          if RENEWALS \<le> sd_renewals st then (st, Some (Inl (refused_again why)))
          else (st\<lparr>sd_renewals := sd_renewals st + 1\<rparr>, map_option Inl (tu_renewal tu))
      | Inl e \<Rightarrow> (st, Some (Inl e))
      | Inr (ChunkDone file) \<Rightarrow>
          (st\<lparr>sd_progress := sd_progress st + length bytes, sd_tally := tally_took (length bytes) (sd_tally st)\<rparr>,
           Some (Inr (sent_of h file ahead (sd_offset st + length bytes))))
      | Inr (ChunkMore received moved) \<Rightarrow> acknowledged h tu bytes received moved st)"

definition send_turn :: "hashes \<Rightarrow> ustr \<Rightarrow> nat \<Rightarrow> turn \<Rightarrow> sending \<Rightarrow> sending \<times> (drive_error + sent_file) option" where
  "send_turn h archive whole tu st =
     (if tu_cancelled tu then (st, Some (Inl CancelledD))
      else if tally_full (sd_tally st) then (st, Some (Inl (tally_reached (sd_tally st))))
      else (case tu_token tu of Some e \<Rightarrow> (st, Some (Inl e)) | None \<Rightarrow>
        let wanted = min CHUNK (whole - sd_offset st) in
        (case tu_disk tu of Some e \<Rightarrow> (st, Some (Inl e)) | None \<Rightarrow>
          (case chunk_at archive (sd_offset st) wanted of None \<Rightarrow> (st, Some (Inl cut_short)) | Some bytes \<Rightarrow>
            let ahead = sd_ours st @ bytes;
                st = st\<lparr>sd_offered := sd_offered st @ [(sd_offset st + wanted, ha_sha256 h ahead)]\<rparr>
            in answered h tu bytes ahead st))))"

text \<open>While the loop goes on, \<open>still_to_do\<close> falls: an acknowledged byte outweighs the fruitless tries and
  the renewal that count anew after it.\<close>

definition still_to_do :: "nat \<Rightarrow> sending \<Rightarrow> nat" where
  "still_to_do whole st =
     7 * (whole - sd_offset st) + (ATTEMPTS - sd_fruitless st) + (RENEWALS - sd_renewals st)"

lemma acknowledged_goes_on:
  assumes "acknowledged h tu bytes received moved st = (st', None)" "sd_offset st + length bytes \<le> whole"
  shows "still_to_do whole st' < still_to_do whole st" "sd_turns st' = sd_turns st" "sd_offset st' \<le> whole"
  using assms by (auto simp: acknowledged_def still_to_do_def ATTEMPTS_def RENEWALS_def Let_def split: option.splits if_splits)

lemma chunk_at_Some:
  "chunk_at archive offset wanted = Some bytes \<Longrightarrow>
    bytes = take wanted (drop offset archive) \<and> length bytes = wanted \<and> offset + wanted \<le> length archive"
  by (auto simp: chunk_at_def split: if_splits)

lemma send_turn_turns: "sd_turns (fst (send_turn h archive whole tu st)) = sd_turns st"
  by (simp add: send_turn_def answered_def acknowledged_def Let_def split: sum.split option.split drive_error.split chunk.split)

lemma send_turn_goes_on:
  assumes "send_turn h archive whole tu st = (st', None)" "sd_offset st < whole"
  shows "still_to_do whole st' < still_to_do whole st \<and> sd_turns st' = sd_turns st \<and> sd_offset st' \<le> whole"
proof -
  let ?wanted = "min CHUNK (whole - sd_offset st)"
  obtain bytes where bytes: "chunk_at archive (sd_offset st) ?wanted = Some bytes"
    using assms(1) by (auto simp: send_turn_def Let_def split: if_splits option.splits)
  define st1 where "st1 = st\<lparr>sd_offered := sd_offered st @ [(sd_offset st + ?wanted, ha_sha256 h (sd_ours st @ bytes))]\<rparr>"
  have same: "still_to_do whole st1 = still_to_do whole st" "sd_turns st1 = sd_turns st" "sd_offset st1 = sd_offset st"
    by (simp_all add: st1_def still_to_do_def)
  have fits: "sd_offset st1 + length bytes \<le> whole" using chunk_at_Some [OF bytes] assms(2) same(3) by simp
  have run: "answered h tu bytes (sd_ours st @ bytes) st1 = (st', None)"
    using assms(1) bytes by (simp add: send_turn_def Let_def st1_def split: if_splits option.splits)
  show ?thesis
  proof (cases "tu_answer tu")
    case (Inr c)
    obtain received moved where "c = ChunkMore received moved" "acknowledged h tu bytes received moved st1 = (st', None)"
      using run Inr by (cases c) (auto simp: answered_def)
    from acknowledged_goes_on [OF this(2) fits] same show ?thesis by simp
  next
    case (Inl e)
    then have "sd_renewals st1 < RENEWALS" "st' = st1\<lparr>sd_renewals := sd_renewals st1 + 1\<rparr>"
      using run by (auto simp: answered_def split: if_splits drive_error.splits)
    then show ?thesis using assms(2) same by (simp add: still_to_do_def RENEWALS_def)
  qed
qed

function send_loop :: "hashes \<Rightarrow> ustr \<Rightarrow> nat \<Rightarrow> (nat \<Rightarrow> turn) \<Rightarrow> sending \<Rightarrow> sending \<times> (drive_error + sent_file) option" where
  "send_loop h archive whole turns st =
     (if sd_offset st < whole
      then (case send_turn h archive whole (turns (sd_turns st)) st of
              (st', Some r) \<Rightarrow> (st'\<lparr>sd_turns := Suc (sd_turns st')\<rparr>, Some r)
            | (st', None) \<Rightarrow> send_loop h archive whole turns (st'\<lparr>sd_turns := Suc (sd_turns st')\<rparr>))
      else (st, None))"
  by pat_completeness auto

termination
proof (relation "measure (\<lambda>(h, archive, whole, turns, st). still_to_do whole st)", simp, goal_cases)
  case (1 h archive whole turns st st' x)
  then have "send_turn h archive whole (turns (sd_turns st)) st = (st', None)" by simp
  from send_turn_goes_on [OF this 1(1)] show ?case by (simp add: still_to_do_def)
qed

declare send_loop.simps [simp del]

text \<open>\<open>opened\<close> says whether the archive could be opened; \<open>closing\<close> is the token for, and the answer to,
  the question that follows the last byte.\<close>

definition conclude :: "hashes \<Rightarrow> nat \<Rightarrow> drive_error option \<times> (drive_error + chunk) \<Rightarrow> ustr \<Rightarrow> drive_error + sent_file" where
  "conclude h whole closing ours =
     (case fst closing of
        Some e \<Rightarrow> Inl e
      | None \<Rightarrow>
          (case snd closing of
             Inl e \<Rightarrow> Inl e
           | Inr (ChunkDone file) \<Rightarrow> Inr (sent_of h file ours whole)
           | Inr (ChunkMore _ _) \<Rightarrow>
               Inl (Unreadable (lit ''Google took every byte of the archive and did not confirm the file''))))"

definition send :: "hashes \<Rightarrow> ustr \<Rightarrow> nat \<Rightarrow> (nat \<Rightarrow> turn) \<Rightarrow> drive_error option \<Rightarrow> drive_error option \<times> (drive_error + chunk) \<Rightarrow>
    nat \<Rightarrow> sending \<Rightarrow> sending \<times> (drive_error + sent_file)" where
  "send h archive whole turns opened closing since st =
     (case opened of Some e \<Rightarrow> (st, Inl e) | None \<Rightarrow>
      if whole = 0 then (st, Inl (Unreadable (lit ''the archive is empty'')))
      else if whole < since
      then (st, Inl (Unreadable (lit ''Google holds '' @ digits_of since @ lit '' bytes of an archive that is only '' @
              digits_of whole @ lit '' long'')))
      else let st = st\<lparr>sd_offset := since, sd_fruitless := 0, sd_renewals := 0, sd_progress := sd_progress st + since\<rparr>
      in case send_loop h archive whole turns st of
           (st, Some r) \<Rightarrow> (st, r)
         | (st, None) \<Rightarrow> (st, conclude h whole closing (sd_ours st)))"

subsection \<open>What was hashed before (\<open>prefix_of\<close>)\<close>

text \<open>The walk to the next stop in pieces, and from stop to stop.\<close>

function walk_to :: "ustr \<Rightarrow> nat \<Rightarrow> nat \<Rightarrow> ustr \<Rightarrow> drive_error + ustr" where
  "walk_to archive here goal walked =
     (if here < goal
      then let wanted = min (goal - here) READ_AT_ONCE in
           (case chunk_at archive here wanted of
              None \<Rightarrow> Inl cut_short
            | Some bytes \<Rightarrow> walk_to archive (here + wanted) goal (walked @ bytes))
      else Inr walked)"
  by pat_completeness auto

termination
  by (relation "measure (\<lambda>(archive, here, goal, walked). goal - here)") (auto simp: READ_AT_ONCE_def)

declare walk_to.simps [simp del]

definition next_stop :: "nat \<Rightarrow> nat \<Rightarrow> nat \<Rightarrow> nat" where
  "next_stop keep until here =
     (case filter (\<lambda>stop. here < stop) [keep, until] of
        [] \<Rightarrow> max keep until | s # ss \<Rightarrow> fold min ss s)"

function prefix_walk :: "hashes \<Rightarrow> ustr \<Rightarrow> nat \<Rightarrow> nat \<Rightarrow> nat \<Rightarrow> ustr \<Rightarrow> ustr \<Rightarrow> ustr \<Rightarrow> drive_error + ustr \<times> ustr" where
  "prefix_walk h archive keep until here walked carried proven =
     (if here < max keep until
      then let goal = next_stop keep until here in
           (case walk_to archive here goal walked of
              Inl e \<Rightarrow> Inl e
            | Inr walked \<Rightarrow>
                prefix_walk h archive keep until goal walked
                  (if goal = keep then walked else carried) (if goal = until then ha_sha256 h walked else proven))
      else Inr (carried, proven))"
  by pat_completeness auto

termination
  by (relation "measure (\<lambda>(h, archive, keep, until, here, _). max keep until - here)")
    (auto simp: next_stop_def max_def split: if_splits)

declare prefix_walk.simps [simp del]

definition prefix_of :: "hashes \<Rightarrow> ustr \<Rightarrow> drive_error option \<Rightarrow> nat \<Rightarrow> nat \<Rightarrow> drive_error + ustr \<times> ustr" where
  "prefix_of h archive opened keep until =
     (case opened of Some e \<Rightarrow> Inl e | None \<Rightarrow> prefix_walk h archive keep until 0 [] [] (ha_sha256 h []))"

subsection \<open>What was sent is what was hashed\<close>

text \<open>The digest covers exactly what Google has acknowledged, the ledger holds the digests of what was
  offered, and the progress and the day count the bytes acknowledged since \<open>since\<close>.\<close>

definition offers_ok :: "hashes \<Rightarrow> ustr \<Rightarrow> nat \<Rightarrow> (nat \<times> ustr) list \<Rightarrow> bool" where
  "offers_ok h archive whole os =
     (\<forall>(reach, proven) \<in> set os. reach \<le> whole \<and> proven = ha_sha256 h (take reach archive))"

definition sending_ok :: "hashes \<Rightarrow> ustr \<Rightarrow> nat \<Rightarrow> nat \<Rightarrow> sending \<Rightarrow> sending \<Rightarrow> bool" where
  "sending_ok h archive whole since st0 st =
     (since \<le> sd_offset st \<and> sd_offset st \<le> whole \<and> sd_offset st \<le> length archive \<and>
      sd_ours st = take (sd_offset st) archive \<and>
      sd_progress st = sd_progress st0 + (sd_offset st - since) \<and>
      sd_tally st = tally_took (sd_offset st - since) (sd_tally st0) \<and>
      offers_ok h archive whole (sd_offered st))"

lemma sending_okD:
  assumes "sending_ok h archive whole since st0 st"
  shows "since \<le> sd_offset st" "sd_offset st \<le> whole" "sd_offset st \<le> length archive" "sd_ours st = take (sd_offset st) archive"
    "sd_progress st = sd_progress st0 + (sd_offset st - since)"
    "sd_tally st = tally_took (sd_offset st - since) (sd_tally st0)"
    "offers_ok h archive whole (sd_offered st)"
  using assms by (auto simp: sending_ok_def)

lemma take_more: "take a xs @ take b (drop a xs) = take (a + b) xs"
  by (simp add: take_add)

lemma took_more: "c \<le> b \<Longrightarrow> tally_took d (tally_took (b - c) t) = tally_took (b + d - c) t"
  by (simp add: tally_took_def mod_add_left_eq add.assoc)

lemma took_nothing: "ta_added t < 2 ^ 64 \<Longrightarrow> tally_took 0 t = t"
  by (simp add: tally_took_def)

lemma acknowledged_keeps:
  assumes ok: "sending_ok h archive whole since st0 st"
    and bytes: "bytes = take wanted (drop (sd_offset st) archive)" "length bytes = wanted" "sd_offset st + wanted \<le> whole"
      "sd_offset st + wanted \<le> length archive"
    and run: "acknowledged h tu bytes received moved st = (st', r)"
  shows "sending_ok h archive whole since st0 st' \<and> r \<noteq> Some (Inr sent)"
proof -
  define st1 where "st1 = (case moved of Some fresh \<Rightarrow> st\<lparr>sd_session := fresh\<rparr> | None \<Rightarrow> st)"
  have same: "sd_offset st1 = sd_offset st" "sending_ok h archive whole since st0 st1"
    using ok by (auto simp: st1_def sending_ok_def split: option.split)
  note st1 = sending_okD [OF same(2)]
  show ?thesis
  proof (cases "sd_offset st1 < received \<and> received \<le> sd_offset st1 + wanted")
    case True
    let ?taken = "received - sd_offset st1"
    have t: "?taken \<le> wanted" "sd_offset st1 + ?taken = received" using True by linarith+
    have small: "received \<le> whole" "received \<le> length archive" using True bytes(3,4) same(1) by linarith+
    have "sd_ours st1 @ (if ?taken = wanted then bytes else take ?taken bytes) = take received archive"
      using t same(1) by (auto simp: st1(4) bytes(1) take_more min_def)
    then have ours: "(if ?taken = wanted then sd_ours st1 @ bytes else sd_ours st1 @ take ?taken bytes) = take received archive"
      by (simp split: if_splits)
    have "tally_took ?taken (sd_tally st1) = tally_took (received - since) (sd_tally st0)"
      unfolding st1(6) took_more [OF st1(1)] t(2) ..
    moreover have "since \<le> received" "sd_progress st1 + ?taken = sd_progress st0 + (received - since)"
      using st1(1,5) t(2) by linarith+
    moreover have "r = None" "st' = st1\<lparr>sd_fruitless := 0, sd_renewals := 0, sd_ours := take received archive,
        sd_progress := sd_progress st1 + ?taken, sd_tally := tally_took ?taken (sd_tally st1), sd_offset := received\<rparr>"
      using run True ours bytes(2) by (simp_all add: acknowledged_def st1_def [symmetric] Let_def)
    ultimately show ?thesis using st1(7) small
      by (simp add: sending_ok_def)
  next
    case False
    have fruit: "sending_ok h archive whole since st0 (st1\<lparr>sd_fruitless := n\<rparr>)" for n
      using same(2) by (simp add: sending_ok_def)
    from False run bytes(2) same(2) fruit show ?thesis
      by (auto simp: acknowledged_def st1_def [symmetric] Let_def split: if_splits)
  qed
qed

definition sent_ok :: "hashes \<Rightarrow> ustr \<Rightarrow> nat \<Rightarrow> nat \<Rightarrow> sending \<Rightarrow> sending \<Rightarrow> sent_file \<Rightarrow> bool" where
  "sent_ok h archive whole since st0 st sent =
     (since \<le> sf_covered sent \<and> sf_covered sent \<le> whole \<and> sf_covered sent \<le> length archive \<and>
      sf_md5 sent = ha_md5 h (take (sf_covered sent) archive) \<and>
      sf_sha256 sent = ha_sha256 h (take (sf_covered sent) archive) \<and>
      sd_progress st = sd_progress st0 + (sf_covered sent - since) \<and>
      sd_tally st = tally_took (sf_covered sent - since) (sd_tally st0))"

lemma offers_more:
  "offers_ok h archive whole os \<Longrightarrow> reach \<le> whole \<Longrightarrow> offers_ok h archive whole (os @ [(reach, ha_sha256 h (take reach archive))])"
  by (auto simp: offers_ok_def)

lemma send_turn_keeps:
  assumes ok: "sending_ok h archive whole since st0 st" and more: "sd_offset st < whole"
    and run: "send_turn h archive whole tu st = (st', r)"
  shows "offers_ok h archive whole (sd_offered st') \<and> (r = None \<longrightarrow> sending_ok h archive whole since st0 st') \<and>
    (\<forall>sent. r = Some (Inr sent) \<longrightarrow> sent_ok h archive whole since st0 st' sent)"
proof -
  define wanted where "wanted = min CHUNK (whole - sd_offset st)"
  note st = sending_okD [OF ok]
  show ?thesis
  proof (cases "tu_cancelled tu \<or> tally_full (sd_tally st) \<or> tu_token tu \<noteq> None \<or> tu_disk tu \<noteq> None \<or>
      chunk_at archive (sd_offset st) wanted = None")
    case True
    with run st(7) show ?thesis by (auto simp: send_turn_def wanted_def [symmetric] Let_def split: if_splits option.splits)
  next
    case False
    then obtain bytes where bytes: "chunk_at archive (sd_offset st) wanted = Some bytes" by blast
    note b = chunk_at_Some [OF bytes]
    define ahead where "ahead = sd_ours st @ bytes"
    define st1 where "st1 = st\<lparr>sd_offered := sd_offered st @ [(sd_offset st + wanted, ha_sha256 h ahead)]\<rparr>"
    have fits: "sd_offset st + wanted \<le> whole" using more by (simp add: wanted_def)
    have ahead: "ahead = take (sd_offset st + wanted) archive"
      unfolding ahead_def using b by (simp add: st(4) take_more)
    have st1: "sending_ok h archive whole since st0 st1"
      using ok offers_more [OF st(7) fits] by (simp add: sending_ok_def st1_def ahead)
    have renewed: "sending_ok h archive whole since st0 (st1\<lparr>sd_renewals := n\<rparr>)" for n
      using st1 by (simp add: sending_ok_def)
    note o1 = sending_okD(7) [OF st1]
    have run: "answered h tu bytes ahead st1 = (st', r)"
      using False run bytes by (simp add: send_turn_def wanted_def [symmetric] Let_def st1_def ahead_def)
    show ?thesis
    proof (cases "tu_answer tu")
      case (Inl e)
      with run renewed o1 show ?thesis
        by (cases e) (auto simp: answered_def split: if_splits)
    next
      case (Inr c)
      show ?thesis
      proof (cases c)
        case (ChunkMore received moved)
        have offs: "sd_offset st1 = sd_offset st" by (simp add: st1_def)
        from ChunkMore run Inr have ack: "acknowledged h tu bytes received moved st1 = (st', r)" by (simp add: answered_def)
        have "sending_ok h archive whole since st0 st' \<and> r \<noteq> Some (Inr sent)" for sent
          using acknowledged_keeps [OF st1, of bytes wanted] offs b fits ack by metis
        then show ?thesis using sending_okD(7) by blast
      next
        case (ChunkDone fl)
        have "tally_took wanted (sd_tally st) = tally_took (sd_offset st + wanted - since) (sd_tally st0)"
          unfolding st(6) by (rule took_more [OF st(1)])
        moreover have "sd_progress st + wanted = sd_progress st0 + (sd_offset st + wanted - since)"
          using st(1,5) by simp
        moreover have "r = Some (Inr (sent_of h fl ahead (sd_offset st + wanted)))"
          "st' = st1\<lparr>sd_progress := sd_progress st1 + wanted, sd_tally := tally_took wanted (sd_tally st1)\<rparr>"
          using run Inr ChunkDone conjunct1 [OF conjunct2 [OF b]] by (simp_all add: answered_def st1_def)
        moreover have "since \<le> sd_offset st + wanted" using st(1) by simp
        ultimately show ?thesis using o1 conjunct2 [OF conjunct2 [OF b]] fits
          by (simp add: sent_ok_def sent_of_def ahead st1_def)
      qed
    qed
  qed
qed


lemma turns_irrelevant [simp]:
  "sending_ok h archive whole since st0 (st\<lparr>sd_turns := n\<rparr>) = sending_ok h archive whole since st0 st"
  "sent_ok h archive whole since st0 (st\<lparr>sd_turns := n\<rparr>) sent = sent_ok h archive whole since st0 st sent"
  "still_to_do whole (st\<lparr>sd_turns := n\<rparr>) = still_to_do whole st"
  by (simp_all add: sending_ok_def sent_ok_def still_to_do_def)

lemma send_loop_keeps:
  assumes "sending_ok h archive whole since st0 st" "send_loop h archive whole turns st = (st', r)"
  shows "offers_ok h archive whole (sd_offered st') \<and>
    (r = None \<longrightarrow> sending_ok h archive whole since st0 st' \<and> sd_offset st' = whole) \<and>
    (\<forall>sent. r = Some (Inr sent) \<longrightarrow> sent_ok h archive whole since st0 st' sent) \<and>
    sd_turns st' \<le> sd_turns st + still_to_do whole st"
  using assms
proof (induction h archive whole turns st arbitrary: st' r rule: send_loop.induct)
  case (1 h archive whole turns st)
  show ?case
  proof (cases "sd_offset st < whole")
    case False
    with 1(3) have "st' = st" "r = None" by (simp_all add: send_loop.simps [of h archive whole turns st])
    with False sending_okD [OF 1(2)] 1(2) show ?thesis by simp
  next
    case more: True
    obtain st1 r1 where turn: "send_turn h archive whole (turns (sd_turns st)) st = (st1, r1)" by fastforce
    note kept = send_turn_keeps [OF 1(2) more turn]
    show ?thesis
    proof (cases r1)
      case None
      with 1(3) more turn have "send_loop h archive whole turns (st1\<lparr>sd_turns := Suc (sd_turns st1)\<rparr>) = (st', r)"
        by (simp add: send_loop.simps [of h archive whole turns st])
      from 1(1) [OF more turn [symmetric] None _ this] kept None send_turn_goes_on [OF turn [unfolded None] more]
      show ?thesis by simp
    next
      case (Some x)
      with 1(3) more turn have "st' = st1\<lparr>sd_turns := Suc (sd_turns st1)\<rparr>" "r = Some x"
        by (simp_all add: send_loop.simps [of h archive whole turns st])
      moreover have "sd_turns st1 = sd_turns st" "0 < still_to_do whole st"
        using send_turn_turns [of h archive whole "turns (sd_turns st)" st] turn more by (simp_all add: still_to_do_def)
      ultimately show ?thesis using kept Some by simp
    qed
  qed
qed

lemma conclude_Inr: "conclude h whole closing ours = Inr sent \<Longrightarrow> \<exists>fl. sent = sent_of h fl ours whole"
  by (auto simp: conclude_def split: option.splits sum.splits chunk.splits)

lemma send_keeps:
  assumes "send h archive whole turns opened closing since st0 = (st, Inr sent)"
    and "since \<le> length archive" "sd_ours st0 = take since archive" "ta_added (sd_tally st0) < 2 ^ 64"
    and "sd_offered st0 = []" "sd_progress st0 = 0"
  shows "sent_ok h archive whole since (st0\<lparr>sd_progress := since\<rparr>) st sent \<and> offers_ok h archive whole (sd_offered st)"
proof -
  define st1 where "st1 = st0\<lparr>sd_offset := since, sd_fruitless := 0, sd_renewals := 0, sd_progress := sd_progress st0 + since\<rparr>"
  let ?st0 = "st0\<lparr>sd_progress := since\<rparr>"
  have "\<not> whole < since" using assms(1) by (auto simp: send_def split: option.splits if_splits)
  then have ok: "sending_ok h archive whole since ?st0 st1"
    using assms by (simp add: sending_ok_def offers_ok_def st1_def took_nothing)
  obtain st2 r where loop: "send_loop h archive whole turns st1 = (st2, r)" by fastforce
  note kept = send_loop_keeps [OF ok loop]
  show ?thesis
  proof (cases r)
    case (Some x)
    with assms(1) loop have "x = Inr sent" "st = st2"
      by (auto simp: send_def st1_def Let_def split: option.splits if_splits)
    with kept Some show ?thesis by simp
  next
    case None
    with assms(1) loop have "conclude h whole closing (sd_ours st2) = Inr sent" "st = st2"
      by (auto simp: send_def st1_def Let_def split: option.splits if_splits)
    then obtain fl where fl: "sent = sent_of h fl (sd_ours st2) whole" "st = st2" using conclude_Inr by blast
    have "sending_ok h archive whole since ?st0 st2" "sd_offset st2 = whole" "offers_ok h archive whole (sd_offered st2)"
      using kept None by simp_all
    then show ?thesis unfolding fl sending_ok_def sent_ok_def sent_of_def by simp
  qed
qed

subsection \<open>The prefix hashed before\<close>

lemma walk_to_takes:
  "here \<le> goal \<Longrightarrow> here \<le> length archive \<Longrightarrow> walk_to archive here goal (take here archive) =
    (if goal \<le> length archive then Inr (take goal archive) else Inl cut_short)"
proof (induction "goal - here" arbitrary: here rule: less_induct)
  case less
  show ?case
  proof (cases "here < goal")
    case True
    define wanted where "wanted = min (goal - here) READ_AT_ONCE"
    have w: "0 < wanted" "here + wanted \<le> goal" using True by (simp_all add: wanted_def READ_AT_ONCE_def)
    show ?thesis
    proof (cases "here + wanted \<le> length archive")
      case fits: True
      then have "walk_to archive here goal (take here archive) = walk_to archive (here + wanted) goal (take (here + wanted) archive)"
        using True by (simp add: walk_to.simps [of archive here goal] wanted_def [symmetric] Let_def chunk_at_def take_add)
      with less.hyps [of "here + wanted"] w fits show ?thesis by simp
    next
      case False
      then show ?thesis
        using True w by (simp add: walk_to.simps [of archive here goal] wanted_def [symmetric] Let_def chunk_at_def)
    qed
  next
    case False
    with less.prems have "here = goal" by simp
    with less.prems show ?thesis by (simp add: walk_to.simps [of archive goal goal])
  qed
qed

lemma next_stop_bounds:
  "here < max keep until \<Longrightarrow> here < next_stop keep until here \<and> next_stop keep until here \<in> {keep, until}"
  by (auto simp: next_stop_def max_def min_def split: if_splits)

lemma next_stop_least: "here < keep \<Longrightarrow> next_stop keep until here \<le> keep" "here < until \<Longrightarrow> next_stop keep until here \<le> until"
  by (auto simp: next_stop_def)

lemma prefix_walk_takes:
  assumes "max keep until \<le> length archive" "here \<le> max keep until"
    and "keep \<le> here \<Longrightarrow> carried = take keep archive" "until \<le> here \<Longrightarrow> proven = ha_sha256 h (take until archive)"
  shows "prefix_walk h archive keep until here (take here archive) carried proven =
    Inr (take keep archive, ha_sha256 h (take until archive))"
  using assms
proof (induction "max keep until - here" arbitrary: here carried proven rule: less_induct)
  case less
  show ?case
  proof (cases "here < max keep until")
    case True
    define goal where "goal = next_stop keep until here"
    have g: "here < goal" "goal \<in> {keep, until}" using next_stop_bounds [OF True] by (simp_all add: goal_def)
    then have "goal \<le> max keep until" by auto
    then have "walk_to archive here goal (take here archive) = Inr (take goal archive)"
      using walk_to_takes [of here goal archive] g(1) less.prems(1) by (simp add: less_imp_le)
    then have "prefix_walk h archive keep until here (take here archive) carried proven =
        prefix_walk h archive keep until goal (take goal archive) (if goal = keep then take goal archive else carried)
          (if goal = until then ha_sha256 h (take goal archive) else proven)"
      using True by (simp add: prefix_walk.simps [of h archive keep until here] goal_def [symmetric])
    also have "\<dots> = Inr (take keep archive, ha_sha256 h (take until archive))"
    proof (rule less.hyps)
      show "max keep until - goal < max keep until - here" using g(1) True by simp
      show "(if goal = keep then take goal archive else carried) = take keep archive" if "keep \<le> goal"
        using that less.prems(3) next_stop_least(1) [of here keep until] unfolding goal_def [symmetric]
        by (cases "here < keep") auto
      show "(if goal = until then ha_sha256 h (take goal archive) else proven) = ha_sha256 h (take until archive)" if "until \<le> goal"
        using that less.prems(4) next_stop_least(2) [of here until keep] unfolding goal_def [symmetric]
        by (cases "here < until") auto
    qed (use less.prems(1) \<open>goal \<le> max keep until\<close> in auto)
    finally show ?thesis .
  next
    case False
    with less.prems have "here = max keep until" "carried = take keep archive" "proven = ha_sha256 h (take until archive)" by simp_all
    then show ?thesis by (simp add: prefix_walk.simps [of h archive keep until "max keep until"])
  qed
qed

lemma prefix_of_takes:
  "keep \<le> length archive \<Longrightarrow> until \<le> length archive \<Longrightarrow>
    prefix_of h archive None keep until = Inr (take keep archive, ha_sha256 h (take until archive))"
  using prefix_walk_takes [of keep until archive 0 "[]" "ha_sha256 h []" h] by (simp add: prefix_of_def)

end
