(* ===== verification/Backups.thy ===== *)
theory Backups
  imports Ops Retry
begin

text \<open>
  The backups of a server (\<open>backups/store.rs\<close>, \<open>backups/schedule.rs\<close>, \<open>backups/mod.rs\<close>): their rows,
  the runs that make and restore them - operations whose target is the backup -, the schedule of
  each server, and the handlers over them. What the disk, Google and the supervisor answer are
  arguments; files are not modelled. A run's message and its user are left out of the views.
\<close>

subsection \<open>Tables\<close>

record backup_row =
  bk_id :: id
  bk_server :: id
  bk_name :: ustr
  bk_automated :: bool
  bk_size :: nat
  bk_created_at :: moment
  bk_location :: backup_location
  bk_drive_file :: "ustr option"
  bk_drive_state :: "drive_file_state option"
  bk_drive_md5 :: "ustr option"
  bk_changed_at :: "moment option"

record backup_schedule =
  sc_enabled :: bool
  sc_interval :: nat
  sc_hour :: nat
  sc_keep :: nat
  sc_next :: "moment option"
  sc_last_run :: "moment option"
  sc_last_status :: "backup_schedule_status option"
  sc_last_error :: "ustr option"

text \<open>The ids in \<open>ops_backups\<close> are those of the rows: the operations refer to them.\<close>

record backups =
  ba_ops :: ops_db
  ba_rows :: "backup_row list"
  ba_schedules :: "(id \<times> backup_schedule) list"
  ba_setting :: nat

definition HISTORY :: nat where "HISTORY = 20"
definition MAX_QUOTA :: nat where "MAX_QUOTA = 50"
definition MAX_BACKUP_NAME :: nat where "MAX_BACKUP_NAME = 128"
definition SAFETY_NAME :: nat where "SAFETY_NAME = 92"
definition BACKUP_COOLDOWN :: moment where "BACKUP_COOLDOWN = 60"
definition MIN_INTERVAL :: nat where "MIN_INTERVAL = 1"
definition MAX_INTERVAL :: nat where "MAX_INTERVAL = 168"

definition backup_not_found :: failure where
  "backup_not_found = not_found ''backup_not_found''"

subsection \<open>Reading (\<open>backups/store.rs\<close>)\<close>

definition is_run :: "op_row \<Rightarrow> bool" where
  "is_run q = (op_kind q \<in> {OpBackupCreate, OpBackupRestore})"

definition newest_first :: "op_row list \<Rightarrow> op_row list" where
  "newest_first qs = order_by_desc (\<lambda>q. (op_created_at q, op_id q)) qs"

definition runs_of :: "backups \<Rightarrow> id \<Rightarrow> op_row list" where
  "runs_of b server = newest_first
     (filter (\<lambda>q. op_server q = server \<and> op_target q \<noteq> None \<and> is_run q) (operations (ba_ops b)))"

definition run_state :: "op_row \<Rightarrow> backup_operation_state" where
  "run_state q = run_state_of (op_state q) (map_option err_code (op_error q))"

record run_view =
  rv_type :: backup_operation_type
  rv_operation :: id
  rv_state :: backup_operation_state
  rv_scheduled_for :: moment
  rv_started_at :: "moment option"
  rv_completed_at :: "moment option"
  rv_has_parent :: bool
  rv_should_prompt :: bool

definition view_run :: "op_row \<Rightarrow> run_view" where
  "view_run q = \<lparr>rv_type = (case run_type_of (op_kind q) of None \<Rightarrow> RunCreate | Some t \<Rightarrow> t),
     rv_operation = op_id q, rv_state = run_state q, rv_scheduled_for = op_created_at q,
     rv_started_at = op_started_at q, rv_completed_at = op_finished_at q,
     rv_has_parent = (op_parent q \<noteq> None), rv_should_prompt = (op_dismissed_at q = None)\<rparr>"

definition backup_status :: "backup_row \<Rightarrow> op_row list \<Rightarrow> backup_status" where
  "backup_status row runs =
     (case runs of
        newest # _ \<Rightarrow> backup_status_of (run_state newest)
      | [] \<Rightarrow> if 0 < bk_size row then BDone else BError)"

record backup_view =
  bv_id :: id
  bv_name :: ustr
  bv_created_at :: moment
  bv_status :: backup_status
  bv_automated :: bool
  bv_location :: backup_location
  bv_drive_state :: "drive_file_state option"
  bv_drive_verified :: "bool option"
  bv_content_changed :: "bool option"
  bv_size :: nat
  bv_history :: "run_view list"

definition backup_of :: "backup_row \<Rightarrow> op_row list \<Rightarrow> backup_view" where
  "backup_of row runs =
     (let on_drive = (\<lambda>x. if bk_location row = Drive then Some x else None);
          st = backup_status row runs
      in \<lparr>bv_id = bk_id row, bv_name = bk_name row, bv_created_at = bk_created_at row, bv_status = st,
          bv_automated = bk_automated row, bv_location = bk_location row, bv_drive_state = bk_drive_state row,
          bv_drive_verified = on_drive (bk_drive_md5 row \<noteq> None),
          bv_content_changed = on_drive (bk_changed_at row \<noteq> None),
          bv_size = (if st = BDone then bk_size row else 0),
          bv_history = map view_run (take HISTORY runs)\<rparr>)"

definition runs_on :: "id \<Rightarrow> op_row list \<Rightarrow> op_row list" where
  "runs_on backup runs = filter (\<lambda>q. op_target q = Some backup) runs"

definition list_backups :: "backups \<Rightarrow> id \<Rightarrow> (id \<times> run_view) list \<times> backup_view list" where
  "list_backups b server =
     (let rows = order_by_desc (\<lambda>r. (bk_created_at r, bk_id r)) (filter (\<lambda>r. bk_server r = server) (ba_rows b));
          mine = (\<lambda>r. runs_on (bk_id r) (runs_of b server))
      in (concat (map (\<lambda>r. map (\<lambda>q. (bk_id r, view_run q)) (filter (\<lambda>q. is_open (op_state q)) (mine r))) rows),
          map (\<lambda>r. backup_of r (mine r)) rows))"

definition find_backup :: "backups \<Rightarrow> id \<Rightarrow> backup_row result" where
  "find_backup b backup =
     (case fetch_optional (\<lambda>r. bk_id r = backup) (ba_rows b) of None \<Rightarrow> Inl backup_not_found | Some r \<Rightarrow> Inr r)"

definition one_backup :: "backups \<Rightarrow> id \<Rightarrow> backup_view result" where
  "one_backup b backup = and_then (find_backup b backup) (\<lambda>r.
     Inr (backup_of r (runs_on backup (runs_of b (bk_server r)))))"

definition newest_run :: "backups \<Rightarrow> id \<Rightarrow> op_row option" where
  "newest_run b backup = (case newest_first (filter (\<lambda>q. op_target q = Some backup \<and> is_run q) (operations (ba_ops b))) of
     [] \<Rightarrow> None | q # _ \<Rightarrow> Some q)"

definition interrupted_creates :: "backups \<Rightarrow> (id \<times> id) list" where
  "interrupted_creates b = List.map_filter (\<lambda>q. map_option (\<lambda>t. (op_server q, t)) (op_target q))
     (filter (\<lambda>q. op_kind q = OpBackupCreate \<and> is_open (op_state q)) (operations (ba_ops b)))"

definition safety_copy_for :: "backups \<Rightarrow> id \<Rightarrow> id option" where
  "safety_copy_for b backup =
     (let restores = map op_id (filter (\<lambda>q. op_kind q = OpBackupRestore \<and> op_target q = Some backup) (operations (ba_ops b)))
      in case newest_first (filter (\<lambda>q. op_kind q = OpBackupCreate \<and> op_target q \<noteq> None \<and>
             is_some_and (\<lambda>p. p \<in> set restores) (op_parent q)) (operations (ba_ops b))) of
           [] \<Rightarrow> None | q # _ \<Rightarrow> op_target q)"

definition is_busy :: "backups \<Rightarrow> id \<Rightarrow> bool" where
  "is_busy b backup = (0 < count_where (\<lambda>q. op_target q = Some backup \<and> is_open (op_state q)) (operations (ba_ops b)))"

definition count_backups :: "backups \<Rightarrow> id \<Rightarrow> nat" where
  "count_backups b server = count_where (\<lambda>r. bk_server r = server) (ba_rows b)"

definition backup_quota :: "backups \<Rightarrow> nat" where
  "backup_quota b = min (ba_setting b) MAX_QUOTA"

text \<open>The newest finish, of the operations that have one: \<open>NULL\<close> sorts last in the descending order.\<close>

definition newest_automatic_finish :: "backups \<Rightarrow> id \<Rightarrow> moment option" where
  "newest_automatic_finish b server =
     (let automatic = map bk_id (filter bk_automated (ba_rows b));
          finishes = List.map_filter op_finished_at (filter (\<lambda>q. op_server q = server \<and> op_kind q = OpBackupCreate \<and>
             op_state q = Done \<and> is_some_and (\<lambda>t. t \<in> set automatic) (op_target q)) (operations (ba_ops b)))
      in case order_by_desc (\<lambda>t. t) finishes of [] \<Rightarrow> None | t # _ \<Rightarrow> Some t)"

definition automatic_over :: "backups \<Rightarrow> id \<Rightarrow> nat \<Rightarrow> id list" where
  "automatic_over b server keep = drop keep (map bk_id
     (order_by_desc (\<lambda>r. (bk_created_at r, bk_id r)) (filter (\<lambda>r. bk_server r = server \<and> bk_automated r) (ba_rows b))))"

definition newest_manual_request :: "backups \<Rightarrow> id \<Rightarrow> moment option" where
  "newest_manual_request b server =
     (let manual = map bk_id (filter (\<lambda>r. \<not> bk_automated r) (ba_rows b));
          asked = map op_created_at (filter (\<lambda>q. op_server q = server \<and> op_kind q = OpBackupCreate \<and>
             op_parent q = None \<and> is_some_and (\<lambda>t. t \<in> set manual) (op_target q)) (operations (ba_ops b)))
      in case order_by_desc (\<lambda>t. t) asked of [] \<Rightarrow> None | t # _ \<Rightarrow> Some t)"

subsection \<open>Writing\<close>

definition new_backup :: "id \<Rightarrow> id \<Rightarrow> ustr \<Rightarrow> bool \<Rightarrow> backup_location \<Rightarrow> moment \<Rightarrow> backup_row" where
  "new_backup i server name automated location now =
     \<lparr>bk_id = i, bk_server = server, bk_name = name, bk_automated = automated, bk_size = 0, bk_created_at = now,
      bk_location = location, bk_drive_file = None, bk_drive_state = None, bk_drive_md5 = None, bk_changed_at = None\<rparr>"

definition with_ops :: "(ops_db \<Rightarrow> ops_db) \<Rightarrow> backups \<Rightarrow> backups" where
  "with_ops f b = b\<lparr>ba_ops := f (ba_ops b)\<rparr>"

text \<open>The insert fails on an id that is taken and on a server that is not there.\<close>

definition insert_backup :: "backup_row \<Rightarrow> backups \<Rightarrow> backups result" where
  "insert_backup row b =
     (if bk_id row \<in> set (map bk_id (ba_rows b)) \<or> bk_server row \<notin> set (map srv_id (ops_servers (ba_ops b)))
      then Inl internal
      else Inr (with_ops (\<lambda>d. d\<lparr>ops_backups := ops_backups d @ [bk_id row]\<rparr>) (b\<lparr>ba_rows := ba_rows b @ [row]\<rparr>)))"

definition change_backup :: "id \<Rightarrow> (backup_row \<Rightarrow> backup_row) \<Rightarrow> backups \<Rightarrow> backups" where
  "change_backup backup f b = b\<lparr>ba_rows := update_where (\<lambda>r. bk_id r = backup) f (ba_rows b)\<rparr>"

definition finish_upload :: "id \<Rightarrow> ustr \<Rightarrow> nat \<Rightarrow> ustr option \<Rightarrow> backups \<Rightarrow> backups" where
  "finish_upload backup file bytes md5 = change_backup backup (\<lambda>r. r\<lparr>bk_size := bytes, bk_drive_file := Some file,
     bk_drive_md5 := md5, bk_drive_state := Some DrivePresent, bk_changed_at := None\<rparr>)"

definition rename_row :: "id \<Rightarrow> ustr \<Rightarrow> backups \<Rightarrow> backups" where
  "rename_row backup name = change_backup backup (\<lambda>r. r\<lparr>bk_name := name\<rparr>)"

definition set_size :: "id \<Rightarrow> nat \<Rightarrow> backups \<Rightarrow> backups" where
  "set_size backup bytes = change_backup backup (\<lambda>r. r\<lparr>bk_size := bytes\<rparr>)"

text \<open>Deleting a row takes its upload along (\<open>ON DELETE CASCADE\<close>) and leaves its operations without a
  target (\<open>ON DELETE SET NULL\<close>).\<close>

definition remove_backup :: "id \<Rightarrow> backups \<Rightarrow> backups" where
  "remove_backup backup b = with_ops (\<lambda>d. d\<lparr>ops_backups := filter (\<lambda>i. i \<noteq> backup) (ops_backups d),
       ops_uploads := filter (\<lambda>i. i \<noteq> backup) (ops_uploads d),
       operations := update_where (\<lambda>q. op_target q = Some backup) (\<lambda>q. q\<lparr>op_target := None\<rparr>) (operations d)\<rparr>)
     (b\<lparr>ba_rows := delete_where (\<lambda>r. bk_id r = backup) (ba_rows b)\<rparr>)"

definition schedule_of :: "backups \<Rightarrow> id \<Rightarrow> backup_schedule" where
  "schedule_of b server =
     (case fetch_optional (\<lambda>s. fst s = server) (ba_schedules b) of
        Some (_, s) \<Rightarrow> s
      | None \<Rightarrow> \<lparr>sc_enabled = False, sc_interval = 24, sc_hour = 4, sc_keep = 5, sc_next = None,
                 sc_last_run = None, sc_last_status = None, sc_last_error = None\<rparr>)"

definition change_schedule :: "id \<Rightarrow> (backup_schedule \<Rightarrow> backup_schedule) \<Rightarrow> backups \<Rightarrow> backups" where
  "change_schedule server f b = b\<lparr>ba_schedules := update_where (\<lambda>s. fst s = server) (\<lambda>s. (fst s, f (snd s))) (ba_schedules b)\<rparr>"

definition save_schedule :: "id \<Rightarrow> backup_schedule \<Rightarrow> backups \<Rightarrow> backups \<times> backup_schedule" where
  "save_schedule server w b =
     (let b = (if server \<in> fst ` set (ba_schedules b)
               then change_schedule server (\<lambda>s. s\<lparr>sc_enabled := sc_enabled w, sc_interval := sc_interval w,
                      sc_hour := sc_hour w, sc_keep := sc_keep w, sc_next := sc_next w\<rparr>) b
               else b\<lparr>ba_schedules := ba_schedules b @ [(server, \<lparr>sc_enabled = sc_enabled w, sc_interval = sc_interval w,
                      sc_hour = sc_hour w, sc_keep = sc_keep w, sc_next = sc_next w, sc_last_run = None,
                      sc_last_status = None, sc_last_error = None\<rparr>)]\<rparr>)
      in (b, schedule_of b server))"

definition reserve :: "id \<Rightarrow> moment \<Rightarrow> backups \<Rightarrow> backups" where
  "reserve server next = change_schedule server (\<lambda>s. s\<lparr>sc_next := Some next\<rparr>)"

definition record_run :: "id \<Rightarrow> moment \<Rightarrow> backup_schedule_status \<Rightarrow> ustr option \<Rightarrow> moment option \<Rightarrow> backups \<Rightarrow> backups" where
  "record_run server now st err next = change_schedule server (\<lambda>s. s\<lparr>sc_last_run := Some now, sc_last_status := Some st,
     sc_last_error := err, sc_next := next\<rparr>)"

definition due :: "backups \<Rightarrow> moment \<Rightarrow> id list" where
  "due b now = map fst (order_by (\<lambda>s. the (sc_next (snd s)))
     (filter (\<lambda>s. sc_enabled (snd s) \<and> is_some_and (\<lambda>t. t \<le> now) (sc_next (snd s))) (ba_schedules b)))"

subsection \<open>The schedule (\<open>backups/schedule.rs\<close>)\<close>

record schedule_request =
  rq_enabled :: bool
  rq_interval :: nat
  rq_hour :: nat
  rq_keep :: nat

definition check_schedule :: "nat \<Rightarrow> schedule_request \<Rightarrow> unit result" where
  "check_schedule max_backups r =
     (if \<not> (MIN_INTERVAL \<le> rq_interval r \<and> rq_interval r \<le> MAX_INTERVAL) then Inl (bad_request ''invalid_schedule'')
      else if 23 < rq_hour r then Inl (bad_request ''invalid_schedule'')
      else if rq_keep r < 1 \<or> MAX_QUOTA < rq_keep r then Inl (bad_request ''invalid_schedule'')
      else if max_backups < rq_keep r then Inl (bad_request ''invalid_schedule'')
      else Inr ())"

definition into_schedule :: "schedule_request \<Rightarrow> moment option \<Rightarrow> backup_schedule" where
  "into_schedule r next = \<lparr>sc_enabled = rq_enabled r, sc_interval = rq_interval r, sc_hour = rq_hour r,
     sc_keep = rq_keep r, sc_next = next, sc_last_run = None, sc_last_status = None, sc_last_error = None\<rparr>"

definition DAY :: int where "DAY = 24 * 60 * 60"

text \<open>The loop \<open>while candidate <= from\<close>.\<close>

function first_later :: "moment \<Rightarrow> nat \<Rightarrow> moment \<Rightarrow> moment" where
  "first_later moment0 days candidate =
     (if candidate \<le> moment0 then first_later moment0 days (candidate + int (max days 1) * DAY) else candidate)"
  by auto
termination
proof (relation "measure (\<lambda>(f, d, c). nat (f - c + 1))")
  fix f c :: moment and d :: nat
  assume "c \<le> f"
  moreover have "1 \<le> int (max d 1) * DAY" by (simp add: DAY_def)
  ultimately show "((f, d, c + int (max d 1) * DAY), (f, d, c)) \<in> measure (\<lambda>(f, d, c). nat (f - c + 1))"
    by simp
qed simp

declare first_later.simps [simp del]

definition next_after :: "moment \<Rightarrow> nat \<Rightarrow> nat \<Rightarrow> moment" where
  "next_after moment0 interval hour =
     (if interval mod 24 = 0
      then first_later moment0 (interval div 24) (moment0 - moment0 mod DAY + int (min hour 23) * 60 * 60)
      else moment0 + int interval * 60 * 60)"

subsection \<open>Guards and names (\<open>backups/mod.rs\<close>)\<close>

definition relay :: "failure \<Rightarrow> failure" where
  "relay f = failure_new (status f) (code f)"

definition relayed :: "'a result \<Rightarrow> 'a result" where
  "relayed r = (case r of Inl f \<Rightarrow> Inl (relay f) | Inr a \<Rightarrow> Inr a)"

definition check_backup_name :: "ustr \<Rightarrow> ustr result" where
  "check_backup_name name =
     (let name = trim name
      in if length name = 0 \<or> MAX_BACKUP_NAME < length name then Inl (bad_request ''invalid_name'')
         else if list_ex is_control name then Inl (bad_request ''invalid_name'')
         else Inr name)"

definition safety_name_for :: "ustr \<Rightarrow> ustr" where
  "safety_name_for original = take SAFETY_NAME (lit ''Before restoring '' @ [34] @ original @ [34])"

definition mine :: "backups \<Rightarrow> id \<Rightarrow> id \<Rightarrow> backup_row result" where
  "mine b server backup = and_then (find_backup b backup) (\<lambda>r.
     if bk_server r \<noteq> server then Inl backup_not_found else Inr r)"

definition check_quota :: "backups \<Rightarrow> id \<Rightarrow> nat \<Rightarrow> unit result" where
  "check_quota b server wanted =
     (if backup_quota b < count_backups b server + wanted then Inl (conflict ''backup_limit_reached'') else Inr ())"

definition guard_backup :: "backups \<Rightarrow> id \<Rightarrow> unit result" where
  "guard_backup b backup = (if is_busy b backup then Inl (conflict ''server_busy'') else Inr ())"

definition cooldown :: "moment \<Rightarrow> backups \<Rightarrow> id \<Rightarrow> nat option" where
  "cooldown now b server =
     (case newest_manual_request b server of
        None \<Rightarrow> None
      | Some asked \<Rightarrow>
          (let waited = max 0 (now - asked)
           in if BACKUP_COOLDOWN \<le> waited then None else Some (nat (BACKUP_COOLDOWN - waited) + 1)))"

definition download :: "backups \<Rightarrow> id \<Rightarrow> id \<Rightarrow> backup_row result" where
  "download b server backup = and_then (mine b server backup) (\<lambda>row.
     and_then (one_backup b backup) (\<lambda>v.
       if bv_status v \<noteq> BDone then Inl (conflict ''backup_not_downloadable'')
       else if bk_location row = Drive then Inl (conflict ''backup_lives_in_drive'')
       else Inr row))"

subsection \<open>Handlers (\<open>backups/mod.rs\<close>)\<close>

text \<open>
  What a handler asks outside the tables: the clock, where Drive's settings send a backup
  (\<open>effective_target\<close>) and whether they allow one (\<open>guard_backup\<close>), whether there is room
  (\<open>check_space\<close>), whether the server runs (\<open>quiesce::running_link\<close>), and whether an upload can be
  carried on (\<open>resumable\<close>).
\<close>

record around =
  ar_now :: moment
  ar_target :: "backup_location option"
  ar_drive :: "unit result"
  ar_space :: "unit result"
  ar_running :: bool
  ar_resumable :: bool

definition backup_operation :: "id \<Rightarrow> operation_kind \<Rightarrow> id option \<Rightarrow> id \<Rightarrow> id option \<Rightarrow> new_operation" where
  "backup_operation server kind starter target parent =
     \<lparr>new_server = server, new_kind = kind, new_started_by = starter, new_src = None, new_target = Some target,
      new_parent = parent, new_input = None, expects_payload = False, new_message = None\<rparr>"

definition write_schedule :: "moment \<Rightarrow> id \<Rightarrow> schedule_request \<Rightarrow> backups \<Rightarrow> backups \<times> backup_schedule result" where
  "write_schedule now server wanted b =
     (case check_schedule (backup_quota b) wanted of
        Inl f \<Rightarrow> (b, Inl f)
      | Inr _ \<Rightarrow>
          (let next = (if rq_enabled wanted then Some (next_after now (rq_interval wanted) (rq_hour wanted)) else None);
               (b, s) = save_schedule server (into_schedule wanted next) b
           in (b, Inr s)))"

text \<open>\<open>create_for\<close>: the row first, then its operation; a refused operation takes the row along.\<close>

definition create_for :: "around \<Rightarrow> id \<Rightarrow> id \<Rightarrow> id \<Rightarrow> ustr \<Rightarrow> id option \<Rightarrow> bool \<Rightarrow> id option \<Rightarrow> backups \<Rightarrow>
    backups \<times> (id \<times> id) result" where
  "create_for w bi oi server name starter automated parent b =
     (let location = (case ar_target w of None \<Rightarrow> Local | Some l \<Rightarrow> l)
      in case insert_backup (new_backup bi server name automated location (ar_now w)) b of
           Inl f \<Rightarrow> (b, Inl f)
         | Inr b \<Rightarrow>
             (let (d, r) = op_insert oi (ar_now w) (backup_operation server OpBackupCreate starter bi parent) (ba_ops b);
                  b = b\<lparr>ba_ops := d\<rparr>
              in case r of
                   Inr q \<Rightarrow> (b, Inr (bi, op_id q))
                 | Inl f \<Rightarrow> (remove_backup bi b, Inl (relay f))))"

definition request_backup :: "around \<Rightarrow> id \<Rightarrow> id \<Rightarrow> id \<Rightarrow> ustr \<Rightarrow> id \<Rightarrow> backups \<Rightarrow> backups \<times> backup_view result" where
  "request_backup w bi oi server name starter b =
     (case and_then (check_backup_name name) (\<lambda>name. and_then (relayed (guard_write (ba_ops b) server)) (\<lambda>_.
           and_then (ar_drive w) (\<lambda>_. and_then (check_quota b server 1) (\<lambda>_. and_then (ar_space w) (\<lambda>_. Inr name))))) of
        Inl f \<Rightarrow> (b, Inl f)
      | Inr name \<Rightarrow>
          (let (b, r) = create_for w bi oi server name (Some starter) False None b
           in (b, and_then r (\<lambda>(made, _). one_backup b made))))"

definition rename_backup :: "id \<Rightarrow> id \<Rightarrow> ustr \<Rightarrow> backups \<Rightarrow> backups \<times> backup_view result" where
  "rename_backup server backup name b =
     (case and_then (mine b server backup) (\<lambda>_. and_then (check_backup_name name) (\<lambda>name.
           and_then (guard_backup b backup) (\<lambda>_. Inr name))) of
        Inl f \<Rightarrow> (b, Inl f)
      | Inr name \<Rightarrow> (let b = rename_row backup name b in (b, one_backup b backup)))"

text \<open>\<open>forget\<close>: the row, and the name of the file to take out of the Drive, if it lay there.\<close>

definition forget :: "id \<Rightarrow> backups \<Rightarrow> backups \<times> ustr option" where
  "forget backup b = (remove_backup backup b,
     case find_backup b backup of
       Inl _ \<Rightarrow> None
     | Inr row \<Rightarrow> if bk_location row = Drive then bk_drive_file row else None)"

definition delete_one_backup :: "id \<Rightarrow> id \<Rightarrow> backups \<Rightarrow> backups \<times> unit result" where
  "delete_one_backup server backup b =
     (case and_then (mine b server backup) (\<lambda>_. guard_backup b backup) of
        Inl f \<Rightarrow> (b, Inl f)
      | Inr _ \<Rightarrow> (fst (forget backup b), Inr ()))"

fun delete_many :: "id \<Rightarrow> id list \<Rightarrow> backups \<Rightarrow> backups \<times> id list \<times> (id \<times> string) list" where
  "delete_many server [] b = (b, [], [])"
| "delete_many server (i # ids) b =
     (let (b, r) = delete_one_backup server i b;
          (b, deleted, failed) = delete_many server ids b
      in case r of
           Inr _ \<Rightarrow> (b, i # deleted, failed)
         | Inl f \<Rightarrow> (b, deleted, (i, code f) # failed))"

definition dismiss_run :: "moment \<Rightarrow> id \<Rightarrow> backups \<Rightarrow> backups" where
  "dismiss_run now operation = with_ops (\<lambda>d. fst (op_dismiss now operation d))"

subsection \<open>Restoring\<close>

definition forget_session :: "id \<Rightarrow> backups \<Rightarrow> backups" where
  "forget_session backup = with_ops (\<lambda>d. d\<lparr>ops_uploads := filter (\<lambda>i. i \<noteq> backup) (ops_uploads d)\<rparr>)"

definition restorable :: "backup_row \<Rightarrow> bool" where
  "restorable row = (bk_drive_state row \<notin> {Some DriveMissing, Some DriveTrashed} \<and> bk_changed_at row = None)"

definition restore_checks :: "around \<Rightarrow> id \<Rightarrow> id \<Rightarrow> ustr \<Rightarrow> backups \<Rightarrow> ustr result" where
  "restore_checks w server backup name b =
     and_then (mine b server backup) (\<lambda>row. and_then (check_backup_name name) (\<lambda>name.
       if ar_running w then Inl (conflict ''server_running'')
       else and_then (one_backup b backup) (\<lambda>v.
         if bv_status v \<noteq> BDone then Inl (conflict ''backup_not_restorable'')
         else if \<not> restorable row then Inl (conflict ''backup_not_restorable'')
         else and_then (relayed (guard_write (ba_ops b) server)) (\<lambda>_. and_then (check_quota b server 1) (\<lambda>_.
           and_then (ar_space w) (\<lambda>_. Inr name))))))"

text \<open>
  The end of \<open>restore\<close> and of a repeated restore: the operation on the backup, then, where one is
  to be made, the safety copy as its child; a refused copy calls the restore off.
\<close>

definition start_restore :: "around \<Rightarrow> id \<Rightarrow> id \<Rightarrow> id \<Rightarrow> id \<Rightarrow> id \<Rightarrow> ustr option \<Rightarrow> id \<Rightarrow> backups \<Rightarrow>
    backups \<times> (id \<times> (id \<times> id) option) result" where
  "start_restore w ri bi oi server backup safety starter b =
     (let (d, r) = op_insert ri (ar_now w) (backup_operation server OpBackupRestore (Some starter) backup None) (ba_ops b);
          b = b\<lparr>ba_ops := d\<rparr>
      in case r of
           Inl f \<Rightarrow> (b, Inl (relay f))
         | Inr q \<Rightarrow>
             (case safety of
                None \<Rightarrow> (b, Inr (op_id q, None))
              | Some name \<Rightarrow>
                  (let (b, s) = create_for w bi oi server name (Some starter) False (Some (op_id q)) b
                   in case s of
                        Inl f \<Rightarrow> (with_ops (\<lambda>d. fst (op_cancelled (ar_now w) (op_id q) d)) b, Inl f)
                      | Inr (copy, run) \<Rightarrow> (dismiss_run (ar_now w) run b, Inr (op_id q, Some (copy, run))))))"

definition restore_backup :: "around \<Rightarrow> id \<Rightarrow> id \<Rightarrow> id \<Rightarrow> id \<Rightarrow> id \<Rightarrow> ustr \<Rightarrow> id \<Rightarrow> backups \<Rightarrow>
    backups \<times> (id \<times> (id \<times> id) option) result" where
  "restore_backup w ri bi oi server backup safety_name starter b =
     (case restore_checks w server backup safety_name b of
        Inl f \<Rightarrow> (b, Inl f)
      | Inr name \<Rightarrow> start_restore w ri bi oi server backup (Some name) starter b)"

definition safety_usable :: "backups \<Rightarrow> id \<Rightarrow> bool result" where
  "safety_usable b backup =
     (case safety_copy_for b backup of
        None \<Rightarrow> Inr False
      | Some copy \<Rightarrow> and_then (one_backup b copy) (\<lambda>v. Inr (bv_status v = BDone)))"

definition retry_checks :: "id \<Rightarrow> id \<Rightarrow> backups \<Rightarrow> (backup_row \<times> backup_operation_type) result" where
  "retry_checks server backup b =
     and_then (mine b server backup) (\<lambda>row.
       case newest_run b backup of
         None \<Rightarrow> Inl (conflict ''nothing_to_retry'')
       | Some last_run \<Rightarrow>
           if run_state last_run \<notin> {RunFailed, RunTimedOut} then Inl (conflict ''nothing_to_retry'')
           else and_then (relayed (guard_write (ba_ops b) server)) (\<lambda>_. Inr (row, rv_type (view_run last_run))))"

definition retry_create :: "around \<Rightarrow> id \<Rightarrow> id \<Rightarrow> id \<Rightarrow> id \<Rightarrow> backups \<Rightarrow> backups \<times> (id \<times> backup_operation_type) result" where
  "retry_create w ri server backup starter b =
     (case (if ar_resumable w then Inr () else ar_space w) of
        Inl f \<Rightarrow> (b, Inl f)
      | Inr _ \<Rightarrow>
          (let b = (if ar_resumable w then b else forget_session backup b);
               (d, r) = op_insert ri (ar_now w) (backup_operation server OpBackupCreate (Some starter) backup None) (ba_ops b)
           in (b\<lparr>ba_ops := d\<rparr>, and_then (relayed r) (\<lambda>q. Inr (op_id q, RunCreate)))))"

definition retry_restore :: "around \<Rightarrow> id \<Rightarrow> id \<Rightarrow> id \<Rightarrow> id \<Rightarrow> backup_row \<Rightarrow> id \<Rightarrow> backups \<Rightarrow>
    backups \<times> (id \<times> backup_operation_type) result" where
  "retry_restore w ri bi oi server row starter b =
     (if ar_running w then (b, Inl (conflict ''server_running''))
      else case and_then (safety_usable b (bk_id row)) (\<lambda>usable.
             if usable then Inr None
             else and_then (check_quota b server 1) (\<lambda>_. and_then (ar_space w) (\<lambda>_.
               Inr (Some (safety_name_for (bk_name row)))))) of
             Inl f \<Rightarrow> (b, Inl f)
           | Inr safety \<Rightarrow>
               (let (b, r) = start_restore w ri bi oi server (bk_id row) safety starter b
                in (b, and_then r (\<lambda>(run, _). Inr (run, RunRestore)))))"

definition retry_backup :: "around \<Rightarrow> id \<Rightarrow> id \<Rightarrow> id \<Rightarrow> id \<Rightarrow> id \<Rightarrow> id \<Rightarrow> backups \<Rightarrow>
    backups \<times> (id \<times> backup_operation_type) result" where
  "retry_backup w ri bi oi server backup starter b =
     (case retry_checks server backup b of
        Inl f \<Rightarrow> (b, Inl f)
      | Inr (row, RunCreate) \<Rightarrow> retry_create w ri server backup starter b
      | Inr (row, RunRestore) \<Rightarrow> retry_restore w ri bi oi server row starter b)"

subsection \<open>Runs\<close>

datatype queue_turn = Taken | TurnCalledOff | Gone

text \<open>One round of \<open>wait_for_a_turn\<close>; no answer means another round after 200 ms.\<close>

definition try_turn :: "moment \<Rightarrow> id \<Rightarrow> backups \<Rightarrow> backups \<times> queue_turn option" where
  "try_turn now run b =
     (let (d, r) = op_begin now run (ba_ops b);
          b = b\<lparr>ba_ops := d\<rparr>
      in case r of
           Inr (Some _) \<Rightarrow> (b, Some Taken)
         | Inl _ \<Rightarrow> (b, Some Gone)
         | Inr None \<Rightarrow>
             (b, case op_fetch d run of
                   Inl _ \<Rightarrow> Some Gone
                 | Inr q \<Rightarrow> if op_state q = Queued then None
                            else if op_state q = Cancelled then Some TurnCalledOff else Some Gone))"

text \<open>What ends the work on an archive.\<close>

datatype ended = CalledOff | Broken op_error

definition ended_gone :: ended where
  "ended_gone = Broken \<lparr>err_code = ''internal'', err_step = StepInternal\<rparr>"

definition ended_drive :: "drive_error \<Rightarrow> ended" where
  "ended_drive e = Broken \<lparr>err_code = operation_code e,
     err_step = (if operation_code e \<in> {''drive_unavailable'', ''drive_checksum_mismatch'', ''drive_unconfirmed'',
                   ''drive_file_replaced'', ''drive_abuse_blocked''} then StepDownload else StepFilesystem)\<rparr>"

text \<open>\<open>Ended::io\<close> and \<open>Ended::unpacking\<close>, by what the error is.\<close>

definition ended_io :: "bool \<Rightarrow> ended" where
  "ended_io out_of_room = Broken \<lparr>err_code = (if out_of_room then ''no_space'' else ''internal''), err_step = StepFilesystem\<rparr>"

definition ended_unpacking :: "bool \<Rightarrow> bool \<Rightarrow> ended" where
  "ended_unpacking escapes out_of_room =
     (if escapes then Broken \<lparr>err_code = ''invalid_path'', err_step = StepFilesystem\<rparr>
      else if out_of_room then ended_io True
      else Broken \<lparr>err_code = ''archive_corrupted'', err_step = StepFilesystem\<rparr>)"

definition worth_carrying_on :: "drive_error \<Rightarrow> bool" where
  "worth_carrying_on e = (case e of GoneD \<Rightarrow> False | Abusive _ \<Rightarrow> False | Unreadable _ \<Rightarrow> False | Replaced _ \<Rightarrow> False | _ \<Rightarrow> True)"

definition deliver :: "id \<Rightarrow> nat \<Rightarrow> (drive_error + ustr \<times> ustr option) \<Rightarrow> backups \<Rightarrow> backups \<times> (ended + unit)" where
  "deliver backup bytes uploaded b =
     (case find_backup b backup of
        Inl _ \<Rightarrow> (b, Inl ended_gone)
      | Inr row \<Rightarrow>
          if bk_location row = Local then (set_size backup bytes b, Inr ())
          else (case uploaded of
                  Inl e \<Rightarrow> (b, Inl (if e = CancelledD then CalledOff else ended_drive e))
                | Inr (file, md5) \<Rightarrow> (finish_upload backup file bytes md5 b, Inr ())))"

text \<open>\<open>run_create\<close>: what it does while it waits, and how it ends once it has its turn.\<close>

definition create_waits :: "moment \<Rightarrow> id \<Rightarrow> backups \<Rightarrow> backups \<times> queue_turn option" where
  "create_waits now run b =
     (case op_fetch (ba_ops b) run of
        Inl _ \<Rightarrow> (b, Some Gone)
      | Inr q \<Rightarrow>
          (case op_target q of
             None \<Rightarrow> (with_ops (\<lambda>d. fst (op_fail now \<lparr>err_code = ''internal'', err_step = StepFilesystem\<rparr> run d)) b, Some Gone)
           | Some backup \<Rightarrow>
               (let (b, t) = try_turn now run b
                in if t = Some TurnCalledOff then (fst (forget backup b), t) else (b, t))))"

definition create_ends :: "moment \<Rightarrow> id \<Rightarrow> id \<Rightarrow> ended + unit \<Rightarrow> backups \<Rightarrow> backups" where
  "create_ends now run backup outcome b =
     (case outcome of
        Inr _ \<Rightarrow> with_ops (\<lambda>d. fst (op_finish now run d)) b
      | Inl CalledOff \<Rightarrow>
          with_ops (\<lambda>d. fst (op_cancelled now run d)) (fst (forget backup (forget_session backup b)))
      | Inl (Broken e) \<Rightarrow> with_ops (\<lambda>d. fst (op_fail now e run d)) (forget_session backup b))"

definition safety_run_of :: "backups \<Rightarrow> id \<Rightarrow> op_row option" where
  "safety_run_of b restore =
     (case order_by_desc op_created_at (filter (\<lambda>q. op_parent q = Some restore \<and> op_kind q = OpBackupCreate) (operations (ba_ops b))) of
        [] \<Rightarrow> None | q # _ \<Rightarrow> Some q)"

text \<open>
  \<open>run_restore\<close> after its safety copy has run: a copy that is not done fails the restore, and it
  goes on to wait for its turn otherwise.
\<close>

definition restore_waits :: "moment \<Rightarrow> id \<Rightarrow> backups \<Rightarrow> backups \<times> queue_turn option" where
  "restore_waits now run b =
     (if (case safety_run_of b run of None \<Rightarrow> False | Some q \<Rightarrow> op_state q \<noteq> Done)
      then (with_ops (\<lambda>d. fst (op_fail now \<lparr>err_code = ''safety_backup_failed'', err_step = StepFilesystem\<rparr> run d)) b, Some Gone)
      else try_turn now run b)"

definition restore_ends :: "moment \<Rightarrow> id \<Rightarrow> ended + unit \<Rightarrow> backups \<Rightarrow> backups" where
  "restore_ends now run outcome b =
     (case outcome of
        Inr _ \<Rightarrow> with_ops (\<lambda>d. fst (op_finish now run d)) b
      | Inl CalledOff \<Rightarrow> with_ops (\<lambda>d. fst (op_cancelled now run d)) b
      | Inl (Broken e) \<Rightarrow> with_ops (\<lambda>d. fst (op_fail now e run d)) b)"

subsection \<open>The scheduler\<close>

definition changed_since_last_automatic :: "backups \<Rightarrow> id \<Rightarrow> moment option \<Rightarrow> bool" where
  "changed_since_last_automatic b server newest =
     (case newest_automatic_finish b server of
        None \<Rightarrow> True
      | Some finished \<Rightarrow> (case newest of None \<Rightarrow> False | Some t \<Rightarrow> finished < t))"

datatype scheduled =
    ScheduleSkipped backup_schedule_status
  | ScheduleQueued (queued_backup: id) (queued_run: id) (queued_next: moment) (queued_keep: nat)
  | ScheduleRefused failure

text \<open>
  \<open>run_scheduled\<close> until it has queued its run: \<open>survey\<close> is the newest change among the files it
  would pack and \<open>stamp\<close> the moment as text.
\<close>

definition scheduled_start :: "around \<Rightarrow> id \<Rightarrow> id \<Rightarrow> ustr \<Rightarrow> moment option result \<Rightarrow> id \<Rightarrow> backups \<Rightarrow> backups \<times> scheduled" where
  "scheduled_start w bi oi stamp survey server b =
     (let now = ar_now w;
          s = schedule_of b server;
          next = next_after now (sc_interval s) (sc_hour s);
          b = reserve server next b
      in if backup_quota b \<le> count_backups b server
         then (record_run server now SkippedLimit None (Some next) b, ScheduleSkipped SkippedLimit)
         else case (if newest_automatic_finish b server = None then Inr None else survey) of
           Inl f \<Rightarrow> (b, ScheduleRefused f)
         | Inr newest \<Rightarrow>
             if \<not> changed_since_last_automatic b server newest
             then (record_run server now SkippedUnchanged None (Some next) b, ScheduleSkipped SkippedUnchanged)
             else (let (b, r) = create_for w bi oi server (lit ''Automatic backup '' @ stamp) None True None b
                   in case r of
                        Inl f \<Rightarrow> (b, ScheduleRefused f)
                      | Inr (backup, run) \<Rightarrow> (b, ScheduleQueued backup run next (sc_keep s))))"

fun prune_all :: "id list \<Rightarrow> backups \<Rightarrow> backups \<times> nat" where
  "prune_all [] b = (b, 0)"
| "prune_all (i # doomed) b =
     (if is_busy b i then prune_all doomed b
      else (let (b, gone) = prune_all doomed (fst (forget i b)) in (b, gone + 1)))"

definition prune :: "id \<Rightarrow> nat \<Rightarrow> backups \<Rightarrow> backups \<times> nat" where
  "prune server keep b = prune_all (automatic_over b server keep) b"

definition outcome_of :: "op_row option \<Rightarrow> backup_schedule_status" where
  "outcome_of q = (case map_option run_state q of
     Some RunCompleted \<Rightarrow> ScheduleCompleted | Some RunTimedOut \<Rightarrow> ScheduleTimedOut | _ \<Rightarrow> ScheduleFailed)"

definition outcome_text :: "backup_schedule_status \<Rightarrow> ustr option" where
  "outcome_text st = (if st = ScheduleCompleted then None
     else if st = ScheduleTimedOut then Some (lit ''the run timed out'') else Some (lit ''the run did not finish''))"

text \<open>\<open>run_scheduled\<close> once the run is over; \<open>now\<close> is still the moment of the tick.\<close>

definition scheduled_end :: "moment \<Rightarrow> moment \<Rightarrow> id \<Rightarrow> id \<Rightarrow> id \<Rightarrow> moment \<Rightarrow> nat \<Rightarrow> backups \<Rightarrow> backups \<times> backup_schedule_status" where
  "scheduled_end now wiped server backup run next keep b =
     (let st = outcome_of (newest_run b backup);
          b = (if st = ScheduleCompleted then dismiss_run wiped run b else b);
          b = record_run server now st (outcome_text st) (Some next) b
      in (if st = ScheduleCompleted then fst (prune server keep b) else b, st))"

subsection \<open>After a restart\<close>

text \<open>
  \<open>Operations::recover\<close> on these tables: the rows of the backups go with their ids. \<open>Backups::recover\<close>
  runs before it and takes away the archives of \<open>interrupted_creates\<close> whose upload cannot be carried on.
\<close>

definition backups_recover :: "moment \<Rightarrow> backups \<Rightarrow> backups" where
  "backups_recover now b =
     (let d = ops_recover now (ba_ops b)
      in b\<lparr>ba_ops := d, ba_rows := filter (\<lambda>r. bk_id r \<in> set (ops_backups d)) (ba_rows b)\<rparr>)"

subsection \<open>The next run\<close>

lemma first_later_ends:
  assumes "f - DAY < c" "c \<le> f + DAY"
  shows "f < first_later f d c \<and> first_later f d c \<le> f + int (max d 1) * DAY \<and>
    first_later f d c mod DAY = c mod DAY"
proof (cases "c \<le> f")
  case True
  let ?c = "c + int (max d 1) * DAY"
  have "DAY \<le> int (max d 1) * DAY" by (simp add: DAY_def)
  with assms True have "f < ?c" "?c \<le> f + int (max d 1) * DAY" by linarith+
  moreover have "first_later f d c = ?c"
    using True \<open>f < ?c\<close> by (subst first_later.simps, subst first_later.simps) (use True in simp)
  ultimately show ?thesis by simp
next
  case False
  then have "first_later f d c = c" by (simp add: first_later.simps [of f d c])
  moreover have "DAY \<le> int (max d 1) * DAY" by (simp add: DAY_def)
  then have "c \<le> f + int (max d 1) * DAY" using assms by linarith
  ultimately show ?thesis using False by simp
qed

lemma next_after_bounds:
  assumes "1 \<le> i"
  shows "t < next_after t i h \<and> next_after t i h \<le> t + int i * 60 * 60 \<and>
    (i mod 24 = 0 \<longrightarrow> next_after t i h mod DAY = int (min h 23) * 60 * 60)"
proof (cases "i mod 24 = 0")
  case True
  with assms have i: "int (max (i div 24) 1) * DAY = int i * 60 * 60"
    by (auto simp: DAY_def max_def)
  have h: "0 \<le> int (min h 23) * 60 * 60" "int (min h 23) * 60 * 60 < DAY" by (simp_all add: DAY_def)
  have m: "0 \<le> t mod DAY" "t mod DAY < DAY" by (simp_all add: DAY_def)
  let ?c = "t - t mod DAY + int (min h 23) * 60 * 60"
  have "?c mod DAY = int (min h 23) * 60 * 60"
  proof -
    have "t - t mod DAY = DAY * (t div DAY)" by (simp add: minus_mod_eq_mult_div)
    then show ?thesis using h by (simp add: mod_pos_pos_trivial)
  qed
  moreover have "t - DAY < ?c" "?c \<le> t + DAY" using h m by linarith+
  ultimately show ?thesis
    using first_later_ends [of t ?c "i div 24"] True i by (simp add: next_after_def)
next
  case False
  with assms show ?thesis by (simp add: next_after_def)
qed


subsection \<open>What every handler keeps\<close>

definition same_target :: "ops_db \<Rightarrow> op_row \<Rightarrow> bool" where
  "same_target d q = (op_target q = None \<or> (\<exists>q0 \<in> set (operations d). op_target q0 = op_target q \<and> op_server q0 = op_server q))"

definition keeps :: "ops_db \<Rightarrow> ops_db \<Rightarrow> bool" where
  "keeps d d' = (ops_ok d' \<and> ops_backups d' = ops_backups d \<and> (\<forall>q \<in> set (operations d'). same_target d q))"

definition backs :: "backup_row list \<Rightarrow> op_row \<Rightarrow> bool" where
  "backs rows q = (\<forall>t. op_target q = Some t \<longrightarrow> (\<exists>r \<in> set rows. bk_id r = t \<and> bk_server r = op_server q))"

definition backups_ok :: "backups \<Rightarrow> bool" where
  "backups_ok b = (ops_ok (ba_ops b) \<and> distinct (map bk_id (ba_rows b)) \<and>
     ops_backups (ba_ops b) = map bk_id (ba_rows b) \<and>
     (\<forall>q \<in> set (operations (ba_ops b)). backs (ba_rows b) q) \<and>
     (\<forall>s. count_backups b s \<le> MAX_QUOTA))"

lemma same_target_self: "q \<in> set (operations d) \<Longrightarrow> same_target d q"
  by (auto simp: same_target_def)

lemma keeps_refl: "ops_ok d \<Longrightarrow> keeps d d"
  by (simp add: keeps_def same_target_self)

lemma keeps_trans:
  assumes "keeps d d'" "keeps d' d''"
  shows "keeps d d''"
proof -
  have "same_target d q" if "same_target d' q" for q
    using that assms(1) unfolding keeps_def same_target_def by metis
  with assms show ?thesis by (simp add: keeps_def)
qed

lemma keepsD: "keeps d d' \<Longrightarrow> ops_ok d'"
  by (simp add: keeps_def)

lemma same_target_update:
  assumes "\<And>r. op_target (f r) = op_target r" "\<And>r. op_server (f r) = op_server r"
    and "q \<in> set (update_where P f (operations d))"
  shows "same_target d q"
proof -
  obtain r where "r \<in> set (operations d)" "q = (if P r then f r else r)" using assms(3) unfolding in_update by blast
  with assms(1,2) show ?thesis by (auto simp: same_target_def)
qed

lemma keeps_write:
  assumes "ops_ok (fst (write_op i p f d))"
    "\<And>r. op_target (f r) = op_target r" "\<And>r. op_server (f r) = op_server r"
  shows "keeps d (fst (write_op i p f d))"
  using assms(1) same_target_update [of f, OF assms(2,3)]
  by (auto simp: keeps_def write_op_def Let_def same_target_self split: sum.splits)

lemma keeps_settle: "ops_ok d \<Longrightarrow> is_terminal st \<Longrightarrow> keeps d (fst (op_settle now st e i d))"
  using settle_ok [of d st now e i] unfolding op_settle_def
  by (intro keeps_write) (simp_all add: settled_row_def)

lemma keeps_advance: "ops_ok d \<Longrightarrow> keeps d (fst (op_advance now s i d))"
  using advance_ok [of d now s i] unfolding op_advance_def by (intro keeps_write) (simp_all add: apply_step_def)

lemma keeps_request_cancel: "ops_ok d \<Longrightarrow> keeps d (fst (op_request_cancel i d))"
  using request_cancel_ok [of d i] unfolding op_request_cancel_def by (intro keeps_write) simp_all

lemma keeps_dismiss: "ops_ok d \<Longrightarrow> keeps d (fst (op_dismiss now i d))"
  using dismiss_ok [of d now i] unfolding op_dismiss_def split_beta Let_def fst_conv by (intro keeps_write) simp_all

lemma keeps_set_payload: "ops_ok d \<Longrightarrow> keeps d (fst (op_set_payload pl i d))"
  using set_payload_ok [of d pl i] unfolding op_set_payload_def by (intro keeps_write) simp_all

lemma keeps_begin:
  assumes "ops_ok d"
  shows "keeps d (fst (op_begin now i d))"
proof -
  let ?f = "\<lambda>p. p\<lparr>op_state := Ongoing, op_started_at := Some now, op_progressed_at := Some now\<rparr>"
  have "same_target d q" if "q \<in> set (update_where P ?f (operations d))" for q P
    by (rule same_target_update [OF _ _ that]) simp_all
  with begin_ok [OF assms] show ?thesis
    by (auto simp: keeps_def op_begin_def Let_def same_target_self split: sum.splits)
qed

lemma keeps_insert:
  assumes "ops_ok d" "new_target new = None"
  shows "keeps d (fst (op_insert i now new d))"
proof -
  have "same_target d (queued_row i now new)" using assms(2) by (simp add: same_target_def queued_row_def)
  with insert_ok [OF assms(1), of i now new] show ?thesis
    by (auto simp: keeps_def op_insert_def Let_def same_target_self)
qed

lemma keeps_settle_all:
  assumes "ops_ok d" "is_terminal st"
  shows "keeps d (fold (\<lambda>i d. fst (op_settle now st e i d)) is d)"
proof (rule fold_invariant [where Q = "\<lambda>_. True" and P = "\<lambda>d'. keeps d d'"])
  show "keeps d (fst (op_settle now st e i d'))" if "keeps d d'" for i d'
    by (rule keeps_trans [OF that keeps_settle [OF keepsD [OF that] assms(2)]])
qed (simp_all add: keeps_refl assms)

lemma keeps_housekeeping:
  assumes "ops_ok d"
  shows "keeps d (housekeeping now d)"
proof -
  have sweep: "keeps d (sweep_timeouts now s u d)" for s u
  proof -
    have failed: "is_terminal Failed" by (simp add: is_terminal_def)
    show ?thesis unfolding sweep_timeouts_def Let_def
      by (rule keeps_trans [OF keeps_settle_all keeps_settle_all]; (rule assms failed settle_all_ok)+)
  qed
  have "keeps d' (purge_finished t d')" if "ops_ok d'" for d' t
    using purge_ok [OF that] by (auto simp: keeps_def purge_finished_def set_delete same_target_self)
  then show ?thesis unfolding housekeeping_def
    by (rule keeps_trans [OF sweep _]) (rule keepsD [OF sweep])
qed


lemma ok_keeps:
  assumes "backups_ok b" "keeps (ba_ops b) d"
  shows "backups_ok (b\<lparr>ba_ops := d\<rparr>)"
proof -
  have "backs (ba_rows b) q" if "q \<in> set (operations d)" for q
  proof -
    have "same_target (ba_ops b) q" using assms(2) that by (simp add: keeps_def)
    then consider "op_target q = None"
      | q0 where "q0 \<in> set (operations (ba_ops b))" "op_target q0 = op_target q" "op_server q0 = op_server q"
      by (auto simp: same_target_def)
    then show ?thesis
    proof cases
      case 2
      then have "backs (ba_rows b) q0" using assms(1) by (simp add: backups_ok_def)
      with 2 show ?thesis by (simp add: backs_def)
    qed (simp add: backs_def)
  qed
  with assms show ?thesis by (simp add: backups_ok_def keeps_def count_backups_def)
qed

lemma ok_with_ops: "backups_ok b \<Longrightarrow> keeps (ba_ops b) (f (ba_ops b)) \<Longrightarrow> backups_ok (with_ops f b)"
  by (simp add: with_ops_def ok_keeps)

lemma ok_ops: "backups_ok b \<Longrightarrow> ops_ok (ba_ops b)"
  by (simp add: backups_ok_def)

lemma ok_same:
  "backups_ok b \<Longrightarrow> ba_ops b' = ba_ops b \<Longrightarrow> ba_rows b' = ba_rows b \<Longrightarrow> backups_ok b'"
  by (simp add: backups_ok_def count_backups_def)

lemma ok_change:
  assumes "backups_ok b" "\<And>r. bk_id (f r) = bk_id r" "\<And>r. bk_server (f r) = bk_server r"
  shows "backups_ok (change_backup i f b)"
proof -
  have "count_backups (change_backup i f b) s = count_backups b s" for s
    unfolding count_backups_def change_backup_def by (simp add: count_update assms(3))
  moreover have "backs (ba_rows (change_backup i f b)) q" if "backs (ba_rows b) q" for q
    unfolding backs_def
  proof (intro allI impI)
    fix t assume "op_target q = Some t"
    with that obtain r where r: "r \<in> set (ba_rows b)" "bk_id r = t" "bk_server r = op_server q"
      by (auto simp: backs_def)
    then have "(if bk_id r = i then f r else r) \<in> set (ba_rows (change_backup i f b))"
      unfolding change_backup_def by (simp add: set_update)
    moreover have "bk_id (if bk_id r = i then f r else r) = t" "bk_server (if bk_id r = i then f r else r) = op_server q"
      using r assms(2,3) by simp_all
    ultimately show "\<exists>r \<in> set (ba_rows (change_backup i f b)). bk_id r = t \<and> bk_server r = op_server q" by blast
  qed
  ultimately show ?thesis using assms(1)
    by (simp add: backups_ok_def change_backup_def map_update assms(2) cong: ball_cong)
qed

lemma ops_ok_same: "ops_ok d \<Longrightarrow> operations d' = operations d \<Longrightarrow> ops_ok d'"
  by (simp add: ops_ok_def)

lemma ok_remove:
  assumes "backups_ok b"
  shows "backups_ok (remove_backup i b)"
proof -
  let ?d = "ba_ops (remove_backup i b)"
  have ops: "operations ?d = update_where (\<lambda>q. op_target q = Some i) (\<lambda>q. q\<lparr>op_target := None\<rparr>) (operations (ba_ops b))"
    by (simp add: remove_backup_def with_ops_def)
  have "ops_ok ?d"
    by (rule ops_ok_update [OF ok_ops [OF assms] ops]) (simp_all add: ongoing_def finished_iff_def)
  moreover have "backs (ba_rows (remove_backup i b)) q" if "q \<in> set (operations ?d)" for q
  proof -
    obtain r where r: "r \<in> set (operations (ba_ops b))" "q = (if op_target r = Some i then r\<lparr>op_target := None\<rparr> else r)"
      using \<open>q \<in> _\<close> unfolding ops in_update by blast
    moreover have "backs (ba_rows b) r" using r assms by (simp add: backups_ok_def)
    ultimately show ?thesis
      by (auto simp: backs_def remove_backup_def with_ops_def set_delete)
  qed
  moreover have "count_backups (remove_backup i b) s \<le> MAX_QUOTA" for s
  proof -
    have "count_backups (remove_backup i b) s \<le> count_backups b s"
      by (simp add: count_backups_def remove_backup_def with_ops_def delete_where_def count_le_filter)
    moreover have "count_backups b s \<le> MAX_QUOTA" using assms by (simp add: backups_ok_def)
    ultimately show ?thesis by simp
  qed
  ultimately show ?thesis using assms
    by (simp add: backups_ok_def remove_backup_def with_ops_def distinct_delete)
      (simp add: delete_where_def filter_map comp_def)
qed

lemma ok_forget: "backups_ok b \<Longrightarrow> backups_ok (fst (forget i b))"
  by (simp add: forget_def ok_remove)

lemma ok_dismiss: "backups_ok b \<Longrightarrow> backups_ok (dismiss_run now i b)"
  by (simp add: dismiss_run_def ok_with_ops keeps_dismiss ok_ops)

lemma ok_settle: "backups_ok b \<Longrightarrow> is_terminal st \<Longrightarrow> backups_ok (with_ops (\<lambda>d. fst (op_settle now st e i d)) b)"
  by (simp add: ok_with_ops keeps_settle ok_ops)

lemma ok_ends:
  assumes "backups_ok b"
  shows "backups_ok (with_ops (\<lambda>d. fst (op_finish now i d)) b)"
    "backups_ok (with_ops (\<lambda>d. fst (op_fail now e i d)) b)"
    "backups_ok (with_ops (\<lambda>d. fst (op_cancelled now i d)) b)"
  unfolding op_finish_def op_fail_def op_cancelled_def
  by (rule ok_settle [OF assms]; simp add: is_terminal_def)+

lemma ok_forget_session: "backups_ok b \<Longrightarrow> backups_ok (forget_session i b)"
  by (simp add: forget_session_def ok_with_ops keeps_def same_target_self ops_ok_same [OF ok_ops])

lemma ok_schedules:
  assumes "backups_ok b"
  shows "backups_ok (change_schedule s f b)" "backups_ok (reserve s n b)" "backups_ok (record_run s now st e nx b)"
    "backups_ok (fst (save_schedule s w b))"
  using assms by (auto intro: ok_same simp: change_schedule_def reserve_def record_run_def save_schedule_def Let_def)

lemma ok_insert_run:
  assumes "backups_ok b" "backs (ba_rows b) (queued_row i now new)"
  shows "backups_ok (b\<lparr>ba_ops := fst (op_insert i now new (ba_ops b))\<rparr>)"
proof -
  have "operations (fst (op_insert i now new (ba_ops b))) \<in>
      {operations (ba_ops b), operations (ba_ops b) @ [queued_row i now new]}"
    "ops_backups (fst (op_insert i now new (ba_ops b))) = ops_backups (ba_ops b)"
    by (simp_all add: op_insert_def Let_def)
  moreover have "ops_ok (fst (op_insert i now new (ba_ops b)))" by (rule insert_ok [OF ok_ops [OF assms(1)]])
  ultimately show ?thesis using assms by (auto simp: backups_ok_def count_backups_def)
qed

lemma backs_run: "backs rows (queued_row i now (backup_operation server kind st t p)) \<longleftrightarrow>
    (\<exists>r \<in> set rows. bk_id r = t \<and> bk_server r = server)"
  by (simp add: backs_def queued_row_def backup_operation_def)

lemma ok_insert_backup:
  assumes "backups_ok b" "insert_backup row b = Inr b'" "count_backups b (bk_server row) < MAX_QUOTA"
  shows "backups_ok b'" "ba_rows b' = ba_rows b @ [row]" "operations (ba_ops b') = operations (ba_ops b)"
proof -
  have b': "b' = with_ops (\<lambda>d. d\<lparr>ops_backups := ops_backups d @ [bk_id row]\<rparr>) (b\<lparr>ba_rows := ba_rows b @ [row]\<rparr>)"
    and new: "bk_id row \<notin> bk_id ` set (ba_rows b)"
    using assms(2) by (auto simp: insert_backup_def split: if_splits)
  show rows: "ba_rows b' = ba_rows b @ [row]" and ops: "operations (ba_ops b') = operations (ba_ops b)"
    by (simp_all add: b' with_ops_def)
  have "backs (ba_rows b') q" if "backs (ba_rows b) q" for q using that by (auto simp: backs_def rows)
  moreover have "count_backups b' s \<le> MAX_QUOTA" for s
  proof -
    have "count_backups b' s = count_backups b s + (if bk_server row = s then 1 else 0)"
      by (simp add: count_backups_def rows count_snoc)
    moreover have "count_backups b s \<le> MAX_QUOTA" using assms(1) by (simp add: backups_ok_def)
    ultimately show ?thesis using assms(3) by auto
  qed
  moreover have "ops_ok (ba_ops b')" by (rule ops_ok_same [OF ok_ops [OF assms(1)] ops])
  moreover have "ops_backups (ba_ops b') = map bk_id (ba_rows b')"
    using assms(1) by (simp add: b' with_ops_def backups_ok_def)
  ultimately show "backups_ok b'" using assms(1) new by (simp add: backups_ok_def rows ops)
qed

lemma ok_create_for:
  assumes ok: "backups_ok b" and room: "count_backups b server < MAX_QUOTA"
  shows "backups_ok (fst (create_for w bi oi server name st au pa b))"
proof -
  let ?row = "new_backup bi server name au (case ar_target w of None \<Rightarrow> Local | Some l \<Rightarrow> l) (ar_now w)"
  have row: "bk_server ?row = server" "bk_id ?row = bi" by (simp_all add: new_backup_def)
  show ?thesis
  proof (cases "insert_backup ?row b")
    case (Inr b1)
    let ?new = "backup_operation server OpBackupCreate st bi pa"
    let ?b2 = "b1\<lparr>ba_ops := fst (op_insert oi (ar_now w) ?new (ba_ops b1))\<rparr>"
    have b1: "backups_ok b1" "ba_rows b1 = ba_rows b @ [?row]"
      using ok_insert_backup [OF ok Inr] room row by simp_all
    have "backs (ba_rows b1) (queued_row oi (ar_now w) ?new)"
      unfolding backs_run b1(2) using row by auto
    then have "backups_ok ?b2" by (rule ok_insert_run [OF b1(1)])
    with Inr show ?thesis
      by (auto simp: create_for_def Let_def split_beta ok_remove split: sum.splits)
  qed (use ok in \<open>simp add: create_for_def\<close>)
qed

lemma check_quota_room: "check_quota b server 1 = Inr () \<Longrightarrow> count_backups b server < MAX_QUOTA"
  by (simp add: check_quota_def backup_quota_def split: if_splits)

lemma mine_row: "mine b server backup = Inr r \<Longrightarrow> r \<in> set (ba_rows b) \<and> bk_id r = backup \<and> bk_server r = server"
  by (auto simp: mine_def and_then_Inr find_backup_def split: option.splits if_splits dest: fetch_SomeD)

lemma ok_request: 
  assumes "backups_ok b"
  shows "backups_ok (fst (request_backup w bi oi server name st b))"
proof (cases "check_quota b server 1")
  case (Inr u)
  then have "backups_ok (fst (create_for w bi oi server n (Some st) False None b))" for n
    by (intro ok_create_for [OF assms] check_quota_room) simp
  then show ?thesis
    using assms by (auto simp: request_backup_def Let_def split_beta split: sum.splits)
qed (use assms in \<open>auto simp: request_backup_def and_then_def split: sum.splits\<close>)

lemma ok_start_restore:
  assumes ok: "backups_ok b" and row: "r \<in> set (ba_rows b)" "bk_id r = backup" "bk_server r = server"
    and room: "safety \<noteq> None \<Longrightarrow> count_backups b server < MAX_QUOTA"
  shows "backups_ok (fst (start_restore w ri bi oi server backup safety st b))"
proof -
  let ?new = "backup_operation server OpBackupRestore (Some st) backup None"
  let ?b = "b\<lparr>ba_ops := fst (op_insert ri (ar_now w) ?new (ba_ops b))\<rparr>"
  have b: "backups_ok ?b" using row by (intro ok_insert_run [OF ok]) (auto simp: backs_run)
  have "backups_ok (fst (create_for w bi oi server name (Some st) False (Some i) ?b))" if "safety = Some name" for name i
    using room that by (intro ok_create_for [OF b]) (simp add: count_backups_def)
  then show ?thesis using b
    by (auto simp: start_restore_def Let_def split_beta ok_ends ok_dismiss split: sum.splits option.splits)
qed

lemma ok_restore:
  assumes "backups_ok b"
  shows "backups_ok (fst (restore_backup w ri bi oi server backup name st b))"
proof (cases "restore_checks w server backup name b")
  case (Inr n)
  then obtain row where "mine b server backup = Inr row" "check_quota b server 1 = Inr ()"
    by (auto simp: restore_checks_def and_then_Inr split: if_splits)
  then show ?thesis using Inr ok_start_restore [OF assms] mine_row check_quota_room
    by (fastforce simp: restore_backup_def)
qed (simp add: restore_backup_def assms)

lemma ok_retry:
  assumes ok: "backups_ok b"
  shows "backups_ok (fst (retry_backup w ri bi oi server backup st b))"
proof (cases "retry_checks server backup b")
  case (Inr p)
  obtain row k where p: "p = (row, k)" by (cases p)
  with Inr have "mine b server backup = Inr row"
    by (auto simp: retry_checks_def and_then_Inr split: option.splits if_splits)
  note row = mine_row [OF this]
  show ?thesis
  proof (cases k)
    case RunCreate
    let ?b = "if ar_resumable w then b else forget_session backup b"
    have b: "backups_ok ?b" using ok by (simp add: ok_forget_session)
    have "ba_rows ?b = ba_rows b" by (simp add: forget_session_def with_ops_def)
    with row have "backups_ok (?b\<lparr>ba_ops := fst (op_insert ri (ar_now w)
        (backup_operation server OpBackupCreate (Some st) backup None) (ba_ops ?b))\<rparr>)"
      by (intro ok_insert_run [OF b]) (auto simp: backs_run)
    with Inr p RunCreate ok show ?thesis
      by (auto simp: retry_backup_def retry_create_def Let_def split_beta split: sum.splits)
  next
    case RunRestore
    have "backups_ok (fst (start_restore w ri bi oi server (bk_id row) safety st b))"
      if "safety \<noteq> None \<Longrightarrow> check_quota b server 1 = Inr ()" for safety
      using row that check_quota_room by (intro ok_start_restore [OF ok, of row]) auto
    with Inr p RunRestore ok show ?thesis
      by (auto simp: retry_backup_def retry_restore_def Let_def split_beta and_then_Inr split: sum.splits if_splits)
  qed
qed (simp add: retry_backup_def ok)

lemma ok_rename: "backups_ok b \<Longrightarrow> backups_ok (fst (rename_backup server i name b))"
  by (auto simp: rename_backup_def rename_row_def Let_def ok_change split: sum.splits)

lemma ok_delete_one: "backups_ok b \<Longrightarrow> backups_ok (fst (delete_one_backup server i b))"
  by (auto simp: delete_one_backup_def ok_forget split: sum.splits)

lemma ok_delete_many: "backups_ok b \<Longrightarrow> backups_ok (fst (delete_many server is b))"
proof (induction "is" arbitrary: b)
  case (Cons i "is")
  from Cons.IH [OF ok_delete_one [OF Cons.prems, of server i]] show ?case
    by (auto simp: Let_def split_beta split: sum.splits)
qed simp

lemma ok_write_schedule: "backups_ok b \<Longrightarrow> backups_ok (fst (write_schedule now server q b))"
  by (auto simp: write_schedule_def Let_def split_beta ok_schedules split: sum.splits)

lemma ok_prune_all: "backups_ok b \<Longrightarrow> backups_ok (fst (prune_all is b))"
  by (induction "is" arbitrary: b) (auto simp: Let_def split_beta ok_forget)

lemma ok_scheduled_start:
  assumes ok: "backups_ok b"
  shows "backups_ok (fst (scheduled_start w bi oi stamp survey server b))"
proof -
  let ?b = "reserve server (next_after (ar_now w) (sc_interval (schedule_of b server)) (sc_hour (schedule_of b server))) b"
  have b: "backups_ok ?b" by (rule ok_schedules [OF ok])
  have "backups_ok (fst (create_for w bi oi server n None True None ?b))"
    if "\<not> backup_quota ?b \<le> count_backups ?b server" for n
    using that by (intro ok_create_for [OF b]) (simp add: backup_quota_def)
  with b show ?thesis
    by (auto simp: scheduled_start_def Let_def split_beta ok_schedules split: sum.splits)
qed

lemma ok_scheduled_end: "backups_ok b \<Longrightarrow> backups_ok (fst (scheduled_end now wiped server i run nx keep b))"
  by (auto simp: scheduled_end_def Let_def prune_def intro!: ok_prune_all ok_schedules ok_dismiss)

lemma ok_try_turn: "backups_ok b \<Longrightarrow> backups_ok (fst (try_turn now run b))"
  using ok_keeps [OF _ keeps_begin [OF ok_ops]]
  by (auto simp: try_turn_def Let_def split_beta split: sum.splits option.splits)

lemma ok_create_waits: "backups_ok b \<Longrightarrow> backups_ok (fst (create_waits now run b))"
  by (auto simp: create_waits_def Let_def split_beta ok_ends ok_forget ok_try_turn split: sum.splits option.splits)

lemma ok_deliver: "backups_ok b \<Longrightarrow> backups_ok (fst (deliver i bytes up b))"
  by (auto simp: deliver_def set_size_def finish_upload_def ok_change split: sum.splits)

lemma ok_create_ends: "backups_ok b \<Longrightarrow> backups_ok (create_ends now run i outcome b)"
  by (auto simp: create_ends_def intro!: ok_ends ok_forget ok_forget_session split: sum.splits ended.splits)

lemma ok_restore_waits: "backups_ok b \<Longrightarrow> backups_ok (fst (restore_waits now run b))"
  by (auto simp: restore_waits_def ok_ends ok_try_turn split: option.splits)

lemma ok_restore_ends: "backups_ok b \<Longrightarrow> backups_ok (restore_ends now run outcome b)"
  by (auto simp: restore_ends_def ok_ends split: sum.splits ended.splits)

text \<open>Recovery takes some of the backups away, and their operations lose their target.\<close>

definition recovered_from :: "ops_db \<Rightarrow> ops_db \<Rightarrow> bool" where
  "recovered_from d0 d = (ops_ok d \<and> (\<exists>P. ops_backups d = filter P (ops_backups d0)) \<and>
     (\<forall>q \<in> set (operations d). same_target d0 q \<and> (\<forall>t. op_target q = Some t \<longrightarrow> t \<in> set (ops_backups d))))"

lemma recovered_clean_up:
  assumes "recovered_from d0 d"
  shows "recovered_from d0 (clean_up_after k s t d)"
proof -
  have "recovered_from d0 (delete_backup x d)" for x
  proof (cases "x \<in> set (ops_uploads d) \<or> x \<notin> set (ops_backups d)")
    case False
    let ?d = "delete_backup x d"
    have ops: "operations ?d = update_where (\<lambda>r. op_target r = Some x) (\<lambda>r. r\<lparr>op_target := None\<rparr>) (operations d)"
      and backups: "ops_backups ?d = filter (\<lambda>y. y \<noteq> x) (ops_backups d)"
      using False by (simp_all add: delete_backup_def)
    have "\<exists>P. ops_backups ?d = filter P (ops_backups d0)"
      using assms by (auto simp: recovered_from_def backups)
    moreover have "same_target d0 q \<and> (\<forall>t. op_target q = Some t \<longrightarrow> t \<in> set (ops_backups ?d))"
      if q: "q \<in> set (operations ?d)" for q
    proof -
      obtain r where r: "r \<in> set (operations d)" "q = (if op_target r = Some x then r\<lparr>op_target := None\<rparr> else r)"
        using q unfolding ops in_update by blast
      moreover have "same_target d0 r" "\<And>t. op_target r = Some t \<Longrightarrow> t \<in> set (ops_backups d)"
        using r(1) assms by (auto simp: recovered_from_def)
      ultimately show ?thesis by (auto simp: backups same_target_def)
    qed
    ultimately show ?thesis using assms delete_backup_ok by (simp add: recovered_from_def)
  qed (use assms in \<open>simp add: delete_backup_def\<close>)
  moreover have "recovered_from d0 (d\<lparr>ops_servers := x\<rparr>)" for x
    using assms by (simp add: recovered_from_def)
  ultimately show ?thesis using assms by (auto simp: clean_up_after_def split: option.splits)
qed

lemma recovered_keeps:
  assumes "recovered_from d0 d" "keeps d d'"
  shows "recovered_from d0 d'"
proof -
  have "same_target d0 q \<and> (\<forall>t. op_target q = Some t \<longrightarrow> t \<in> set (ops_backups d'))" if "q \<in> set (operations d')" for q
  proof -
    have "same_target d q" using assms(2) that by (simp add: keeps_def)
    then consider "op_target q = None"
      | r where "r \<in> set (operations d)" "op_target r = op_target q" "op_server r = op_server q"
      by (auto simp: same_target_def)
    then show ?thesis
    proof cases
      case 2
      then have "same_target d0 r" "\<forall>t. op_target r = Some t \<longrightarrow> t \<in> set (ops_backups d)"
        using assms(1) by (auto simp: recovered_from_def)
      with 2 assms(2) show ?thesis by (simp add: same_target_def keeps_def)
    qed (simp add: same_target_def)
  qed
  with assms show ?thesis by (simp add: recovered_from_def keeps_def)
qed

lemma recovered: 
  assumes "backups_ok b"
  shows "recovered_from (ba_ops b) (ops_recover now (ba_ops b))"
  unfolding ops_recover_def
proof (rule fold_invariant [where Q = "\<lambda>_. True" and P = "recovered_from (ba_ops b)"])
  show "recovered_from (ba_ops b) (recover_one now r d)" if "recovered_from (ba_ops b) d" for r d
    unfolding recover_one_def using that
    by (intro recovered_clean_up recovered_keeps [OF that] keeps_settle)
      (simp_all add: recovered_from_def is_terminal_def)
  have "\<exists>P. map bk_id (ba_rows b) = filter P (map bk_id (ba_rows b))" by (rule exI [of _ "\<lambda>_. True"]) simp
  with assms show "recovered_from (ba_ops b) (ba_ops b)"
    by (auto simp: recovered_from_def backups_ok_def same_target_self backs_def)
qed simp

lemma ok_recover:
  assumes "backups_ok b"
  shows "backups_ok (backups_recover now b)"
proof -
  let ?d = "ops_recover now (ba_ops b)"
  have rec: "recovered_from (ba_ops b) ?d" by (rule recovered [OF assms])
  obtain P where P: "ops_backups ?d = filter P (map bk_id (ba_rows b))"
    using rec assms by (auto simp: recovered_from_def backups_ok_def)
  have rows: "ba_rows (backups_recover now b) = filter (\<lambda>r. P (bk_id r)) (ba_rows b)"
    unfolding backups_recover_def Let_def P by (auto intro: filter_cong)
  have "backs (ba_rows (backups_recover now b)) q" if q: "q \<in> set (operations ?d)" for q
    unfolding backs_def
  proof (intro allI impI)
    fix t assume t: "op_target q = Some t"
    then obtain q0 where "q0 \<in> set (operations (ba_ops b))" "op_target q0 = Some t" "op_server q0 = op_server q"
      using rec q by (auto simp: recovered_from_def same_target_def)
    moreover from this have "backs (ba_rows b) q0" using assms by (simp add: backups_ok_def)
    ultimately obtain r where r: "r \<in> set (ba_rows b)" "bk_id r = t" "bk_server r = op_server q"
      by (auto simp: backs_def)
    have "t \<in> set (ops_backups ?d)" using rec q t by (auto simp: recovered_from_def)
    with r show "\<exists>r \<in> set (ba_rows (backups_recover now b)). bk_id r = t \<and> bk_server r = op_server q"
      by (auto simp: rows P)
  qed
  moreover have "count_backups (backups_recover now b) s \<le> MAX_QUOTA" for s
  proof -
    have "count_backups (backups_recover now b) s \<le> count_backups b s"
      by (simp add: count_backups_def rows count_le_filter)
    moreover have "count_backups b s \<le> MAX_QUOTA" using assms by (simp add: backups_ok_def)
    ultimately show ?thesis by simp
  qed
  moreover have "ba_ops (backups_recover now b) = ?d" by (simp add: backups_recover_def Let_def)
  moreover have "ops_backups ?d = map bk_id (ba_rows (backups_recover now b))"
    by (simp add: P rows filter_map comp_def)
  ultimately show ?thesis using rec assms
    by (simp add: backups_ok_def recovered_from_def rows distinct_map_filter)
qed

text \<open>Every step: a handler, a part of a run, or another operation of the panel on the same table.\<close>

text \<open>Disconnecting a Drive and deleting a server take the rows along: \<open>owned\<close> are the servers of the account.\<close>

definition remove_rows :: "(backup_row \<Rightarrow> bool) \<Rightarrow> backups \<Rightarrow> backups" where
  "remove_rows p b = fold remove_backup (map bk_id (filter p (ba_rows b))) b"

definition forget_drive_backups :: "id list \<Rightarrow> backups \<Rightarrow> backups" where
  "forget_drive_backups owned b = remove_rows (\<lambda>r. bk_location r = Drive \<and> bk_server r \<in> set owned) b"

definition backups_gone :: "id \<Rightarrow> backups \<Rightarrow> backups" where
  "backups_gone server b = (let c = with_ops (server_removed server) (remove_rows (\<lambda>r. bk_server r = server) b) in
     c\<lparr>ba_schedules := delete_where (\<lambda>s. fst s = server) (ba_schedules c)\<rparr>)"

lemma ok_remove_rows: "backups_ok b \<Longrightarrow> backups_ok (remove_rows p b)"
proof -
  have "backups_ok b \<Longrightarrow> backups_ok (fold remove_backup is b)" for "is"
    by (induction "is" arbitrary: b) (simp_all add: ok_remove)
  then show "backups_ok b \<Longrightarrow> backups_ok (remove_rows p b)" by (simp add: remove_rows_def)
qed

lemma keeps_server_removed: "ops_ok d \<Longrightarrow> keeps d (server_removed server d)"
  using server_removed_ok [of d server]
  by (auto simp: keeps_def server_removed_def set_delete intro: same_target_self)

lemma ok_backups_gone: "backups_ok b \<Longrightarrow> backups_ok (backups_gone server b)"
proof -
  let ?c = "with_ops (server_removed server) (remove_rows (\<lambda>r. bk_server r = server) b)"
  assume "backups_ok b"
  then have "backups_ok ?c" by (intro ok_with_ops keeps_server_removed ok_ops ok_remove_rows)
  then show ?thesis by (rule ok_same) (simp_all add: backups_gone_def Let_def)
qed

inductive backups_step :: "backups \<Rightarrow> backups \<Rightarrow> bool" where
  Request: "backups_step b (fst (request_backup w bi oi server name st b))"
| Rename: "backups_step b (fst (rename_backup server i name b))"
| Delete: "backups_step b (fst (delete_one_backup server i b))"
| DeleteMany: "backups_step b (fst (delete_many server ids b))"
| Restore: "backups_step b (fst (restore_backup w ri bi oi server i name st b))"
| Retry: "backups_step b (fst (retry_backup w ri bi oi server i st b))"
| WriteSchedule: "backups_step b (fst (write_schedule now server q b))"
| ScheduledStart: "backups_step b (fst (scheduled_start w bi oi stamp survey server b))"
| ScheduledEnd: "backups_step b (fst (scheduled_end now wiped server i run nx keep b))"
| CreateWaits: "backups_step b (fst (create_waits now run b))"
| Deliver: "backups_step b (fst (deliver i bytes up b))"
| CreateEnds: "backups_step b (create_ends now run i outcome b)"
| RestoreWaits: "backups_step b (fst (restore_waits now run b))"
| RestoreEnds: "backups_step b (restore_ends now run outcome b)"
| SetQuota: "backups_step b (b\<lparr>ba_setting := n\<rparr>)"
| OtherRun: "new_target new = None \<Longrightarrow> backups_step b (with_ops (\<lambda>d. fst (op_insert i now new d)) b)"
| Begin: "backups_step b (with_ops (\<lambda>d. fst (op_begin now i d)) b)"
| Advance: "backups_step b (with_ops (\<lambda>d. fst (op_advance now s i d)) b)"
| Settle: "is_terminal e \<Longrightarrow> backups_step b (with_ops (\<lambda>d. fst (op_settle now e err i d)) b)"
| RequestCancel: "backups_step b (with_ops (\<lambda>d. fst (op_request_cancel i d)) b)"
| Dismiss: "backups_step b (with_ops (\<lambda>d. fst (op_dismiss now i d)) b)"
| SetPayload: "backups_step b (with_ops (\<lambda>d. fst (op_set_payload pl i d)) b)"
| Housekeeping: "backups_step b (with_ops (housekeeping now) b)"
| Recover: "backups_step b (backups_recover now b)"
| ForgetDrive: "backups_step b (forget_drive_backups owned b)"
| ServerGone: "backups_step b (backups_gone server b)"

inductive backups_reachable :: "backups \<Rightarrow> bool" where
  Empty: "operations (ba_ops b) = [] \<Longrightarrow> ops_backups (ba_ops b) = [] \<Longrightarrow> ba_rows b = [] \<Longrightarrow> backups_reachable b"
| Step: "backups_reachable b \<Longrightarrow> backups_step b b' \<Longrightarrow> backups_reachable b'"

lemma step_backups_ok: "backups_step b b' \<Longrightarrow> backups_ok b \<Longrightarrow> backups_ok b'"
proof (induction rule: backups_step.induct)
  case (SetQuota b n)
  then show ?case by (auto intro: ok_same)
next
  case (Housekeeping b now)
  then show ?case by (intro ok_with_ops keeps_housekeeping ok_ops)
next
  case (OtherRun new b i now)
  then show ?case by (intro ok_with_ops keeps_insert ok_ops)
next
  case (Settle e b now err i)
  then show ?case by (intro ok_with_ops keeps_settle ok_ops)
qed (simp_all add: ok_request ok_rename ok_delete_one ok_delete_many ok_restore ok_retry ok_write_schedule
  ok_scheduled_start ok_scheduled_end ok_create_waits ok_deliver ok_create_ends ok_restore_waits ok_restore_ends
  ok_recover forget_drive_backups_def ok_remove_rows ok_backups_gone ok_with_ops keeps_begin keeps_advance keeps_request_cancel keeps_dismiss keeps_set_payload ok_ops)

lemma reachable_backups_ok: "backups_reachable b \<Longrightarrow> backups_ok b"
proof (induction rule: backups_reachable.induct)
  case (Empty b)
  then show ?case by (simp add: backups_ok_def ops_ok_def running_on_def open_of_def count_backups_def count_where_def)
qed (rule step_backups_ok)

lemma busy_remove: "\<not> is_busy b i \<Longrightarrow> is_busy (remove_backup i b) j = is_busy b j"
  by (auto simp: is_busy_def count_pos_iff remove_backup_def with_ops_def set_update)

lemma rows_remove: "ba_rows (remove_backup i b) = filter (\<lambda>r. bk_id r \<noteq> i) (ba_rows b)"
  by (simp add: remove_backup_def with_ops_def delete_where_def)

lemma prune_all_rows:
  "ba_rows (fst (prune_all is b)) = filter (\<lambda>r. bk_id r \<notin> set is \<or> is_busy b (bk_id r)) (ba_rows b)"
proof (induction "is" arbitrary: b)
  case (Cons i "is")
  show ?case
  proof (cases "is_busy b i")
    case True
    then show ?thesis by (simp add: Cons.IH) (auto intro: filter_cong)
  next
    case False
    then show ?thesis
      by (simp add: Let_def split_beta forget_def Cons.IH rows_remove busy_remove) (auto intro: filter_cong)
  qed
qed simp

lemma open_stays:
  "q \<in> set (operations (ba_ops b)) \<Longrightarrow> op_target q \<noteq> Some i \<Longrightarrow> q \<in> set (operations (ba_ops (remove_backup i b)))"
  by (force simp: remove_backup_def with_ops_def set_update)

lemma open_busy: "q \<in> set (operations (ba_ops b)) \<Longrightarrow> is_open (op_state q) \<Longrightarrow> op_target q = Some i \<Longrightarrow> is_busy b i"
  by (auto simp: is_busy_def count_pos_iff)

lemma open_survives_removal:
  assumes "q \<in> set (operations (ba_ops b))" "is_open (op_state q)" "\<not> is_busy b i"
  shows "q \<in> set (operations (ba_ops (remove_backup i b)))"
  using assms open_stays open_busy by blast

lemma prune_all_spares:
  "q \<in> set (operations (ba_ops b)) \<Longrightarrow> is_open (op_state q) \<Longrightarrow> q \<in> set (operations (ba_ops (fst (prune_all is b))))"
  by (induction "is" arbitrary: b) (auto simp: Let_def split_beta forget_def open_survives_removal)

lemma delete_one_spares:
  "q \<in> set (operations (ba_ops b)) \<Longrightarrow> is_open (op_state q) \<Longrightarrow>
   q \<in> set (operations (ba_ops (fst (delete_one_backup s i b))))"
  by (auto simp: delete_one_backup_def forget_def and_then_def guard_backup_def open_survives_removal split: sum.splits if_splits)

lemma delete_many_spares:
  "q \<in> set (operations (ba_ops b)) \<Longrightarrow> is_open (op_state q) \<Longrightarrow>
   q \<in> set (operations (ba_ops (fst (delete_many s is b))))"
proof (induction "is" arbitrary: b)
  case (Cons i "is")
  from Cons.IH [OF delete_one_spares [OF Cons.prems] Cons.prems(2)] show ?case
    by (auto simp: Let_def split_beta split: sum.splits)
qed simp

lemma backed_row:
  assumes "backups_ok b" "q \<in> set (operations (ba_ops b))" "op_target q = Some t"
  shows "\<exists>r \<in> set (ba_rows b). bk_id r = t \<and> bk_server r = op_server q"
  using assms by (auto simp: backups_ok_def backs_def)

definition automatic :: "id \<Rightarrow> backup_row \<Rightarrow> bool" where
  "automatic server r = (bk_server r = server \<and> bk_automated r)"

definition newer_automatic :: "backups \<Rightarrow> backup_row \<Rightarrow> backup_row set" where
  "newer_automatic b r = {x \<in> set (ba_rows b). automatic (bk_server r) x \<and>
     (bk_created_at r, bk_id r) < (bk_created_at x, bk_id x)}"

lemma prune_keeps:
  assumes ok: "distinct (map bk_id (ba_rows b))" and r: "r \<in> set (ba_rows b)"
  shows "r \<in> set (ba_rows (fst (prune server keep b))) \<longleftrightarrow>
    \<not> automatic server r \<or> is_busy b (bk_id r) \<or> card (newer_automatic b r) < keep"
proof -
  let ?k = "\<lambda>r. (bk_created_at r, bk_id r)"
  let ?A = "filter (automatic server) (ba_rows b)"
  let ?ys = "order_by_desc ?k ?A"
  have over: "automatic_over b server keep = drop keep (map bk_id ?ys)"
    unfolding automatic_over_def automatic_def [abs_def] ..
  have inj: "x = y" if "x \<in> set (ba_rows b)" "y \<in> set (ba_rows b)" "bk_id x = bk_id y" for x y
    using ok that by (metis distinct_map inj_onD)
  have "distinct (map bk_id ?A)" using ok by (rule distinct_map_filter)
  then have dk: "distinct (map ?k ?A)" by (auto simp: distinct_map inj_on_def)
  have "distinct (map bk_id (sort_key ?k ?A))"
    using \<open>distinct (map bk_id ?A)\<close> by (simp add: distinct_map)
  then have ids: "distinct (map bk_id ?ys)" by (simp add: order_by_desc_def flip: rev_map)
  have over_iff: "bk_id r \<in> set (automatic_over b server keep) \<longleftrightarrow>
      automatic server r \<and> \<not> r \<in> set (take keep ?ys)"
  proof
    assume "bk_id r \<in> set (automatic_over b server keep)"
    then obtain x where x: "x \<in> set (drop keep ?ys)" "bk_id x = bk_id r" by (auto simp: over drop_map)
    have "x \<in> set ?ys" using x(1) by (rule in_set_dropD)
    then have "x \<in> set (ba_rows b)" "automatic server x" by (auto simp: set_order)
    with x inj r have "x = r" by blast
    moreover have "set (take keep ?ys) \<inter> set (drop keep ?ys) = {}"
      using ids by (intro set_take_disj_set_drop_if_distinct) (auto simp: distinct_map)
    ultimately show "automatic server r \<and> \<not> r \<in> set (take keep ?ys)"
      using x \<open>automatic server x\<close> by blast
  next
    assume a: "automatic server r \<and> \<not> r \<in> set (take keep ?ys)"
    with r have "r \<in> set ?ys" by (simp add: set_order)
    then have "r \<in> set (take keep ?ys @ drop keep ?ys)" by simp
    with a show "bk_id r \<in> set (automatic_over b server keep)" by (simp add: over drop_map del: append_take_drop_id)
  qed
  have "r \<in> set (take keep ?ys) \<longleftrightarrow> card (newer_automatic b r) < keep" if "automatic server r"
  proof -
    have "{x \<in> set ?A. ?k r < ?k x} = newer_automatic b r"
      using that by (auto simp: newer_automatic_def automatic_def)
    with in_take_desc [OF dk, of r keep] r that show ?thesis by simp
  qed
  with over_iff r show ?thesis by (auto simp: prune_def prune_all_rows)
qed


text \<open>A refused request.\<close>

lemma insert_refused: "snd (op_insert i now new d) = Inl f \<Longrightarrow> fst (op_insert i now new d) = d"
proof -
  have "op_fetch (bump_revision s (d\<lparr>operations := operations d @ [queued_row i now new]\<rparr>)) i \<noteq> Inl g" for s g
    by (auto simp: op_fetch_def fetch_None queued_row_def split: option.splits)
  then show "snd (op_insert i now new d) = Inl f \<Longrightarrow> fst (op_insert i now new d) = d"
    by (auto simp: op_insert_def Let_def split: if_splits)
qed

lemma insert_backup_undone:
  assumes ok: "backups_ok b" and ins: "insert_backup row b = Inr b1" and fresh: "bk_id row \<notin> set (ops_uploads (ba_ops b))"
  shows "remove_backup (bk_id row) b1 = b"
proof -
  have new: "bk_id row \<notin> bk_id ` set (ba_rows b)"
    and b1: "b1 = with_ops (\<lambda>d. d\<lparr>ops_backups := ops_backups d @ [bk_id row]\<rparr>) (b\<lparr>ba_rows := ba_rows b @ [row]\<rparr>)"
    using ins by (auto simp: insert_backup_def split: if_splits)
  have "op_target q \<noteq> Some (bk_id row)" if "q \<in> set (operations (ba_ops b))" for q
    using backed_row [OF ok that] new by (metis imageI)
  then have "update_where (\<lambda>q. op_target q = Some (bk_id row)) (\<lambda>q. q\<lparr>op_target := None\<rparr>) (operations (ba_ops b)) = operations (ba_ops b)"
    by (simp add: update_where_def map_idI)
  moreover have "filter (\<lambda>i. i \<noteq> bk_id row) (ops_backups (ba_ops b)) = ops_backups (ba_ops b)"
  proof -
    have "bk_id row \<notin> set (ops_backups (ba_ops b))" using ok new by (simp add: backups_ok_def)
    then show ?thesis by (auto intro!: filter_True)
  qed
  moreover have "delete_where (\<lambda>r. bk_id r = bk_id row) (ba_rows b @ [row]) = ba_rows b"
    using new by (simp add: delete_where_def image_iff) (metis (mono_tags) filter_True)
  moreover have "filter (\<lambda>i. i \<noteq> bk_id row) (ops_uploads (ba_ops b)) = ops_uploads (ba_ops b)"
    using fresh by (intro filter_True) auto
  ultimately show ?thesis by (simp add: remove_backup_def with_ops_def b1)
qed

lemma create_for_refused:
  assumes ok: "backups_ok b" and fresh: "bi \<notin> set (ops_uploads (ba_ops b))"
    and refused: "snd (create_for w bi oi server name st au pa b) = Inl f"
  shows "fst (create_for w bi oi server name st au pa b) = b"
proof -
  let ?row = "new_backup bi server name au (case ar_target w of None \<Rightarrow> Local | Some l \<Rightarrow> l) (ar_now w)"
  have row: "bk_id ?row = bi" by (simp add: new_backup_def)
  show ?thesis
  proof (cases "insert_backup ?row b")
    case (Inr b1)
    let ?new = "backup_operation server OpBackupCreate st bi pa"
    obtain g where "snd (op_insert oi (ar_now w) ?new (ba_ops b1)) = Inl g"
      using refused Inr by (auto simp: create_for_def Let_def split_beta split: sum.splits)
    moreover from insert_refused [OF this] have "b1\<lparr>ba_ops := fst (op_insert oi (ar_now w) ?new (ba_ops b1))\<rparr> = b1" by simp
    ultimately have "fst (create_for w bi oi server name st au pa b) = remove_backup bi b1"
      using Inr by (simp add: create_for_def Let_def split_beta)
    then show ?thesis using insert_backup_undone [OF ok Inr] fresh row by simp
  qed (simp add: create_for_def)
qed

lemma create_for_makes:
  assumes "snd (create_for w bi oi server name st au pa b) = Inr (x, y)"
  shows "x = bi" "y = oi" "bi \<notin> bk_id ` set (ba_rows b)"
    "\<exists>loc. ba_rows (fst (create_for w bi oi server name st au pa b)) = ba_rows b @ [new_backup bi server name au loc (ar_now w)]"
    "operations (ba_ops (fst (create_for w bi oi server name st au pa b))) =
       operations (ba_ops b) @ [queued_row oi (ar_now w) (backup_operation server OpBackupCreate st bi pa)]"
proof -
  let ?row = "new_backup bi server name au (case ar_target w of None \<Rightarrow> Local | Some l \<Rightarrow> l) (ar_now w)"
  let ?new = "backup_operation server OpBackupCreate st bi pa"
  obtain b1 where b1: "insert_backup ?row b = Inr b1"
    using assms by (auto simp: create_for_def split: sum.splits)
  then have b1': "b1 = with_ops (\<lambda>d. d\<lparr>ops_backups := ops_backups d @ [bi]\<rparr>) (b\<lparr>ba_rows := ba_rows b @ [?row]\<rparr>)"
    and new: "bi \<notin> bk_id ` set (ba_rows b)"
    by (auto simp: insert_backup_def new_backup_def split: if_splits)
  obtain q where q: "snd (op_insert oi (ar_now w) ?new (ba_ops b1)) = Inr q" "x = bi" "y = op_id q"
    using assms b1 by (auto simp: create_for_def Let_def split_beta split: sum.splits)
  have ins: "operations (fst (op_insert oi (ar_now w) ?new (ba_ops b1))) = operations (ba_ops b1) @ [queued_row oi (ar_now w) ?new]"
    "op_id q = oi"
    using q(1) by (auto simp: op_insert_def Let_def split: if_splits dest: op_fetch_Inr)
  then show "x = bi" "y = oi" "bi \<notin> bk_id ` set (ba_rows b)"
    "\<exists>loc. ba_rows (fst (create_for w bi oi server name st au pa b)) = ba_rows b @ [new_backup bi server name au loc (ar_now w)]"
    "operations (ba_ops (fst (create_for w bi oi server name st au pa b))) =
       operations (ba_ops b) @ [queued_row oi (ar_now w) ?new]"
    using q b1 new by (auto simp: create_for_def Let_def split_beta b1' with_ops_def)
qed

definition open_runs :: "backups \<Rightarrow> op_row list" where
  "open_runs b = filter (\<lambda>q. is_open (op_state q)) (operations (ba_ops b))"

lemma start_restore_refused:
  assumes ok: "backups_ok b" and fresh: "bi \<notin> set (ops_uploads (ba_ops b))"
    and row: "r \<in> set (ba_rows b)" "bk_id r = backup" "bk_server r = server"
    and refused: "snd (start_restore w ri bi oi server backup safety st b) = Inl f"
  shows "ba_rows (fst (start_restore w ri bi oi server backup safety st b)) = ba_rows b \<and>
    open_runs (fst (start_restore w ri bi oi server backup safety st b)) = open_runs b"
proof -
  let ?new = "backup_operation server OpBackupRestore (Some st) backup None"
  let ?i = "op_insert ri (ar_now w) ?new (ba_ops b)"
  let ?b = "b\<lparr>ba_ops := fst ?i\<rparr>"
  show ?thesis
  proof (cases "snd ?i")
    case (Inl g)
    then show ?thesis using insert_refused [OF Inl] by (simp add: start_restore_def Let_def split_beta)
  next
    case (Inr q)
    then have ins: "operations (fst ?i) = operations (ba_ops b) @ [queued_row ri (ar_now w) ?new]" "op_id q = ri"
      "ops_uploads (fst ?i) = ops_uploads (ba_ops b)" "ri \<notin> op_id ` set (operations (ba_ops b))"
      by (auto simp: op_insert_def Let_def split: if_splits dest: op_fetch_Inr)
    obtain name where name: "safety = Some name"
      using refused Inr by (auto simp: start_restore_def Let_def split_beta split: option.splits)
    let ?c = "create_for w bi oi server name (Some st) False (Some ri) ?b"
    obtain g where g: "snd ?c = Inl g"
      using refused Inr name ins(2) by (auto simp: start_restore_def Let_def split_beta split: sum.splits)
    have "backups_ok ?b" using row by (intro ok_insert_run [OF ok]) (auto simp: backs_run)
    then have "fst ?c = ?b" using g fresh ins(3) by (intro create_for_refused) auto
    then have "fst (start_restore w ri bi oi server backup safety st b) =
        with_ops (\<lambda>d. fst (op_cancelled (ar_now w) ri d)) ?b"
      using Inr name ins(2) g by (simp add: start_restore_def Let_def split_beta)
    moreover have "filter (\<lambda>q. is_open (op_state q)) (operations (fst (op_cancelled (ar_now w) ri (fst ?i)))) = open_runs b"
    proof -
      have "update_where (\<lambda>r. op_id r = ri) g (operations (ba_ops b)) = operations (ba_ops b)" for g
        using ins(4) by (auto simp: update_where_def intro!: map_idI)
      then show ?thesis
        by (simp add: op_cancelled_def settle_rows ins(1) open_runs_def update_where_def queued_row_def settled_row_def)
    qed
    ultimately show ?thesis by (simp add: open_runs_def with_ops_def)
  qed
qed

definition untouched :: "backups \<Rightarrow> backups \<Rightarrow> bool" where
  "untouched b b' = (ba_rows b' = ba_rows b \<and> open_runs b' = open_runs b)"

lemma untouched_refl [simp]: "untouched b b"
  by (simp add: untouched_def)

lemma request_refused:
  assumes "backups_ok b" "bi \<notin> set (ops_uploads (ba_ops b))"
    and "snd (request_backup w bi oi server name st b) = Inl f"
  shows "untouched b (fst (request_backup w bi oi server name st b))"
proof -
  have refused: "fst (create_for w bi oi server n (Some st) False None b) = b"
    if "snd (create_for w bi oi server n (Some st) False None b) = Inl f" for n f
    using assms(1,2) that by (rule create_for_refused)
  have made: "one_backup (fst (create_for w bi oi server n (Some st) False None b)) x \<noteq> Inl f"
    if m: "snd (create_for w bi oi server n (Some st) False None b) = Inr (x, y)" for n x y
  proof -
    obtain loc where "ba_rows (fst (create_for w bi oi server n (Some st) False None b)) =
        ba_rows b @ [new_backup bi server n False loc (ar_now w)]" "x = bi"
      using create_for_makes(1,4) [OF m] by blast
    then have "find_backup (fst (create_for w bi oi server n (Some st) False None b)) x \<noteq> Inl g" for g
      by (auto simp: find_backup_def fetch_None new_backup_def split: option.splits)
    then show ?thesis by (auto simp: one_backup_def and_then_def split: sum.splits)
  qed
  show ?thesis using assms(3) refused made
    by (auto simp: request_backup_def Let_def split_beta and_then_def split: sum.splits)
qed

lemma restore_checks_row:
  assumes "restore_checks w server backup name b = Inr n"
  obtains r where "r \<in> set (ba_rows b)" "bk_id r = backup" "bk_server r = server"
proof -
  obtain r where "mine b server backup = Inr r" using assms by (auto simp: restore_checks_def and_then_Inr)
  from mine_row [OF this] that show thesis by blast
qed

lemma restore_refused:
  assumes ok: "backups_ok b" "bi \<notin> set (ops_uploads (ba_ops b))"
    and refused: "snd (restore_backup w ri bi oi server backup name st b) = Inl f"
  shows "untouched b (fst (restore_backup w ri bi oi server backup name st b))"
proof (cases "restore_checks w server backup name b")
  case (Inr n)
  obtain r where r: "r \<in> set (ba_rows b)" "bk_id r = backup" "bk_server r = server"
    by (rule restore_checks_row [OF Inr])
  show ?thesis using Inr refused start_restore_refused [OF ok r]
    by (simp add: restore_backup_def untouched_def)
qed (simp add: restore_backup_def)

lemma retry_refused:
  assumes ok: "backups_ok b" "bi \<notin> set (ops_uploads (ba_ops b))"
    and refused: "snd (retry_backup w ri bi oi server backup st b) = Inl f"
  shows "untouched b (fst (retry_backup w ri bi oi server backup st b))"
proof (cases "retry_checks server backup b")
  case (Inr p)
  obtain row k where p: "p = (row, k)" by (cases p)
  with Inr have "mine b server backup = Inr row"
    by (auto simp: retry_checks_def and_then_Inr split: option.splits if_splits)
  note row = mine_row [OF this]
  show ?thesis
  proof (cases k)
    case RunCreate
    let ?b = "if ar_resumable w then b else forget_session backup b"
    let ?i = "op_insert ri (ar_now w) (backup_operation server OpBackupCreate (Some st) backup None) (ba_ops ?b)"
    have same: "untouched b ?b" by (simp add: untouched_def forget_session_def with_ops_def open_runs_def)
    show ?thesis
    proof (cases "if ar_resumable w then Inr () else ar_space w")
      case (Inr u)
      then have "retry_backup w ri bi oi server backup st b =
          (?b\<lparr>ba_ops := fst ?i\<rparr>, and_then (relayed (snd ?i)) (\<lambda>q. Inr (op_id q, RunCreate)))"
        using \<open>retry_checks server backup b = Inr p\<close> p RunCreate
        by (simp add: retry_backup_def retry_create_def Let_def split_beta)
      moreover from this have "\<exists>g. snd ?i = Inl g"
        using refused by (cases "snd ?i") (simp_all add: relayed_def)
      ultimately show ?thesis using same insert_refused by auto
    qed (use \<open>retry_checks server backup b = Inr p\<close> p RunCreate in \<open>simp add: retry_backup_def retry_create_def\<close>)
  next
    case RunRestore
    then have eq: "retry_backup w ri bi oi server backup st b = retry_restore w ri bi oi server row st b"
      using Inr p by (simp add: retry_backup_def)
    have start: "untouched b (fst (start_restore w ri bi oi server (bk_id row) s st b))"
      if "snd (start_restore w ri bi oi server (bk_id row) s st b) = Inl g" for s g
      using start_restore_refused [OF ok _ refl _ that] row by (simp add: untouched_def)
    show ?thesis using refused start unfolding eq retry_restore_def
      by (auto simp: Let_def split_beta and_then_Inr and_then_def split: sum.splits if_splits)
  qed
qed (simp add: retry_backup_def)

lemma full_schedule:
  assumes "backup_quota b \<le> count_backups b server"
  shows "snd (scheduled_start w bi oi stamp survey server b) = ScheduleSkipped SkippedLimit"
    "ba_rows (fst (scheduled_start w bi oi stamp survey server b)) = ba_rows b"
    "ba_ops (fst (scheduled_start w bi oi stamp survey server b)) = ba_ops b"
    "ba_setting (fst (scheduled_start w bi oi stamp survey server b)) = ba_setting b"
proof -
  have same: "count_backups (reserve server n b) server = count_backups b server"
    "backup_quota (reserve server n b) = backup_quota b" for n
    by (simp_all add: count_backups_def backup_quota_def reserve_def change_schedule_def)
  show "snd (scheduled_start w bi oi stamp survey server b) = ScheduleSkipped SkippedLimit"
    "ba_rows (fst (scheduled_start w bi oi stamp survey server b)) = ba_rows b"
    "ba_ops (fst (scheduled_start w bi oi stamp survey server b)) = ba_ops b"
    "ba_setting (fst (scheduled_start w bi oi stamp survey server b)) = ba_setting b"
    unfolding scheduled_start_def Let_def same if_P [OF assms]
    by (simp_all add: record_run_def reserve_def change_schedule_def)
qed

text \<open>Ticks of the scheduler one after the other, each at a server that is due.\<close>

fun skipped_ticks :: "(around \<times> id \<times> id \<times> ustr \<times> moment option result) list \<Rightarrow> id \<Rightarrow> backups \<Rightarrow> backups" where
  "skipped_ticks [] server b = b"
| "skipped_ticks ((w, bi, oi, stamp, survey) # ticks) server b =
     skipped_ticks ticks server (fst (scheduled_start w bi oi stamp survey server b))"

lemma full_forever:
  assumes "backup_quota b \<le> count_backups b server"
  shows "ba_rows (skipped_ticks ticks server b) = ba_rows b \<and>
    backup_quota (skipped_ticks ticks server b) \<le> count_backups (skipped_ticks ticks server b) server"
  using assms
proof (induction ticks arbitrary: b)
  case (Cons t ticks)
  obtain w bi oi stamp survey where t: "t = (w, bi, oi, stamp, survey)" by (cases t)
  let ?b = "fst (scheduled_start w bi oi stamp survey server b)"
  have "backup_quota ?b \<le> count_backups ?b server"
    using Cons.prems full_schedule [OF Cons.prems, of w bi oi stamp survey]
    by (simp add: count_backups_def backup_quota_def)
  from Cons.IH [OF this] show ?case using full_schedule [OF Cons.prems] by (simp add: t)
qed simp

lemma restore_has_copy:
  assumes fresh: "\<forall>q \<in> set (operations (ba_ops b)). op_parent q \<noteq> Some ri"
    and made: "restore_backup w ri bi oi server backup name st b = (b', Inr (x, y))"
  shows "x = ri \<and> y = Some (bi, oi) \<and> (\<exists>q. safety_run_of b' ri = Some q \<and> op_id q = oi \<and> op_state q = Queued)"
proof -
  obtain n where n: "restore_checks w server backup name b = Inr n"
    using made by (auto simp: restore_backup_def split: sum.splits)
  let ?new = "backup_operation server OpBackupRestore (Some st) backup None"
  let ?i = "op_insert ri (ar_now w) ?new (ba_ops b)"
  let ?b = "b\<lparr>ba_ops := fst ?i\<rparr>"
  let ?c = "create_for w bi oi server n (Some st) False (Some ri) ?b"
  have start: "start_restore w ri bi oi server backup (Some n) st b = (b', Inr (x, y))"
    using made n by (simp add: restore_backup_def)
  then obtain q where q: "snd ?i = Inr q"
    by (cases "snd ?i") (simp_all add: start_restore_def Let_def split_beta)
  then have ins: "operations (fst ?i) = operations (ba_ops b) @ [queued_row ri (ar_now w) ?new]" "op_id q = ri"
    by (auto simp: op_insert_def Let_def split: if_splits dest: op_fetch_Inr)
  obtain c r where c: "snd ?c = Inr (c, r)" and b': "b' = dismiss_run (ar_now w) r (fst ?c)" "x = ri" "y = Some (c, r)"
  proof (cases "snd ?c")
    case (Inl f)
    then have "snd (start_restore w ri bi oi server backup (Some n) st b) = Inl f"
      using q ins(2) by (simp add: start_restore_def Let_def split_beta)
    with start show thesis by simp
  next
    case (Inr cr)
    obtain c r where cr: "cr = (c, r)" by (cases cr)
    have "start_restore w ri bi oi server backup (Some n) st b =
        (dismiss_run (ar_now w) r (fst ?c), Inr (ri, Some (c, r)))"
      using q ins(2) Inr cr by (simp add: start_restore_def Let_def split_beta)
    from trans [OF start [symmetric] this]
    have "b' = dismiss_run (ar_now w) r (fst ?c)" "x = ri" "y = Some (c, r)" by (simp_all only: prod.inject sum.inject)
    with Inr cr show thesis by (intro that [of c r]) (simp_all only:)
  qed
  note makes = create_for_makes [OF c]
  let ?q = "queued_row oi (ar_now w) (backup_operation server OpBackupCreate (Some st) bi (Some ri))"
  let ?f = "\<lambda>p. p\<lparr>op_dismissed_at := Some (ar_now w)\<rparr>"
  have ops: "operations (ba_ops (fst ?c)) = (operations (ba_ops b) @ [queued_row ri (ar_now w) ?new]) @ [?q]"
    using makes(5) ins(1) by simp
  obtain p where p: "operations (ba_ops b') = update_where p ?f (operations (ba_ops (fst ?c)))"
  proof -
    have "operations (ba_ops b') = update_where (\<lambda>_. False) ?f (operations (ba_ops (fst ?c))) \<or>
      operations (ba_ops b') = update_where (\<lambda>q. op_id q = r \<and> op_dismissed_at q = None) ?f (operations (ba_ops (fst ?c)))"
      unfolding b' by (simp add: dismiss_run_def with_ops_def op_dismiss_def Let_def split_beta write_op_rows update_where_def split: sum.split)
    then show thesis using that by blast
  qed
  have "filter (\<lambda>q. op_parent q = Some ri \<and> op_kind q = OpBackupCreate) (operations (ba_ops b')) = [if p ?q then ?f ?q else ?q]"
  proof -
    have none: "filter (\<lambda>q. op_parent q = Some ri \<and> op_kind q = OpBackupCreate) (update_where p ?f (operations (ba_ops b))) = []"
    proof -
      have "op_parent (if p r then ?f r else r) = op_parent r" for r by simp
      with fresh have "op_parent q \<noteq> Some ri" if "q \<in> set (update_where p ?f (operations (ba_ops b)))" for q
        using that unfolding in_update by metis
      then show ?thesis by (auto simp: filter_empty_conv)
    qed
    have app: "update_where p ?f (xs @ ys) = update_where p ?f xs @ update_where p ?f ys" for xs ys
      by (simp add: update_where_def)
    show ?thesis unfolding p ops app filter_append none
      by (simp add: update_where_def queued_row_def backup_operation_def)
  qed
  then have "safety_run_of b' ri = Some (if p ?q then ?f ?q else ?q)"
    by (simp add: safety_run_of_def order_by_desc_def)
  moreover have "op_id (if p ?q then ?f ?q else ?q) = oi" "op_state (if p ?q then ?f ?q else ?q) = Queued"
    by (simp_all add: queued_row_def)
  ultimately show ?thesis using b' makes(1,2) by blast
qed

lemma restore_without_copy:
  assumes "safety_run_of b run = Some q" "op_state q \<noteq> Done"
  shows "snd (restore_waits now run b) = Some Gone"
    "operations (ba_ops (fst (restore_waits now run b))) = update_where (\<lambda>r. op_id r = run)
       (settled_row now Failed (Some \<lparr>err_code = ''safety_backup_failed'', err_step = StepFilesystem\<rparr>)) (operations (ba_ops b))"
  using assms by (simp_all add: restore_waits_def with_ops_def op_fail_def settle_rows)

end
