(* ===== verification/Letters.thy ===== *)
theory Letters
  imports Model
begin

text \<open>
  The mails of the panel: what there is to write (\<open>mail/message.rs\<close>), how it becomes HTML and text
  (\<open>mail/render.rs\<close>), and what the provider's refusals mean (\<open>mail/resend.rs\<close>). The templates are
  arguments, and so is the calendar of the \<open>time\<close> crate. Of an error the sentence is kept only
  where the program reads it again: a used up quota.
\<close>

subsection \<open>Kinds and recipients (\<open>mail/message.rs\<close>)\<close>

datatype mail_kind =
    KindVerifyEmail | KindAddressTaken | KindAwaitingReview | KindApproved | KindRejected
  | KindResetPassword | KindPasswordChanged | KindTest

definition mail_kind_all :: "mail_kind list" where
  "mail_kind_all = [KindVerifyEmail, KindAddressTaken, KindAwaitingReview, KindApproved, KindRejected,
     KindResetPassword, KindPasswordChanged, KindTest]"

fun mail_kind_str :: "mail_kind \<Rightarrow> ustr" where
  "mail_kind_str KindVerifyEmail = lit ''verify_email''"
| "mail_kind_str KindAddressTaken = lit ''address_already_registered''"
| "mail_kind_str KindAwaitingReview = lit ''account_awaiting_review''"
| "mail_kind_str KindApproved = lit ''account_approved''"
| "mail_kind_str KindRejected = lit ''account_rejected''"
| "mail_kind_str KindResetPassword = lit ''reset_password''"
| "mail_kind_str KindPasswordChanged = lit ''password_changed''"
| "mail_kind_str KindTest = lit ''test''"

interpretation mail_kind: wire_enum mail_kind_all mail_kind_str
proof
  show "v \<in> set mail_kind_all" for v by (cases v) (simp_all add: mail_kind_all_def)
qed (simp add: mail_kind_all_def lit_def)

fun mail_subject :: "mail_kind \<Rightarrow> ustr" where
  "mail_subject KindVerifyEmail = lit ''Confirm your email address''"
| "mail_subject KindAddressTaken = lit ''Someone tried to sign up with your address''"
| "mail_subject KindAwaitingReview = lit ''A new account is waiting for you''"
| "mail_subject KindApproved = lit ''Your account is ready''"
| "mail_subject KindRejected = lit ''About your sign-up''"
| "mail_subject KindResetPassword = lit ''Reset your password''"
| "mail_subject KindPasswordChanged = lit ''Your password was changed''"
| "mail_subject KindTest = lit ''Test mail from your panel''"

fun mail_preheader :: "mail_kind \<Rightarrow> ustr" where
  "mail_preheader KindVerifyEmail = lit ''Confirm your address to finish signing up.''"
| "mail_preheader KindAddressTaken =
     lit ''Your account is untouched '' @ [8212] @ lit '' here is what happened and what to do.''"
| "mail_preheader KindAwaitingReview = lit ''Somebody signed up and is waiting to be let in.''"
| "mail_preheader KindApproved = lit ''You can sign in now.''"
| "mail_preheader KindRejected = lit ''Your sign-up was not accepted.''"
| "mail_preheader KindResetPassword = lit ''Set a new password '' @ [8212] @ lit '' the link works once.''"
| "mail_preheader KindPasswordChanged = lit ''Your panel password was changed.''"
| "mail_preheader KindTest = lit ''If you can read this, your Resend setup works.''"

record recipient =
  rc_address :: ustr
  rc_user :: "id option"

text \<open>Durations in seconds.\<close>

datatype mail_message =
    MailVerify recipient (mm_name: ustr) (mm_token: ustr) nat
  | MailAddressTaken recipient ustr
  | MailAwaitingReview recipient ustr ustr moment
  | MailApproved recipient ustr
  | MailRejected recipient ustr
  | MailReset recipient ustr ustr nat
  | MailPasswordChanged recipient ustr moment
  | MailTest recipient

fun kind_of :: "mail_message \<Rightarrow> mail_kind" where
  "kind_of (MailVerify _ _ _ _) = KindVerifyEmail"
| "kind_of (MailAddressTaken _ _) = KindAddressTaken"
| "kind_of (MailAwaitingReview _ _ _ _) = KindAwaitingReview"
| "kind_of (MailApproved _ _) = KindApproved"
| "kind_of (MailRejected _ _) = KindRejected"
| "kind_of (MailReset _ _ _ _) = KindResetPassword"
| "kind_of (MailPasswordChanged _ _ _) = KindPasswordChanged"
| "kind_of (MailTest _) = KindTest"

fun recipient_of :: "mail_message \<Rightarrow> recipient" where
  "recipient_of (MailVerify t _ _ _) = t"
| "recipient_of (MailAddressTaken t _) = t"
| "recipient_of (MailAwaitingReview t _ _ _) = t"
| "recipient_of (MailApproved t _) = t"
| "recipient_of (MailRejected t _) = t"
| "recipient_of (MailReset t _ _ _) = t"
| "recipient_of (MailPasswordChanged t _ _) = t"
| "recipient_of (MailTest t) = t"

subsection \<open>Errors (\<open>mail/resend.rs\<close>)\<close>

datatype mail_error =
    MailNotConfigured | NoLinkBase | Braked | QuotaReached ustr | KeyRejected | SenderRejected | MailRefused
  | Upstream | MailUnreadable

fun mail_error_code :: "mail_error \<Rightarrow> string" where
  "mail_error_code MailNotConfigured = ''mail_not_configured''"
| "mail_error_code NoLinkBase = ''mail_no_link_base''"
| "mail_error_code Braked = ''mail_rate_limited''"
| "mail_error_code (QuotaReached _) = ''mail_quota_reached''"
| "mail_error_code KeyRejected = ''mail_key_rejected''"
| "mail_error_code SenderRejected = ''mail_sender_rejected''"
| "mail_error_code MailRefused = ''mail_refused''"
| "mail_error_code Upstream = ''mail_upstream''"
| "mail_error_code MailUnreadable = ''mail_unreadable''"

fun mail_error_status :: "mail_error \<Rightarrow> nat" where
  "mail_error_status MailNotConfigured = 409"
| "mail_error_status NoLinkBase = 409"
| "mail_error_status Braked = 429"
| "mail_error_status (QuotaReached _) = 429"
| "mail_error_status _ = 502"

definition transient :: "mail_error \<Rightarrow> bool" where
  "transient e = (case e of QuotaReached _ \<Rightarrow> True | Upstream \<Rightarrow> True | _ \<Rightarrow> False)"

definition until_tomorrow :: "mail_error \<Rightarrow> bool" where
  "until_tomorrow e = (case e of QuotaReached t \<Rightarrow> contains (lit ''daily'') t | _ \<Rightarrow> False)"

definition DAILY_TEXT :: ustr where
  "DAILY_TEXT = lit ''Resend's daily allowance is used up (free tier: 100 a day). The mail waits until tomorrow.''"

definition MONTHLY_TEXT :: ustr where
  "MONTHLY_TEXT = lit ''Resend's monthly allowance is used up (free tier: 3,000). No mail goes out until the month turns.''"

definition shorten_fault :: "ustr \<Rightarrow> ustr" where
  "shorten_fault s = (let out = take 200 s in if out \<noteq> [] \<and> last out \<noteq> 46 then out @ [46] else out)"

text \<open>The body is given decoded: the id of a sent mail, and the name and the message of a fault.\<close>

definition interpret_answer :: "(ustr \<Rightarrow> ustr) \<Rightarrow> nat \<Rightarrow> ustr option \<Rightarrow> string \<Rightarrow> ustr \<Rightarrow> mail_error + ustr" where
  "interpret_answer lower st sent name message =
     (if 200 \<le> st \<and> st < 300
      then (case sent of Some i \<Rightarrow> if i \<noteq> [] then Inr i else Inl MailUnreadable | None \<Rightarrow> Inl MailUnreadable)
      else (let low = lower (shorten_fault message) in
        Inl (if st \<in> {401, 403} \<and> name = ''missing_api_key'' then KeyRejected
             else if st \<in> {401, 403} \<and> name = ''restricted_api_key'' then KeyRejected
             else if st = 401 then KeyRejected
             else if st = 403 \<and> contains (lit ''not verified'') low then SenderRejected
             else if st = 403 \<and> contains (lit ''own email address'') low then SenderRejected
             else if st = 403 \<and> name = ''invalid_api_key'' then KeyRejected
             else if st = 422 \<and> name = ''invalid_from_address'' then SenderRejected
             else if st = 429 \<and> name = ''daily_quota_exceeded'' then QuotaReached DAILY_TEXT
             else if st = 429 \<and> name = ''monthly_quota_exceeded'' then QuotaReached MONTHLY_TEXT
             else if st = 429 then Upstream
             else if st = 451 then MailRefused
             else if st = 409 \<and> name = ''concurrent_idempotent_requests'' then Upstream
             else if st = 409 then MailRefused
             else if 500 \<le> st \<and> st \<le> 599 then Upstream
             else MailRefused)))"

definition parse_api_key :: "ustr \<Rightarrow> ustr option" where
  "parse_api_key s = (let t = trim s in
     if t = [] \<or> list_ex (\<lambda>c. is_whitespace c \<or> is_control c) t then None else Some t)"

subsection \<open>What a mail says\<close>

record sender =
  se_name :: ustr
  se_address :: ustr
  se_reply_to :: "ustr option"
  se_link_base :: "ustr option"

definition sender_header :: "sender \<Rightarrow> ustr" where
  "sender_header s = (if se_name s = [] then se_address s else se_name s @ [32, 60] @ se_address s @ [62])"

definition sender_contact :: "sender \<Rightarrow> ustr" where
  "sender_contact s = (case se_reply_to s of Some r \<Rightarrow> r | None \<Rightarrow> se_address s)"

definition utf8 :: "nat \<Rightarrow> nat list" where
  "utf8 c = (if c < 128 then [c]
     else if c < 2048 then [192 + c div 64, 128 + c mod 64]
     else if c < 65536 then [224 + c div 4096, 128 + c div 64 mod 64, 128 + c mod 64]
     else [240 + c div 262144, 128 + c div 4096 mod 64, 128 + c div 64 mod 64, 128 + c mod 64])"

definition utf8_bytes :: "ustr \<Rightarrow> nat list" where
  "utf8_bytes s = concat (map utf8 s)"

definition is_unreserved :: "nat \<Rightarrow> bool" where
  "is_unreserved b = (65 \<le> b \<and> b \<le> 90 \<or> 97 \<le> b \<and> b \<le> 122 \<or> 48 \<le> b \<and> b \<le> 57 \<or> b \<in> {45, 95, 46, 126})"

definition upper_hex :: "nat \<Rightarrow> nat" where
  "upper_hex n = (if n < 10 then 48 + n else 55 + n)"

definition encode_byte :: "nat \<Rightarrow> ustr" where
  "encode_byte b = (if is_unreserved b then [b] else [37, upper_hex (b div 16), upper_hex (b mod 16)])"

definition encode_token :: "ustr \<Rightarrow> ustr" where
  "encode_token token = concat (map encode_byte (utf8_bytes token))"

definition spell :: "nat \<Rightarrow> ustr" where
  "spell seconds =
     (let minutes = seconds div 60;
          (n, unit) = (if minutes mod (60 * 24) = 0 \<and> 60 * 48 < minutes then (minutes div (60 * 24), lit ''day'')
            else if minutes mod 60 = 0 \<and> 60 \<le> minutes then (minutes div 60, lit ''hour'')
            else (max minutes 1, lit ''minute''))
      in if n = 1 then lit ''1 '' @ unit else digits_of n @ [32] @ unit @ lit ''s'')"

definition pad_zeros :: "nat \<Rightarrow> nat \<Rightarrow> ustr" where
  "pad_zeros width n = replicate (width - length (digits_of n)) 48 @ digits_of n"

text \<open>The calendar gives year, month and day of a moment.\<close>

definition moment_text :: "(moment \<Rightarrow> nat \<times> nat \<times> nat) \<Rightarrow> moment \<Rightarrow> ustr" where
  "moment_text calendar t =
     (let (year, month, day) = calendar t; seconds = nat (t mod 86400)
      in pad_zeros 4 year @ [45] @ pad_zeros 2 month @ [45] @ pad_zeros 2 day @ lit '' at '' @
         pad_zeros 2 (seconds div 3600) @ [58] @ pad_zeros 2 (seconds mod 3600 div 60) @ lit '' UTC'')"

definition link_base_of :: "ustr option \<Rightarrow> mail_error + ustr" where
  "link_base_of base = (case base of Some b \<Rightarrow> Inr b | None \<Rightarrow> Inl NoLinkBase)"

record mail_values =
  va_slots :: "(ustr \<times> ustr) list"
  va_action :: "ustr option"
  va_footer :: ustr

definition mail_footer :: "mail_message \<Rightarrow> ustr option \<Rightarrow> ustr" where
  "mail_footer m base =
     (let reason = (if kind_of m \<in> {KindVerifyEmail, KindAddressTaken}
          then lit ''because this address was used to sign up there''
          else lit ''because an account there uses this address'')
      in case base of
           Some b \<Rightarrow> lit ''This mail comes from the Minecraft panel at '' @ b @ lit '', '' @ reason @ [46]
         | None \<Rightarrow> lit ''This mail comes from a Minecraft panel, '' @ reason @ [46])"

definition mail_slots :: "(moment \<Rightarrow> nat \<times> nat \<times> nat) \<Rightarrow> mail_message \<Rightarrow> sender \<Rightarrow> moment \<Rightarrow>
    mail_error + (ustr \<times> ustr) list \<times> ustr option" where
  "mail_slots cal m s now =
     (let base = link_base_of (se_link_base s) in
      case m of
        MailVerify _ name token valid \<Rightarrow> and_then base (\<lambda>b.
          let url = b @ lit ''/verify-email#'' @ encode_token token in
          Inr ([(lit ''username'', name), (lit ''valid_for'', spell valid), (lit ''action_url'', url)], Some url))
      | MailAddressTaken _ name \<Rightarrow> and_then base (\<lambda>b.
          let url = b @ lit ''/login'' in
          Inr ([(lit ''username'', name), (lit ''action_url'', url), (lit ''forgot_url'', b @ lit ''/forgot-password'')], Some url))
      | MailAwaitingReview _ applicant email t \<Rightarrow> and_then base (\<lambda>b.
          let url = b @ lit ''/admin/registrations'' in
          Inr ([(lit ''applicant'', applicant), (lit ''applicant_email'', email), (lit ''when'', moment_text cal t),
                (lit ''action_url'', url)], Some url))
      | MailApproved _ name \<Rightarrow> and_then base (\<lambda>b.
          let url = b @ lit ''/login'' in Inr ([(lit ''username'', name), (lit ''action_url'', url)], Some url))
      | MailRejected _ name \<Rightarrow> Inr ([(lit ''username'', name)], None)
      | MailReset _ name token valid \<Rightarrow> and_then base (\<lambda>b.
          let url = b @ lit ''/reset-password#'' @ encode_token token in
          Inr ([(lit ''username'', name), (lit ''valid_for'', spell valid), (lit ''action_url'', url)], Some url))
      | MailPasswordChanged _ name t \<Rightarrow>
          Inr ([(lit ''username'', name), (lit ''when'', moment_text cal t), (lit ''contact'', sender_contact s)], None)
      | MailTest _ \<Rightarrow> Inr ([(lit ''from'', sender_header s), (lit ''when'', moment_text cal now)], None))"

definition message_values :: "(moment \<Rightarrow> nat \<times> nat \<times> nat) \<Rightarrow> mail_message \<Rightarrow> sender \<Rightarrow> moment \<Rightarrow>
    mail_error + mail_values" where
  "message_values cal m s now = and_then (mail_slots cal m s now) (\<lambda>(slots, action).
     Inr \<lparr>va_slots = slots, va_action = action, va_footer = mail_footer m (se_link_base s)\<rparr>)"

subsection \<open>Rendering (\<open>mail/render.rs\<close>)\<close>

definition TEXT_WIDTH :: nat where "TEXT_WIDTH = 78"

definition escape_char :: "nat \<Rightarrow> ustr" where
  "escape_char c = (if c = 38 then lit ''&amp;'' else if c = 60 then lit ''&lt;'' else if c = 62 then lit ''&gt;''
     else if c = 34 then lit ''&quot;'' else if c = 39 then lit ''&#39;'' else [c])"

definition escape_html :: "ustr \<Rightarrow> ustr" where
  "escape_html s = concat (map escape_char s)"

text \<open>\<open>find\<close> of two equal characters in a row, as what stands before and behind them.\<close>

fun find_pair :: "nat \<Rightarrow> ustr \<Rightarrow> (ustr \<times> ustr) option" where
  "find_pair c (x # y # r) =
     (if x = c \<and> y = c then Some ([], r) else map_option (\<lambda>(a, b). (x # a, b)) (find_pair c (y # r)))"
| "find_pair c _ = None"

lemma find_pair_Some: "find_pair c s = Some (a, b) \<Longrightarrow> s = a @ [c, c] @ b"
  by (induction c s arbitrary: a b rule: find_pair.induct) (auto split: if_splits)

function fill :: "(ustr \<times> ustr) list \<Rightarrow> ustr \<Rightarrow> ustr" where
  "fill slots template =
     (case find_pair 123 template of
        None \<Rightarrow> template
      | Some (before, rest) \<Rightarrow>
          (case find_pair 125 rest of
             None \<Rightarrow> template
           | Some (name, rest) \<Rightarrow>
               before @ (case map_of slots name of Some v \<Rightarrow> v | None \<Rightarrow> [123, 123] @ name @ [125, 125]) @ fill slots rest))"
  by auto
termination
  by (relation "measure (\<lambda>(slots, t). length t)") (auto dest!: find_pair_Some)

declare fill.simps [simp del]

fun split_where :: "(nat \<Rightarrow> bool) \<Rightarrow> ustr \<Rightarrow> ustr list" where
  "split_where P [] = [[]]"
| "split_where P (x # xs) =
     (if P x then [] # split_where P xs
      else case split_where P xs of [] \<Rightarrow> [[x]] | p # ps \<Rightarrow> (x # p) # ps)"

definition split_whitespace :: "ustr \<Rightarrow> ustr list" where
  "split_whitespace s = filter (\<lambda>p. p \<noteq> []) (split_where is_whitespace s)"

fun flow_words :: "nat \<Rightarrow> ustr list \<Rightarrow> ustr" where
  "flow_words column [] = []"
| "flow_words column (word # rest) =
     (if column = 0 then word @ flow_words (length word) rest
      else if column + 1 + length word \<le> TEXT_WIDTH then 32 # word @ flow_words (column + 1 + length word) rest
      else 10 # word @ flow_words (length word) rest)"

definition flow :: "ustr \<Rightarrow> ustr" where
  "flow paragraph = flow_words 0 (split_whitespace paragraph)"

function split_blank :: "ustr \<Rightarrow> ustr list" where
  "split_blank s = (case find_pair 10 s of None \<Rightarrow> [s] | Some (a, b) \<Rightarrow> a # split_blank b)"
  by auto
termination
  by (relation "measure length") (auto dest!: find_pair_Some)

declare split_blank.simps [simp del]

definition wrap_text :: "ustr \<Rightarrow> ustr" where
  "wrap_text s = join_with [10, 10] (filter (\<lambda>p. p \<noteq> []) (map flow (split_blank s)))"

text \<open>The templates: the two shells, the link for copying by hand, and per kind the two bodies.\<close>

record templates =
  te_shell_html :: ustr
  te_shell_text :: ustr
  te_manual :: ustr
  te_html :: "mail_kind \<Rightarrow> ustr"
  te_text :: "mail_kind \<Rightarrow> ustr"

record rendered =
  re_subject :: ustr
  re_html :: ustr
  re_text :: ustr

definition assemble :: "templates \<Rightarrow> mail_kind \<Rightarrow> mail_values \<Rightarrow> rendered" where
  "assemble te k v =
     (let escaped = map (\<lambda>(n, x). (n, escape_html x)) (va_slots v);
          manual = (case va_action v of Some url \<Rightarrow> fill [(lit ''action_url'', escape_html url)] (te_manual te) | None \<Rightarrow> []);
          html = fill [(lit ''subject'', escape_html (mail_subject k)), (lit ''preheader'', escape_html (mail_preheader k)),
                    (lit ''body'', fill escaped (te_html te k)), (lit ''footer'', escape_html (va_footer v)),
                    (lit ''manual_link'', manual)] (te_shell_html te);
          plain = fill [(lit ''body'', wrap_text (fill (va_slots v) (te_text te k))), (lit ''footer'', wrap_text (va_footer v))]
                    (te_shell_text te)
      in \<lparr>re_subject = mail_subject k, re_html = html, re_text = plain\<rparr>)"

definition render :: "templates \<Rightarrow> (moment \<Rightarrow> nat \<times> nat \<times> nat) \<Rightarrow> mail_message \<Rightarrow> sender \<Rightarrow> moment \<Rightarrow>
    mail_error + rendered" where
  "render te cal m s now = and_then (message_values cal m s now) (\<lambda>v. Inr (assemble te (kind_of m) v))"


subsection \<open>What a value can do to a mail\<close>

definition markup :: "nat set" where "markup = {60, 62, 34, 39}"

lemma escape_char_plain: "set (escape_char c) \<inter> markup = {}"
  by (auto simp: escape_char_def markup_def lit_def split: if_splits)

lemma escape_plain: "set (escape_html s) \<inter> markup = {}"
  using escape_char_plain by (auto simp: escape_html_def)

lemma escape_char_inj: "escape_char c @ r = escape_char d @ r' \<Longrightarrow> c = d \<and> r = r'"
  by (simp add: escape_char_def lit_def split: if_splits)

lemma escape_inj: "escape_html s = escape_html t \<Longrightarrow> s = t"
proof (induction s arbitrary: t)
  case Nil
  have "escape_char c \<noteq> []" for c by (simp add: escape_char_def lit_def)
  with Nil show ?case by (cases t) (auto simp: escape_html_def)
next
  case (Cons c s)
  have ne: "escape_char c \<noteq> []" by (simp add: escape_char_def lit_def)
  obtain d t' where t: "t = d # t'" using Cons.prems ne by (cases t) (auto simp: escape_html_def)
  with Cons.prems escape_char_inj [of c "escape_html s" d "escape_html t'"] Cons.IH [of t'] show ?case
    by (simp add: escape_html_def)
qed

text \<open>The markup of a filled template is that of its text and of the values put in.\<close>

definition tags :: "ustr \<Rightarrow> ustr" where
  "tags s = filter (\<lambda>c. c \<in> markup) s"

lemma tags_simps [simp]: "tags [] = []" "tags (s @ t) = tags s @ tags t"
  "tags (c # s) = (if c \<in> markup then c # tags s else tags s)"
  by (simp_all add: tags_def)

definition alike :: "(ustr \<times> ustr) list \<Rightarrow> (ustr \<times> ustr) list \<Rightarrow> bool" where
  "alike s t = list_all2 (\<lambda>a b. fst a = fst b \<and> tags (snd a) = tags (snd b)) s t"

lemma alike_lookup: "alike s t \<Longrightarrow> rel_option (\<lambda>v w. tags v = tags w) (map_of s n) (map_of t n)"
  unfolding alike_def by (induction rule: list_all2_induct) auto

lemma fill_alike: "alike s s' \<Longrightarrow> tags (fill s t) = tags (fill s' t)"
proof (induction s t rule: fill.induct)
  case (1 s t)
  show ?case
  proof (cases "find_pair 123 t")
    case None
    then show ?thesis by (simp add: fill.simps [of _ t])
  next
    case (Some p)
    obtain a b where p: "p = (a, b)" by (cases p)
    show ?thesis
    proof (cases "find_pair 125 b")
      case None
      with Some p show ?thesis by (simp add: fill.simps [of _ t])
    next
      case inner: (Some q)
      obtain n c where q: "q = (n, c)" by (cases q)
      have "tags (fill s c) = tags (fill s' c)" using 1 Some p inner q by simp
      moreover have "rel_option (\<lambda>v w. tags v = tags w) (map_of s n) (map_of s' n)"
        using "1.prems" by (rule alike_lookup)
      ultimately show ?thesis
        using Some p inner q by (cases "map_of s n"; cases "map_of s' n") (simp_all add: fill.simps [of _ t])
    qed
  qed
qed

lemma tags_plain: "set s \<inter> markup = {} \<Longrightarrow> tags s = []"
  by (auto simp: tags_def filter_empty_conv)

lemma tags_escape [simp]: "tags (escape_html s) = []"
  by (rule tags_plain) (rule escape_plain)

lemma escaped_alike: "map fst s = map fst t \<Longrightarrow>
    alike (map (\<lambda>(n, x). (n, escape_html x)) s) (map (\<lambda>(n, x). (n, escape_html x)) t)"
proof (induction s arbitrary: t)
  case (Cons a s)
  then obtain b t' where "t = b # t'" "map fst s = map fst t'" "fst a = fst b" by (cases t) auto
  with Cons.IH show ?case by (cases a; cases b) (simp add: alike_def)
qed (simp add: alike_def)

lemma assemble_alike:
  assumes "map fst (va_slots v) = map fst (va_slots w)" "(va_action v = None) = (va_action w = None)"
  shows "tags (re_html (assemble te k v)) = tags (re_html (assemble te k w))"
proof -
  have body: "tags (fill (map (\<lambda>(n, x). (n, escape_html x)) (va_slots v)) t) =
      tags (fill (map (\<lambda>(n, x). (n, escape_html x)) (va_slots w)) t)" for t
    by (intro fill_alike escaped_alike assms(1))
  have link: "tags (fill [(lit ''action_url'', escape_html u)] t) = tags (fill [(lit ''action_url'', escape_html u')] t)" for u u' t
    by (intro fill_alike) (simp add: alike_def)
  show ?thesis
    unfolding assemble_def Let_def rendered.simps
    using assms(2) body link by (intro fill_alike) (auto simp: alike_def split: option.split)
qed

lemma values_alike:
  assumes "message_values cal m s now = Inr v" "message_values cal' m' s' now' = Inr v'" "kind_of m = kind_of m'"
  shows "map fst (va_slots v) = map fst (va_slots v')" "(va_action v = None) = (va_action v' = None)"
  using assms
  by (cases m; cases m'; auto simp: message_values_def mail_slots_def Let_def and_then_Inr)+

text \<open>Flowed text has the words of its paragraph, on lines no wider than \<open>TEXT_WIDTH\<close> where a word allows it.\<close>

lemma split_where_not_Nil [simp]: "split_where P s \<noteq> []"
  by (induction s) (auto split: list.splits)

lemma split_where_append: "\<forall>c \<in> set w. \<not> P c \<Longrightarrow> P c \<Longrightarrow> split_where P (w @ c # s) = w # split_where P s"
  by (induction w) auto

lemma split_where_plain: "\<forall>c \<in> set w. \<not> P c \<Longrightarrow> split_where P w = [w]"
  by (induction w) auto

lemma split_where_pieces: "p \<in> set (split_where P s) \<Longrightarrow> c \<in> set p \<Longrightarrow> \<not> P c"
proof (induction s arbitrary: p)
  case (Cons x s)
  obtain q qs where q: "split_where P s = q # qs" by (cases "split_where P s") auto
  show ?case using Cons.prems Cons.IH [of q] Cons.IH [of p] by (auto simp: q split: if_splits)
qed simp

lemma words_plain: "w \<in> set (split_whitespace s) \<Longrightarrow> w \<noteq> [] \<and> (\<forall>c \<in> set w. \<not> is_whitespace c)"
  using split_where_pieces by (auto simp: split_whitespace_def)

lemma flow_words_words:
  "\<forall>w \<in> set ws. w \<noteq> [] \<and> (\<forall>c \<in> set w. \<not> is_whitespace c) \<Longrightarrow> v \<noteq> [] \<Longrightarrow>
    \<forall>c \<in> set v. \<not> is_whitespace c \<Longrightarrow> 0 < column \<Longrightarrow> split_whitespace (v @ flow_words column ws) = v # ws"
proof (induction ws arbitrary: v column)
  case Nil
  then show ?case by (simp add: split_whitespace_def split_where_plain)
next
  case (Cons w ws)
  have space: "is_whitespace 32" "is_whitespace 10" by (simp_all add: is_whitespace_def)
  have sep: "split_whitespace (v @ c # s) = v # split_whitespace s" if "is_whitespace c" for c s
    using Cons.prems that by (simp add: split_whitespace_def split_where_append)
  have "split_whitespace (w @ flow_words k ws) = w # ws" if "0 < k" for k
    using Cons.prems that by (intro Cons.IH) auto
  with Cons.prems sep [OF space(1)] sep [OF space(2)] show ?case by auto
qed

lemma flow_keeps_words: "split_whitespace (flow p) = split_whitespace p"
proof (cases "split_whitespace p")
  case Nil
  then show ?thesis by (simp add: flow_def) (simp add: split_whitespace_def)
next
  case (Cons w ws)
  have "split_whitespace (w @ flow_words (length w) ws) = w # ws"
    using words_plain [of _ p] Cons by (intro flow_words_words) auto
  with Cons show ?thesis by (simp add: flow_def)
qed

lemma flow_words_lines:
  "\<forall>w \<in> set ws. w \<noteq> [] \<and> 10 \<notin> set w \<and> 32 \<notin> set w \<Longrightarrow> 10 \<notin> set v \<Longrightarrow> length v = column \<Longrightarrow> 0 < column \<Longrightarrow>
    column \<le> TEXT_WIDTH \<or> 32 \<notin> set v \<Longrightarrow> l \<in> set (split_on 10 (v @ flow_words column ws)) \<Longrightarrow>
    length l \<le> TEXT_WIDTH \<or> 32 \<notin> set l"
proof (induction ws arbitrary: v column)
  case Nil
  then show ?case by (auto simp: split_on_plain)
next
  case (Cons w ws)
  consider (same) "column + 1 + length w \<le> TEXT_WIDTH" | (further) "\<not> column + 1 + length w \<le> TEXT_WIDTH" by blast
  then show ?case
  proof cases
    case same
    have plain: "\<forall>w \<in> set ws. w \<noteq> [] \<and> 10 \<notin> set w \<and> 32 \<notin> set w" "10 \<notin> set (v @ 32 # w)" "length (v @ 32 # w) = column + 1 + length w"
      "0 < column + 1 + length w" using Cons.prems by simp_all
    have "l \<in> set (split_on 10 ((v @ 32 # w) @ flow_words (column + 1 + length w) ws))"
      using Cons.prems same by simp
    then show ?thesis using Cons.IH [OF plain(1,2,3,4)] same by blast
  next
    case further
    have plain: "\<forall>w \<in> set ws. w \<noteq> [] \<and> 10 \<notin> set w \<and> 32 \<notin> set w" "10 \<notin> set w" "length w = length w"
      "0 < length w" using Cons.prems by simp_all
    have "32 \<notin> set w" using Cons.prems by simp
    moreover have "l = v \<or> l \<in> set (split_on 10 (w @ flow_words (length w) ws))"
      using Cons.prems further by (simp add: split_on_append)
    ultimately show ?thesis using Cons.IH [OF plain] Cons.prems(3,5) by blast
  qed
qed

lemma flow_lines: "l \<in> set (split_on 10 (flow p)) \<Longrightarrow> length l \<le> 78 \<or> 32 \<notin> set l"
proof (cases "split_whitespace p")
  case Nil
  assume "l \<in> set (split_on 10 (flow p))"
  with Nil show ?thesis by (simp add: flow_def)
next
  case (Cons w ws)
  have plain: "x \<noteq> [] \<and> 10 \<notin> set x \<and> 32 \<notin> set x" if "x \<in> set (w # ws)" for x
  proof -
    from that have "x \<in> set (split_whitespace p)" by (simp only: Cons)
    then have "x \<noteq> [] \<and> (\<forall>c \<in> set x. \<not> is_whitespace c)" by (rule words_plain)
    moreover have "is_whitespace 10" "is_whitespace 32" by (simp_all add: is_whitespace_def)
    ultimately show ?thesis by blast
  qed
  assume "l \<in> set (split_on 10 (flow p))"
  with Cons have "l \<in> set (split_on 10 (w @ flow_words (length w) ws))" by (simp add: flow_def)
  moreover have "\<forall>x \<in> set ws. x \<noteq> [] \<and> 10 \<notin> set x \<and> 32 \<notin> set x" "10 \<notin> set w" "0 < length w"
    "length w \<le> TEXT_WIDTH \<or> 32 \<notin> set w" using plain by simp_all
  ultimately have "length l \<le> TEXT_WIDTH \<or> 32 \<notin> set l" using flow_words_lines by blast
  then show ?thesis by (simp add: TEXT_WIDTH_def)
qed

subsection \<open>The token in a link\<close>

definition unhex :: "nat \<Rightarrow> nat" where
  "unhex c = (if c < 65 then c - 48 else c - 55)"

fun percent_decode :: "ustr \<Rightarrow> nat list" where
  "percent_decode (b # x # y # r) =
     (if b = 37 then (16 * unhex x + unhex y) # percent_decode r else b # percent_decode (x # y # r))"
| "percent_decode s = s"

lemma percent_decode_plain: "b \<noteq> 37 \<Longrightarrow> percent_decode (b # r) = b # percent_decode r"
proof (cases r)
  case (Cons x r')
  then show "b \<noteq> 37 \<Longrightarrow> ?thesis" by (cases r') simp_all
qed simp

lemma encode_byte_back: "b < 256 \<Longrightarrow> percent_decode (encode_byte b @ r) = b # percent_decode r"
proof (cases "is_unreserved b")
  case True
  then have "b \<noteq> 37" by (auto simp: is_unreserved_def)
  with True show ?thesis by (simp add: encode_byte_def percent_decode_plain)
next
  case False
  assume "b < 256"
  then have "b div 16 < 16" "b mod 16 < 16" by auto
  moreover have "unhex (upper_hex n) = n" if "n < 16" for n using that by (simp add: unhex_def upper_hex_def)
  moreover have "16 * (b div 16) + b mod 16 = b" by simp
  ultimately show ?thesis using False by (simp add: encode_byte_def)
qed

lemma encode_bytes_back: "\<forall>b \<in> set bs. b < 256 \<Longrightarrow> percent_decode (concat (map encode_byte bs)) = bs"
  by (induction bs) (simp_all add: encode_byte_back)

lemma utf8_bytes_small: "\<forall>c \<in> set s. c < 1114112 \<Longrightarrow> b \<in> set (utf8_bytes s) \<Longrightarrow> b < 256"
proof -
  have "b < 256" if "c < 1114112" "b \<in> set (utf8 c)" for c
  proof -
    have "c div 64 mod 64 < 64" "c mod 64 < 64" "c div 4096 mod 64 < 64" by simp_all
    moreover have "c < 2048 \<Longrightarrow> c div 64 < 32" "c < 65536 \<Longrightarrow> c div 4096 < 16" "c div 262144 < 5" using that(1) by auto
    ultimately show ?thesis using that(2) by (auto simp: utf8_def split: if_splits)
  qed
  then show "\<forall>c \<in> set s. c < 1114112 \<Longrightarrow> b \<in> set (utf8_bytes s) \<Longrightarrow> b < 256"
    by (auto simp: utf8_bytes_def)
qed

lemma token_back: "\<forall>c \<in> set t. c < 1114112 \<Longrightarrow> percent_decode (encode_token t) = utf8_bytes t"
  using utf8_bytes_small unfolding encode_token_def by (intro encode_bytes_back) blast

lemma encode_token_plain: "c \<in> set (encode_token t) \<Longrightarrow> \<forall>c \<in> set t. c < 1114112 \<Longrightarrow> is_unreserved c \<or> c = 37"
proof -
  assume "c \<in> set (encode_token t)" "\<forall>c \<in> set t. c < 1114112"
  then obtain b where b: "b < 256" "c \<in> set (encode_byte b)"
    using utf8_bytes_small by (auto simp: encode_token_def)
  then have "b div 16 < 16" "b mod 16 < 16" by auto
  moreover have "is_unreserved (upper_hex n)" if "n < 16" for n
    using that by (auto simp: upper_hex_def is_unreserved_def)
  ultimately show "is_unreserved c \<or> c = 37" using b(2) by (auto simp: encode_byte_def split: if_splits)
qed

end
