(* ===== verification/Outbox.thy ===== *)
theory Outbox
  imports Letters People
begin

text \<open>
  The queue of mails: the table of mails and the row of settings (\<open>mail/store.rs\<close>), the waits
  (\<open>mail/queue.rs\<close>), and the service over them (\<open>mail/mod.rs\<close>, \<open>mail/key.rs\<close>, the handlers of
  \<open>api/mail.rs\<close>). New ids, the clock, the templates and what Resend or the directory of files answered
  are arguments. A row keeps its last error as a value instead of its sentence. The database answers;
  where it does not, the code gives up the turn. The mails of an account that is deleted go with it (\<open>ON DELETE CASCADE\<close>), whoever holds them. Rows of equal \<open>created_at\<close> are claimed in the order
  of the table.
\<close>

subsection \<open>The table and the settings (\<open>mail/store.rs\<close>)\<close>

datatype mail_state = MailQueued | MailSending | MailSent | MailFailed

fun mail_state_str :: "mail_state \<Rightarrow> ustr" where
  "mail_state_str MailQueued = lit ''queued''"
| "mail_state_str MailSending = lit ''sending''"
| "mail_state_str MailSent = lit ''sent''"
| "mail_state_str MailFailed = lit ''failed''"

definition mail_state_of :: "ustr \<Rightarrow> mail_state option" where
  "mail_state_of t =
     (if t = lit ''queued'' then Some MailQueued else if t = lit ''sending'' then Some MailSending
      else if t = lit ''sent'' then Some MailSent else if t = lit ''failed'' then Some MailFailed else None)"

record mail_settings =
  ms_from_address :: ustr
  ms_from_name :: ustr
  ms_reply_to :: "ustr option"
  ms_link_base :: "ustr option"
  ms_daily_limit :: nat
  ms_key_set_at :: "moment option"
  ms_last_test_at :: "moment option"
  ms_last_error :: "mail_error option"
  ms_last_error_at :: "moment option"

record mail_form =
  mf_from_address :: ustr
  mf_from_name :: ustr
  mf_reply_to :: "ustr option"
  mf_link_base :: "ustr option"
  mf_daily_limit :: nat

record mail_row =
  mr_id :: id
  mr_kind :: mail_kind
  mr_user :: "id option"
  mr_to :: ustr
  mr_subject :: ustr
  mr_html :: "ustr option"
  mr_text :: "ustr option"
  mr_state :: mail_state
  mr_attempts :: nat
  mr_next :: "moment option"
  mr_receipt :: "ustr option"
  mr_error :: "mail_error option"
  mr_created_at :: moment
  mr_sent_at :: "moment option"

record outbox =
  ob_mails :: "mail_row list"
  ob_settings :: mail_settings

definition save_settings :: "mail_form \<Rightarrow> outbox \<Rightarrow> outbox" where
  "save_settings f b = b\<lparr>ob_settings := (ob_settings b)\<lparr>ms_from_address := mf_from_address f,
     ms_from_name := mf_from_name f, ms_reply_to := mf_reply_to f, ms_link_base := mf_link_base f,
     ms_daily_limit := mf_daily_limit f\<rparr>\<rparr>"

definition mark_key :: "moment option \<Rightarrow> outbox \<Rightarrow> outbox" where
  "mark_key t b = b\<lparr>ob_settings := (ob_settings b)\<lparr>ms_key_set_at := t\<rparr>\<rparr>"

definition mark_test :: "moment \<Rightarrow> outbox \<Rightarrow> outbox" where
  "mark_test t b = b\<lparr>ob_settings := (ob_settings b)\<lparr>ms_last_test_at := Some t\<rparr>\<rparr>"

definition mark_error :: "mail_error option \<Rightarrow> moment \<Rightarrow> outbox \<Rightarrow> outbox" where
  "mark_error e now b = b\<lparr>ob_settings := (ob_settings b)\<lparr>ms_last_error := e,
     ms_last_error_at := map_option (\<lambda>_. now) e\<rparr>\<rparr>"

record queued_mail =
  qm_id :: id
  qm_kind :: mail_kind
  qm_to :: ustr
  qm_subject :: ustr
  qm_html :: ustr
  qm_text :: ustr
  qm_attempts :: nat

definition insert_mail :: "mail_row \<Rightarrow> outbox \<Rightarrow> outbox option" where
  "insert_mail r b =
     (if mr_id r \<in> mr_id ` set (ob_mails b) then None
      else Some (b\<lparr>ob_mails := ob_mails b @ [r\<lparr>mr_attempts := 0, mr_next := None, mr_receipt := None,
        mr_error := None, mr_sent_at := None\<rparr>]\<rparr>))"

definition change_mail :: "(mail_row \<Rightarrow> bool) \<Rightarrow> (mail_row \<Rightarrow> mail_row) \<Rightarrow> outbox \<Rightarrow> outbox" where
  "change_mail p f b = b\<lparr>ob_mails := update_where p f (ob_mails b)\<rparr>"

definition mail_due :: "moment \<Rightarrow> mail_row \<Rightarrow> bool" where
  "mail_due now r = (mr_state r = MailQueued \<and> (case mr_next r of None \<Rightarrow> True | Some t \<Rightarrow> t \<le> now))"

definition as_queued :: "mail_row \<Rightarrow> queued_mail option" where
  "as_queued r = (case (mr_html r, mr_text r) of
     (Some h, Some t) \<Rightarrow> Some \<lparr>qm_id = mr_id r, qm_kind = mr_kind r, qm_to = mr_to r, qm_subject = mr_subject r,
        qm_html = h, qm_text = t, qm_attempts = mr_attempts r\<rparr>
   | _ \<Rightarrow> None)"

definition claim_due :: "moment \<Rightarrow> outbox \<Rightarrow> outbox \<times> queued_mail option" where
  "claim_due now b =
     (case order_by mr_created_at (filter (mail_due now) (ob_mails b)) of
        [] \<Rightarrow> (b, None)
      | r # _ \<Rightarrow> (change_mail (\<lambda>x. mr_id x = mr_id r) (\<lambda>x. x\<lparr>mr_state := MailSending\<rparr>) b, as_queued r))"

definition mark_sent :: "id \<Rightarrow> ustr \<Rightarrow> moment \<Rightarrow> outbox \<Rightarrow> outbox" where
  "mark_sent i receipt now = change_mail (\<lambda>r. mr_id r = i) (\<lambda>r. r\<lparr>mr_state := MailSent, mr_sent_at := Some now,
     mr_receipt := Some receipt, mr_error := None, mr_attempts := mr_attempts r + 1, mr_next := None,
     mr_html := None, mr_text := None\<rparr>)"

definition mark_waiting :: "id \<Rightarrow> moment \<Rightarrow> mail_error \<Rightarrow> outbox \<Rightarrow> outbox" where
  "mark_waiting i t e = change_mail (\<lambda>r. mr_id r = i) (\<lambda>r. r\<lparr>mr_state := MailQueued,
     mr_attempts := mr_attempts r + 1, mr_next := Some t, mr_error := Some e\<rparr>)"

definition mark_failed :: "id \<Rightarrow> mail_error \<Rightarrow> outbox \<Rightarrow> outbox" where
  "mark_failed i e = change_mail (\<lambda>r. mr_id r = i) (\<lambda>r. r\<lparr>mr_state := MailFailed,
     mr_attempts := mr_attempts r + 1, mr_next := None, mr_error := Some e\<rparr>)"

definition requeue_stuck :: "outbox \<Rightarrow> outbox" where
  "requeue_stuck = change_mail (\<lambda>r. mr_state r = MailSending \<and> mr_html r \<noteq> None)
     (\<lambda>r. r\<lparr>mr_state := MailQueued, mr_next := None\<rparr>)"

definition requeueable :: "id \<Rightarrow> mail_row \<Rightarrow> bool" where
  "requeueable i r = (mr_id r = i \<and> mr_state r = MailFailed \<and> mr_html r \<noteq> None)"

definition requeue :: "id \<Rightarrow> outbox \<Rightarrow> outbox \<times> bool" where
  "requeue i b = (change_mail (requeueable i)
       (\<lambda>r. r\<lparr>mr_state := MailQueued, mr_attempts := 0, mr_next := None\<rparr>) b,
     count_where (requeueable i) (ob_mails b) = 1)"

definition promised :: "mail_row \<Rightarrow> bool" where
  "promised r = (mr_state r \<in> {MailQueued, MailSending, MailSent})"

record mail_counts =
  mc_sent_today :: nat
  mc_queued :: nat
  mc_failed :: nat

definition counts :: "moment \<Rightarrow> outbox \<Rightarrow> mail_counts" where
  "counts bound b = \<lparr>
     mc_sent_today = count_where (\<lambda>r. promised r \<and> bound < mr_created_at r) (ob_mails b),
     mc_queued = count_where (\<lambda>r. mr_state r \<in> {MailQueued, MailSending}) (ob_mails b),
     mc_failed = count_where (\<lambda>r. mr_state r = MailFailed) (ob_mails b)\<rparr>"

definition spent_since :: "moment \<Rightarrow> outbox \<Rightarrow> nat" where
  "spent_since bound b = count_where (\<lambda>r. promised r \<and> bound < mr_created_at r) (ob_mails b)"

definition recent_to :: "ustr \<Rightarrow> mail_kind \<Rightarrow> moment \<Rightarrow> outbox \<Rightarrow> nat" where
  "recent_to address k bound b =
     count_where (\<lambda>r. mr_to r = address \<and> mr_kind r = k \<and> bound < mr_created_at r) (ob_mails b)"

definition recent_of_kind :: "mail_kind \<Rightarrow> moment \<Rightarrow> outbox \<Rightarrow> nat" where
  "recent_of_kind k bound b = count_where (\<lambda>r. mr_kind r = k \<and> bound < mr_created_at r) (ob_mails b)"

definition mail_page :: "nat \<Rightarrow> mail_state option \<Rightarrow> outbox \<Rightarrow> mail_row list \<times> nat" where
  "mail_page limit st b =
     (let rows = filter (\<lambda>r. case st of None \<Rightarrow> True | Some s \<Rightarrow> mr_state r = s) (ob_mails b)
      in (take limit (order_by_desc (\<lambda>r. (mr_created_at r, mr_id r)) rows), length rows))"

definition mail_content :: "id \<Rightarrow> outbox \<Rightarrow> ustr option option" where
  "mail_content i b = map_option mr_html (fetch_optional (\<lambda>r. mr_id r = i) (ob_mails b))"

definition purge_mails :: "moment \<Rightarrow> outbox \<Rightarrow> outbox" where
  "purge_mails cutoff b = b\<lparr>ob_mails := delete_where (\<lambda>r. mr_created_at r < cutoff) (ob_mails b)\<rparr>"

subsection \<open>Waiting (\<open>mail/queue.rs\<close>)\<close>

definition BACKOFF :: "int list" where "BACKOFF = [30, 120, 480, 1800, 7200]"

definition next_attempt :: "nat \<Rightarrow> moment \<Rightarrow> moment option" where
  "next_attempt attempts now =
     (if attempts = 0 then None
      else if attempts - 1 < length BACKOFF then Some (now + BACKOFF ! (attempts - 1)) else None)"

definition next_utc_day :: "moment \<Rightarrow> moment" where
  "next_utc_day now = (now div 86400 + 1) * 86400"

subsection \<open>The key file (\<open>mail/key.rs\<close>)\<close>

text \<open>The text of the file, if there is one.\<close>

type_synonym key_file = "ustr option"

definition read_key :: "key_file \<Rightarrow> ustr option" where
  "read_key f = (case f of None \<Rightarrow> None | Some t \<Rightarrow> parse_api_key t)"

definition write_key :: "ustr \<Rightarrow> key_file" where
  "write_key key = Some (key @ [10])"

subsection \<open>The service (\<open>mail/mod.rs\<close>)\<close>

definition PER_ADDRESS_AND_KIND :: nat where "PER_ADDRESS_AND_KIND = 5"
definition TEST_MAILS :: nat where "TEST_MAILS = 10"
definition MAIL_WINDOW :: moment where "MAIL_WINDOW = 3600"
definition MAIL_DAY :: moment where "MAIL_DAY = 86400"
definition MAIL_RETENTION :: moment where "MAIL_RETENTION = 2592000"

datatype mail_provider = Nowhere | Files | ResendKey ustr

definition provider :: "bool \<Rightarrow> key_file \<Rightarrow> mail_provider" where
  "provider sink key = (if sink then Files else (case read_key key of Some k \<Rightarrow> ResendKey k | None \<Rightarrow> Nowhere))"

definition sender_of :: "mail_settings \<Rightarrow> sender" where
  "sender_of s = \<lparr>se_name = ms_from_name s, se_address = ms_from_address s, se_reply_to = ms_reply_to s,
     se_link_base = ms_link_base s\<rparr>"

definition can_link :: "mail_provider \<Rightarrow> outbox \<Rightarrow> bool" where
  "can_link p b = (p \<noteq> Nowhere \<and> ms_link_base (ob_settings b) \<noteq> None)"

definition brake :: "mail_message \<Rightarrow> moment \<Rightarrow> outbox \<Rightarrow> mail_error + unit" where
  "brake m now b =
     (let k = kind_of m; hour_ago = now - MAIL_WINDOW; limit = ms_daily_limit (ob_settings b) in
      if PER_ADDRESS_AND_KIND \<le> recent_to (rc_address (recipient_of m)) k hour_ago b then Inl Braked
      else if k = KindTest \<and> TEST_MAILS \<le> recent_of_kind k hour_ago b then Inl Braked
      else if 0 < limit \<and> limit \<le> spent_since (now - MAIL_DAY) b
        then Inl (QuotaReached (lit ''The panel's own daily limit of '' @ digits_of limit @
          lit '' mails is used up. Raise it under Administration '' @ [8594] @ lit '' Mail, or wait '' @ [8212] @
          lit '' Resend's free tier gives 100 a day.''))
      else Inr ())"

definition new_mail :: "id \<Rightarrow> mail_message \<Rightarrow> rendered \<Rightarrow> mail_state \<Rightarrow> moment \<Rightarrow> mail_row" where
  "new_mail i m r st now = \<lparr>mr_id = i, mr_kind = kind_of m, mr_user = rc_user (recipient_of m),
     mr_to = rc_address (recipient_of m), mr_subject = re_subject r, mr_html = Some (re_html r),
     mr_text = Some (re_text r), mr_state = st, mr_attempts = 0, mr_next = None, mr_receipt = None,
     mr_error = None, mr_created_at = now, mr_sent_at = None\<rparr>"

text \<open>The common part of queuing a mail and of writing down a test mail before it is handed over.\<close>

definition take_in :: "templates \<Rightarrow> (moment \<Rightarrow> nat \<times> nat \<times> nat) \<Rightarrow> mail_provider \<Rightarrow> id \<Rightarrow> mail_message \<Rightarrow>
    mail_state \<Rightarrow> moment \<Rightarrow> outbox \<Rightarrow> mail_error + outbox" where
  "take_in te cal p i m st now b =
     (if p = Nowhere then Inl MailNotConfigured
      else and_then (brake m now b) (\<lambda>_.
        and_then (render te cal m (sender_of (ob_settings b)) now) (\<lambda>r.
          case insert_mail (new_mail i m r st now) b of None \<Rightarrow> Inl Upstream | Some b \<Rightarrow> Inr b)))"

definition enqueue :: "templates \<Rightarrow> (moment \<Rightarrow> nat \<times> nat \<times> nat) \<Rightarrow> mail_provider \<Rightarrow> id \<Rightarrow> mail_message \<Rightarrow>
    moment \<Rightarrow> outbox \<Rightarrow> mail_error + outbox" where
  "enqueue te cal p i m now b = take_in te cal p i m MailQueued now b"

text \<open>What came back: the name of the written files, or the status and the decoded body of an answer.\<close>

record outcome =
  oc_stem :: "ustr option"
  oc_answer :: "(nat \<times> ustr option \<times> string \<times> ustr) option"

definition hand_over :: "(ustr \<Rightarrow> ustr) \<Rightarrow> mail_provider \<Rightarrow> outcome \<Rightarrow> mail_error + ustr" where
  "hand_over lower p oc = (case p of
     Nowhere \<Rightarrow> Inl MailNotConfigured
   | Files \<Rightarrow> (case oc_stem oc of Some stem \<Rightarrow> Inr (lit ''file:'' @ stem) | None \<Rightarrow> Inl Upstream)
   | ResendKey _ \<Rightarrow> (case oc_answer oc of
        Some (st, sent, name, message) \<Rightarrow> interpret_answer lower st sent name message
      | None \<Rightarrow> Inl Upstream))"

definition test_begins :: "templates \<Rightarrow> (moment \<Rightarrow> nat \<times> nat \<times> nat) \<Rightarrow> mail_provider \<Rightarrow> id \<Rightarrow> ustr \<Rightarrow> moment \<Rightarrow>
    outbox \<Rightarrow> mail_error + outbox" where
  "test_begins te cal p i address now b =
     take_in te cal p i (MailTest \<lparr>rc_address = address, rc_user = None\<rparr>) MailSending now b"

definition test_ends :: "id \<Rightarrow> mail_error + ustr \<Rightarrow> moment \<Rightarrow> outbox \<Rightarrow> outbox \<times> (mail_error + ustr)" where
  "test_ends i outcome now b = (case outcome of
     Inr receipt \<Rightarrow> (mark_error None now (mark_test now (mark_sent i receipt now b)), Inr receipt)
   | Inl e \<Rightarrow> (mark_error (Some e) now (mark_failed i e b), Inl e))"

definition send_test :: "templates \<Rightarrow> (moment \<Rightarrow> nat \<times> nat \<times> nat) \<Rightarrow> (ustr \<Rightarrow> ustr) \<Rightarrow> mail_provider \<Rightarrow> id \<Rightarrow> ustr \<Rightarrow>
    outcome \<Rightarrow> moment \<Rightarrow> outbox \<Rightarrow> outbox \<times> (mail_error + ustr)" where
  "send_test te cal lower p i address oc now b =
     (case test_begins te cal p i address now b of
        Inl e \<Rightarrow> (b, Inl e)
      | Inr b \<Rightarrow> test_ends i (hand_over lower p oc) now b)"

definition write_off :: "queued_mail \<Rightarrow> mail_error \<Rightarrow> moment \<Rightarrow> outbox \<Rightarrow> outbox" where
  "write_off q e now b =
     (let attempts = qm_attempts q + 1;
          again = (if until_tomorrow e then Some (next_utc_day now)
            else if transient e then next_attempt attempts now else None)
      in mark_error (Some e) now (case again of Some t \<Rightarrow> mark_waiting (qm_id q) t e b | None \<Rightarrow> mark_failed (qm_id q) e b))"

definition delivered :: "queued_mail \<Rightarrow> mail_error + ustr \<Rightarrow> moment \<Rightarrow> outbox \<Rightarrow> outbox" where
  "delivered q outcome now b = (case outcome of
     Inr receipt \<Rightarrow> mark_error None now (mark_sent (qm_id q) receipt now b)
   | Inl e \<Rightarrow> write_off q e now b)"

definition deliver_next :: "(ustr \<Rightarrow> ustr) \<Rightarrow> mail_provider \<Rightarrow> outcome \<Rightarrow> moment \<Rightarrow> outbox \<Rightarrow> outbox \<times> bool" where
  "deliver_next lower p oc now b =
     (case claim_due now b of
        (b, None) \<Rightarrow> (b, False)
      | (b, Some q) \<Rightarrow> (delivered q (hand_over lower p oc) now b, True))"

definition show_content :: "id \<Rightarrow> outbox \<Rightarrow> ustr result" where
  "show_content i b = (case mail_content i b of
     None \<Rightarrow> Inl (not_found ''mail_not_found'')
   | Some None \<Rightarrow> Inl (not_found ''mail_content_gone'')
   | Some (Some html) \<Rightarrow> Inr html)"

definition retry_mail :: "id \<Rightarrow> outbox \<Rightarrow> outbox \<times> unit result" where
  "retry_mail i b =
     (let (b', done) = requeue i b in
      if done then (b', Inr ())
      else (b', case mail_content i b' of
          None \<Rightarrow> Inl (not_found ''mail_not_found'')
        | Some None \<Rightarrow> Inl (not_found ''mail_content_gone'')
        | Some (Some _) \<Rightarrow> Inl (conflict ''invalid_state'')))"

datatype service_state = NotSetUp | SetUp | FileSink

record mail_view =
  mv_state :: service_state
  mv_settings :: mail_settings
  mv_example_link :: "ustr option"
  mv_sink_path :: "ustr option"
  mv_counts :: mail_counts

text \<open>The sink is the directory of files, where one is set.\<close>

definition overview :: "ustr option \<Rightarrow> key_file \<Rightarrow> moment \<Rightarrow> outbox \<Rightarrow> mail_view" where
  "overview sink key now b = \<lparr>
     mv_state = (case provider (sink \<noteq> None) key of Nowhere \<Rightarrow> NotSetUp | Files \<Rightarrow> FileSink | ResendKey _ \<Rightarrow> SetUp),
     mv_settings = ob_settings b,
     mv_example_link = map_option (\<lambda>base. base @ lit ''/verify-email#'' @ [8230]) (ms_link_base (ob_settings b)),
     mv_sink_path = sink,
     mv_counts = counts (now - MAIL_DAY) b\<rparr>"

definition clean_header :: "ustr \<Rightarrow> ustr" where
  "clean_header t = trim (filter (\<lambda>c. \<not> is_control c) t)"

definition clean_name :: "ustr \<Rightarrow> ustr" where
  "clean_name t = filter (\<lambda>c. c \<notin> {60, 62, 34, 44}) (clean_header t)"

definition plausible_address :: "ustr \<Rightarrow> bool" where
  "plausible_address address = (case split_on 64 address of
     [local, domain] \<Rightarrow> local \<noteq> [] \<and> domain \<noteq> [] \<and> 46 \<in> set domain \<and> byte_len address \<le> 254 \<and>
       \<not> list_ex is_whitespace address
   | _ \<Rightarrow> False)"

definition clean_reply_to :: "ustr option \<Rightarrow> ustr option result" where
  "clean_reply_to r = (case map_option clean_header r of
     None \<Rightarrow> Inr None
   | Some t \<Rightarrow> if t = [] then Inr None else if plausible_address t then Inr (Some t) else Inl invalid_request)"

definition clean_link_base :: "ustr option \<Rightarrow> ustr option result" where
  "clean_link_base l = (case map_option clean_header l of
     None \<Rightarrow> Inr None
   | Some t \<Rightarrow> if t = [] then Inr None
       else (let base = trim_end_char 47 t in
         if \<not> has_prefix (lit ''https://'') base \<and> \<not> has_prefix (lit ''http://'') base then Inl invalid_request
         else Inr (Some base)))"

definition clean_form :: "mail_form \<Rightarrow> mail_form result" where
  "clean_form f =
     (let address = clean_header (mf_from_address f) in
      if \<not> plausible_address address then Inl invalid_request
      else and_then (clean_reply_to (mf_reply_to f)) (\<lambda>reply.
        and_then (clean_link_base (mf_link_base f)) (\<lambda>base.
          Inr \<lparr>mf_from_address = address, mf_from_name = clean_name (mf_from_name f), mf_reply_to = reply,
            mf_link_base = base, mf_daily_limit = mf_daily_limit f\<rparr>)))"

datatype key_change = KeepKey | RemoveKey | ReplaceKey ustr

definition key_change_of :: "ustr option \<Rightarrow> key_change" where
  "key_change_of k = (case k of None \<Rightarrow> KeepKey | Some t \<Rightarrow> if trim t = [] then RemoveKey else ReplaceKey t)"

definition checked_key :: "key_change \<Rightarrow> ustr option option result" where
  "checked_key c = (case c of
     KeepKey \<Rightarrow> Inr None
   | RemoveKey \<Rightarrow> Inr (Some None)
   | ReplaceKey t \<Rightarrow> (case parse_api_key t of None \<Rightarrow> Inl invalid_request | Some k \<Rightarrow> Inr (Some (Some k))))"

definition forget_key :: "key_file \<times> outbox \<Rightarrow> key_file \<times> outbox" where
  "forget_key s = (None, mark_key None (snd s))"

definition save_mail :: "mail_form \<Rightarrow> key_change \<Rightarrow> moment \<Rightarrow> key_file \<times> outbox \<Rightarrow> (key_file \<times> outbox) result" where
  "save_mail f c now s =
     and_then (clean_form f) (\<lambda>f. and_then (checked_key c) (\<lambda>k.
       let b = save_settings f (snd s) in
       Inr (case k of
          None \<Rightarrow> (fst s, b)
        | Some None \<Rightarrow> forget_key (fst s, b)
        | Some (Some key) \<Rightarrow> (write_key key, mark_key (Some now) b))))"

definition outbox_page :: "nat option \<Rightarrow> ustr option \<Rightarrow> outbox \<Rightarrow> (mail_row list \<times> nat) result" where
  "outbox_page limit st b =
     and_then (case st of None \<Rightarrow> Inr None
        | Some t \<Rightarrow> if t = [] then Inr None
            else (case mail_state_of t of Some s \<Rightarrow> Inr (Some s) | None \<Rightarrow> Inl invalid_request))
       (\<lambda>st. Inr (mail_page (max 1 (min 200 (case limit of Some n \<Rightarrow> n | None \<Rightarrow> 50))) st b))"

definition test_address :: "ustr option \<Rightarrow> ustr option \<Rightarrow> ustr result" where
  "test_address typed own =
     (let typed = (case map_option clean_header typed of Some t \<Rightarrow> if t = [] then None else Some t | None \<Rightarrow> None);
          own = (case own of Some a \<Rightarrow> if a = [] then None else Some a | None \<Rightarrow> None) in
      and_then (case typed of Some a \<Rightarrow> Inr a | None \<Rightarrow> (case own of Some a \<Rightarrow> Inr a | None \<Rightarrow> Inl invalid_request)) (\<lambda>a.
        if plausible_address a then Inr a else Inl invalid_request))"

subsection \<open>The service as a machine\<close>

text \<open>The mail the worker has claimed and the test mails on their way are held between two steps; a restart
  of the panel loses them. A refused call changes nothing and is not a step.\<close>

record post =
  po_box :: outbox
  po_key :: key_file
  po_worker :: "queued_mail option"
  po_tests :: "id list"

definition flights :: "post \<Rightarrow> id list" where
  "flights s = (case po_worker s of Some q \<Rightarrow> [qm_id q] | None \<Rightarrow> []) @ po_tests s"

text \<open>What the deletion of an account leaves of the table.\<close>

definition account_gone :: "id \<Rightarrow> outbox \<Rightarrow> outbox" where
  "account_gone user b = b\<lparr>ob_mails := delete_where (\<lambda>r. mr_user r = Some user) (ob_mails b)\<rparr>"

inductive post_step :: "templates \<Rightarrow> (moment \<Rightarrow> nat \<times> nat \<times> nat) \<Rightarrow> (ustr \<Rightarrow> ustr) \<Rightarrow> bool \<Rightarrow> post \<Rightarrow> post \<Rightarrow> bool"
  for te cal lower sink where
  queue: "enqueue te cal (provider sink (po_key s)) i m now (po_box s) = Inr b \<Longrightarrow> i \<notin> set (flights s) \<Longrightarrow>
    post_step te cal lower sink s (s\<lparr>po_box := b\<rparr>)"
| test_on: "test_begins te cal (provider sink (po_key s)) i address now (po_box s) = Inr b \<Longrightarrow> i \<notin> set (flights s) \<Longrightarrow>
    post_step te cal lower sink s (s\<lparr>po_box := b, po_tests := i # po_tests s\<rparr>)"
| test_off: "i \<in> set (po_tests s) \<Longrightarrow> test_ends i (hand_over lower p oc) now (po_box s) = (b, res) \<Longrightarrow>
    post_step te cal lower sink s (s\<lparr>po_box := b, po_tests := remove1 i (po_tests s)\<rparr>)"
| claim: "po_worker s = None \<Longrightarrow> claim_due now (po_box s) = (b, q) \<Longrightarrow>
    post_step te cal lower sink s (s\<lparr>po_box := b, po_worker := q\<rparr>)"
| deliver: "po_worker s = Some q \<Longrightarrow>
    post_step te cal lower sink s
      (s\<lparr>po_box := delivered q (hand_over lower (provider sink (po_key s)) oc) now (po_box s), po_worker := None\<rparr>)"
| again: "post_step te cal lower sink s (s\<lparr>po_box := fst (retry_mail i (po_box s))\<rparr>)"
| purge: "post_step te cal lower sink s (s\<lparr>po_box := purge_mails (now - MAIL_RETENTION) (po_box s)\<rparr>)"
| leave: "post_step te cal lower sink s (s\<lparr>po_box := account_gone user (po_box s)\<rparr>)"
| restart: "post_step te cal lower sink s (s\<lparr>po_box := requeue_stuck (po_box s), po_worker := None, po_tests := []\<rparr>)"
| save: "save_mail f c now (po_key s, po_box s) = Inr (k, b) \<Longrightarrow>
    post_step te cal lower sink s (s\<lparr>po_box := b, po_key := k\<rparr>)"
| forget: "forget_key (po_key s, po_box s) = (k, b) \<Longrightarrow>
    post_step te cal lower sink s (s\<lparr>po_box := b, po_key := k\<rparr>)"

definition post_empty :: "mail_settings \<Rightarrow> post" where
  "post_empty ms = \<lparr>po_box = \<lparr>ob_mails = [], ob_settings = ms\<rparr>, po_key = None, po_worker = None, po_tests = []\<rparr>"

inductive post_reachable :: "templates \<Rightarrow> (moment \<Rightarrow> nat \<times> nat \<times> nat) \<Rightarrow> (ustr \<Rightarrow> ustr) \<Rightarrow> bool \<Rightarrow> post \<Rightarrow> bool"
  for te cal lower sink where
  begins: "post_reachable te cal lower sink (post_empty ms)"
| goes_on: "post_reachable te cal lower sink s \<Longrightarrow> post_step te cal lower sink s s' \<Longrightarrow>
    post_reachable te cal lower sink s'"

text \<open>The operations as changes of rows.\<close>

lemma mails_simps [simp]:
  "ob_mails (mark_error e now b) = ob_mails b" "ob_mails (mark_test now b) = ob_mails b"
  "ob_mails (mark_key t b) = ob_mails b" "ob_mails (save_settings form b) = ob_mails b"
  "ob_mails (change_mail p f b) = update_where p f (ob_mails b)"
  by (simp_all add: mark_error_def mark_test_def mark_key_def save_settings_def change_mail_def)

lemma fst_retry: "ob_mails (fst (retry_mail i b)) =
    update_where (requeueable i) (\<lambda>r. r\<lparr>mr_state := MailQueued, mr_attempts := 0, mr_next := None\<rparr>) (ob_mails b)"
  by (simp add: retry_mail_def requeue_def)

definition mail_ok :: "id set \<Rightarrow> mail_row \<Rightarrow> bool" where
  "mail_ok fl r = ((mr_html r = None) = (mr_state r = MailSent) \<and> (mr_text r = None) = (mr_state r = MailSent) \<and>
     (mr_sent_at r = None) = (mr_state r \<noteq> MailSent) \<and> (mr_receipt r = None) = (mr_state r \<noteq> MailSent) \<and>
     (mr_next r \<noteq> None \<longrightarrow> mr_state r \<in> {MailQueued, MailSending}) \<and>
     (mr_state r = MailSending) = (mr_id r \<in> fl))"

definition post_ok :: "post \<Rightarrow> bool" where
  "post_ok s = (distinct (map mr_id (ob_mails (po_box s))) \<and> distinct (flights s) \<and>
     (\<forall>r \<in> set (ob_mails (po_box s)). mail_ok (set (flights s)) r) \<and>
     (\<forall>q r. po_worker s = Some q \<longrightarrow> r \<in> set (ob_mails (po_box s)) \<longrightarrow> mr_id r = qm_id q \<longrightarrow> as_queued r = Some q))"

lemma take_in_mails:
  assumes "take_in te cal p i m st now b = Inr b'"
  obtains r where "ob_mails b' = ob_mails b @ [new_mail i m r st now]" "i \<notin> mr_id ` set (ob_mails b)"
    "ob_settings b' = ob_settings b" "brake m now b = Inr ()" "p \<noteq> Nowhere"
    "render te cal m (sender_of (ob_settings b)) now = Inr r"
  using assms by (auto simp: take_in_def and_then_Inr insert_mail_def new_mail_def split: if_splits option.splits)

lemma claim_row:
  assumes "claim_due now b = (b', q)"
  shows "b' = b \<and> q = None \<and> (\<forall>r \<in> set (ob_mails b). \<not> mail_due now r) \<or>
    (\<exists>r \<in> set (ob_mails b). mail_due now r \<and> q = as_queued r \<and>
      ob_mails b' = update_where (\<lambda>x. mr_id x = mr_id r) (\<lambda>x. x\<lparr>mr_state := MailSending\<rparr>) (ob_mails b))"
proof (cases "order_by mr_created_at (filter (mail_due now) (ob_mails b))")
  case Nil
  then have "set (filter (mail_due now) (ob_mails b)) = {}"
    using set_order(1) [of mr_created_at "filter (mail_due now) (ob_mails b)"] by simp
  with Nil assms show ?thesis by (auto simp: claim_due_def filter_empty_conv)
next
  case (Cons r rs)
  then have "r \<in> set (order_by mr_created_at (filter (mail_due now) (ob_mails b)))" by simp
  then have "r \<in> set (filter (mail_due now) (ob_mails b))" by (simp only: set_order)
  with Cons assms show ?thesis by (auto simp: claim_due_def)
qed

lemma as_queued_Some: "as_queued r = Some q \<Longrightarrow> qm_id q = mr_id r"
  by (auto simp: as_queued_def split: option.splits)

lemma as_queued_total: "mail_ok fl r \<Longrightarrow> mr_state r \<noteq> MailSent \<Longrightarrow> \<exists>q. as_queued r = Some q"
  by (auto simp: mail_ok_def as_queued_def)

lemma as_queued_state [simp]: "as_queued (r\<lparr>mr_state := st\<rparr>) = as_queued r"
  by (simp add: as_queued_def split: option.split)

lemma same_id: "distinct (map mr_id t) \<Longrightarrow> r \<in> set t \<Longrightarrow> x \<in> set t \<Longrightarrow> mr_id x = mr_id r \<Longrightarrow> x = r"
  by (simp add: distinct_map inj_on_def)

lemma take_in_ok:
  assumes ok: "post_ok s" and ad: "take_in te cal p i m st now (po_box s) = Inr b" and new: "i \<notin> set (flights s)"
    and s': "po_box s' = b" "po_worker s' = po_worker s" "flights s' = flights s \<and> st = MailQueued \<or>
      set (flights s') = insert i (set (flights s)) \<and> distinct (flights s') \<and> st = MailSending"
  shows "post_ok s'"
proof -
  obtain r where r: "ob_mails b = ob_mails (po_box s) @ [new_mail i m r st now]" "i \<notin> mr_id ` set (ob_mails (po_box s))"
    using ad by (rule take_in_mails)
  have old: "mail_ok (set (flights s')) x" if "x \<in> set (ob_mails (po_box s))" for x
  proof -
    have "mr_id x \<noteq> i" "mail_ok (set (flights s)) x" using that r(2) ok by (auto simp: post_ok_def)
    with s'(3) show ?thesis by (auto simp: mail_ok_def)
  qed
  have fresh: "mail_ok (set (flights s')) (new_mail i m r st now)"
    using s'(3) new by (auto simp: mail_ok_def new_mail_def)
  have worker: "qm_id q \<in> set (flights s)" if "po_worker s = Some q" for q using that by (simp add: flights_def)
  show ?thesis
    unfolding post_ok_def s'(1,2) r(1)
    using ok s'(3) r(2) old fresh new worker by (auto simp: post_ok_def new_mail_def)
qed

lemma leaves_ok:
  assumes ok: "post_ok s" and i: "i \<in> set (flights s)"
    and mails: "ob_mails (po_box s') = update_where (\<lambda>r. mr_id r = i) f (ob_mails (po_box s))"
    and f: "\<And>r. mr_id (f r) = mr_id r" "\<And>r. mail_ok (set (flights s)) r \<Longrightarrow> mr_id r = i \<Longrightarrow> mr_state r = MailSending \<Longrightarrow> mail_ok (set (flights s) - {i}) (f r)"
    and fl: "flights s' = remove1 i (flights s)"
    and worker: "\<And>q. po_worker s' = Some q \<Longrightarrow> po_worker s = Some q \<and> qm_id q \<noteq> i"
  shows "post_ok s'"
proof -
  let ?t = "ob_mails (po_box s)"
  have rows: "distinct (map mr_id ?t)" "\<forall>r \<in> set ?t. mail_ok (set (flights s)) r" and d: "distinct (flights s)"
    using ok by (simp_all add: post_ok_def)
  have set': "set (flights s') = set (flights s) - {i}" "distinct (flights s')" using d by (simp_all add: fl)
  have "distinct (map mr_id (update_where (\<lambda>r. mr_id r = i) f ?t))" using rows(1) f(1) by (simp add: sql)
  moreover have "\<forall>r \<in> set (update_where (\<lambda>r. mr_id r = i) f ?t). mail_ok (set (flights s) - {i}) r"
  proof (rule update_all)
    fix r assume r: "r \<in> set ?t"
    then have old: "mail_ok (set (flights s)) r" using rows(2) by simp
    show "mail_ok (set (flights s) - {i}) (f r)" if "mr_id r = i"
      using that old i by (intro f(2)) (simp_all add: mail_ok_def)
    show "mail_ok (set (flights s) - {i}) r" if "mr_id r \<noteq> i" using that old by (auto simp: mail_ok_def)
  qed
  moreover have "as_queued r = Some q"
    if q: "po_worker s' = Some q" "r \<in> set (update_where (\<lambda>r. mr_id r = i) f ?t)" "mr_id r = qm_id q" for q r
  proof -
    obtain r0 where r0: "r0 \<in> set ?t" "r = (if mr_id r0 = i then f r0 else r0)" using q(2) unfolding in_update by blast
    have "mr_id r0 = mr_id r" using r0(2) f(1) by simp
    then have id: "mr_id r0 = qm_id q" using q(3) by simp
    then have "mr_id r0 \<noteq> i" using worker [OF q(1)] by simp
    then have "r = r0" using r0(2) by simp
    moreover have "as_queued r0 = Some q" using ok worker [OF q(1)] r0(1) id unfolding post_ok_def by blast
    ultimately show ?thesis by simp
  qed
  ultimately show ?thesis unfolding post_ok_def set' mails using set'(2) by simp
qed

text \<open>However a delivery ends, its row is written once and is no longer in flight.\<close>

definition lands :: "(mail_row \<Rightarrow> mail_row) \<Rightarrow> bool" where
  "lands f = (\<forall>r fl. mr_id (f r) = mr_id r \<and> mr_kind (f r) = mr_kind r \<and> mr_to (f r) = mr_to r \<and>
     mr_created_at (f r) = mr_created_at r \<and>
     (mail_ok fl r \<longrightarrow> mr_state r = MailSending \<longrightarrow> mail_ok (fl - {mr_id r}) (f r)))"

lemma lands_simps:
  "lands (\<lambda>r. r\<lparr>mr_state := MailSent, mr_sent_at := Some now, mr_receipt := Some receipt, mr_error := None,
     mr_attempts := mr_attempts r + 1, mr_next := None, mr_html := None, mr_text := None\<rparr>)"
  "lands (\<lambda>r. r\<lparr>mr_state := MailFailed, mr_attempts := mr_attempts r + 1, mr_next := None, mr_error := Some e\<rparr>)"
  "lands (\<lambda>r. r\<lparr>mr_state := MailQueued, mr_attempts := mr_attempts r + 1, mr_next := Some t, mr_error := Some e\<rparr>)"
  by (auto simp: lands_def mail_ok_def)

lemma marks_land:
  "\<exists>f. lands f \<and> ob_mails (mark_sent i receipt now b) = update_where (\<lambda>r. mr_id r = i) f (ob_mails b)"
  "\<exists>f. lands f \<and> ob_mails (mark_failed i e b) = update_where (\<lambda>r. mr_id r = i) f (ob_mails b)"
  "\<exists>f. lands f \<and> ob_mails (mark_waiting i t e b) = update_where (\<lambda>r. mr_id r = i) f (ob_mails b)"
  unfolding mark_sent_def mark_failed_def mark_waiting_def mails_simps using lands_simps by blast+

lemma delivered_lands:
  "\<exists>f. lands f \<and> ob_mails (delivered q oc now b) = update_where (\<lambda>r. mr_id r = qm_id q) f (ob_mails b)"
proof (cases oc)
  case (Inl e)
  obtain again where "ob_mails (delivered q oc now b) =
      ob_mails (case again of Some t \<Rightarrow> mark_waiting (qm_id q) t e b | None \<Rightarrow> mark_failed (qm_id q) e b)"
    using Inl by (simp add: delivered_def write_off_def Let_def)
  then show ?thesis using marks_land by (cases again) simp_all
qed (simp add: delivered_def marks_land)

lemma test_lands:
  assumes "test_ends i oc now b = (b', res)"
  shows "\<exists>f. lands f \<and> ob_mails b' = update_where (\<lambda>r. mr_id r = i) f (ob_mails b)"
  using assms marks_land by (cases oc) (auto simp: test_ends_def)

lemma landed_ok:
  assumes "post_ok s" "i \<in> set (flights s)" "ob_mails (po_box s') = update_where (\<lambda>r. mr_id r = i) f (ob_mails (po_box s))"
    and f: "lands f" and fl: "flights s' = remove1 i (flights s)"
    and worker: "\<And>q. po_worker s' = Some q \<Longrightarrow> po_worker s = Some q \<and> qm_id q \<noteq> i"
  shows "post_ok s'"
proof (rule leaves_ok [OF assms(1-3) _ _ fl worker])
  show "mr_id (f r) = mr_id r" for r using f unfolding lands_def by blast
  show "mail_ok (set (flights s) - {i}) (f r)"
    if "mail_ok (set (flights s)) r" "mr_id r = i" "mr_state r = MailSending" for r
    using f that unfolding lands_def by blast
qed

lemma off_ok:
  assumes "post_ok s" "i \<in> set (po_tests s)" "test_ends i oc now (po_box s) = (b, res)"
  shows "post_ok (s\<lparr>po_box := b, po_tests := remove1 i (po_tests s)\<rparr>)"
proof -
  have "distinct (flights s)" using assms(1) by (simp add: post_ok_def)
  then have away: "qm_id q \<noteq> i" if "po_worker s = Some q" for q using that assms(2) by (auto simp: flights_def)
  have fl: "flights (s\<lparr>po_box := b, po_tests := remove1 i (po_tests s)\<rparr>) = remove1 i (flights s)"
    using away by (auto simp: flights_def split: option.splits)
  have i: "i \<in> set (flights s)" using assms(2) by (simp add: flights_def)
  obtain f where f: "lands f" "ob_mails b = update_where (\<lambda>r. mr_id r = i) f (ob_mails (po_box s))"
    using test_lands [OF assms(3)] by blast
  show ?thesis by (rule landed_ok [OF assms(1) i _ f(1) fl]) (use f(2) away in simp_all)
qed

lemma deliver_ok:
  assumes "post_ok s" "po_worker s = Some q"
  shows "post_ok (s\<lparr>po_box := delivered q oc now (po_box s), po_worker := None\<rparr>)"
proof -
  have i: "qm_id q \<in> set (flights s)" using assms(2) by (simp add: flights_def)
  have fl: "flights (s\<lparr>po_box := b, po_worker := None\<rparr>) = remove1 (qm_id q) (flights s)" for b
    using assms(2) by (simp add: flights_def)
  obtain f where f: "lands f"
    "ob_mails (delivered q oc now (po_box s)) = update_where (\<lambda>r. mr_id r = qm_id q) f (ob_mails (po_box s))"
    using delivered_lands by blast
  show ?thesis by (rule landed_ok [OF assms(1) i _ f(1) fl]) (use f(2) in simp_all)
qed

lemma claim_ok:
  assumes ok: "post_ok s" and idle: "po_worker s = None" and cl: "claim_due now (po_box s) = (b, q)"
  shows "post_ok (s\<lparr>po_box := b, po_worker := q\<rparr>)"
  using claim_row [OF cl]
proof (elim disjE)
  assume "b = po_box s \<and> q = None \<and> (\<forall>r \<in> set (ob_mails (po_box s)). \<not> mail_due now r)"
  with ok idle show ?thesis by (simp add: post_ok_def flights_def)
next
  let ?t = "ob_mails (po_box s)" and ?f = "\<lambda>x. x\<lparr>mr_state := MailSending\<rparr>"
  assume "\<exists>r \<in> set ?t. mail_due now r \<and> q = as_queued r \<and> ob_mails b = update_where (\<lambda>x. mr_id x = mr_id r) ?f ?t"
  then obtain r where r: "r \<in> set ?t" "mail_due now r" "q = as_queued r"
    "ob_mails b = update_where (\<lambda>x. mr_id x = mr_id r) ?f ?t" by blast
  have queued: "mr_state r = MailQueued" using r(2) by (simp add: mail_due_def)
  have rows: "distinct (map mr_id ?t)" "\<forall>r \<in> set ?t. mail_ok (set (flights s)) r" using ok by (simp_all add: post_ok_def)
  then have row: "mail_ok (set (flights s)) r" using r(1) by blast
  obtain q0 where q: "as_queued r = Some q0" using as_queued_total [OF row] queued by auto
  have out: "mr_id r \<notin> set (flights s)" using row queued by (simp add: mail_ok_def)
  have fl: "flights (s\<lparr>po_box := b, po_worker := q\<rparr>) = mr_id r # flights s"
    using idle q as_queued_Some [OF q] r(3) by (simp add: flights_def)
  have "\<forall>x \<in> set (update_where (\<lambda>x. mr_id x = mr_id r) ?f ?t). mail_ok (insert (mr_id r) (set (flights s))) x"
  proof (rule update_all)
    fix x assume x: "x \<in> set ?t"
    show "mail_ok (insert (mr_id r) (set (flights s))) (?f x)" if "mr_id x = mr_id r"
      using same_id [OF rows(1) r(1) x that] row queued by (simp add: mail_ok_def)
    show "mail_ok (insert (mr_id r) (set (flights s))) x" if "mr_id x \<noteq> mr_id r"
      using that x rows(2) by (auto simp: mail_ok_def)
  qed
  moreover have "as_queued x = Some q0" if "x \<in> set (ob_mails b)" "mr_id x = mr_id r" for x
  proof -
    obtain x0 where x0: "x0 \<in> set ?t" "x = (if mr_id x0 = mr_id r then ?f x0 else x0)"
      using \<open>x \<in> set (ob_mails b)\<close> unfolding r(4) in_update by blast
    then have "mr_id x0 = mr_id r" using that(2) by (auto split: if_splits)
    with same_id [OF rows(1) r(1) x0(1)] x0(2) q show ?thesis by simp
  qed
  moreover have "distinct (map mr_id (ob_mails b))" "distinct (mr_id r # flights s)"
    using rows(1) ok out by (simp_all add: r(4) sql post_ok_def)
  ultimately show ?thesis
    using q as_queued_Some [OF q] r(3) unfolding post_ok_def fl by (simp add: r(4))
qed

lemma again_ok:
  assumes "post_ok s"
  shows "post_ok (s\<lparr>po_box := fst (retry_mail i (po_box s))\<rparr>)"
proof -
  let ?t = "ob_mails (po_box s)" and ?f = "\<lambda>r. r\<lparr>mr_state := MailQueued, mr_attempts := 0, mr_next := None\<rparr>"
  have rows: "distinct (map mr_id ?t)" "\<forall>r \<in> set ?t. mail_ok (set (flights s)) r" using assms by (simp_all add: post_ok_def)
  have "mail_ok (set (flights s)) (?f r)" if "r \<in> set ?t" "requeueable i r" for r
    using that rows(2) by (auto simp: mail_ok_def requeueable_def)
  then have "\<forall>r \<in> set (update_where (requeueable i) ?f ?t). mail_ok (set (flights s)) r"
    using rows(2) by (intro update_all) simp_all
  moreover have "as_queued r = Some q"
    if q: "po_worker s = Some q" "r \<in> set (update_where (requeueable i) ?f ?t)" "mr_id r = qm_id q" for q r
  proof -
    obtain r0 where r0: "r0 \<in> set ?t" "r = (if requeueable i r0 then ?f r0 else r0)" using q(2) unfolding in_update by blast
    then have id: "mr_id r0 = qm_id q" using q(3) by (auto split: if_splits)
    have "qm_id q \<in> set (flights s)" using q(1) by (simp add: flights_def)
    with id rows(2) r0(1) have "mr_state r0 = MailSending" by (auto simp: mail_ok_def)
    with r0 id q(1) assms show ?thesis by (auto simp: post_ok_def requeueable_def)
  qed
  moreover have "distinct (map mr_id (update_where (requeueable i) ?f ?t))" using rows(1) by (simp add: sql)
  moreover have fl: "flights (s\<lparr>po_box := b\<rparr>) = flights s" for b by (simp add: flights_def)
  ultimately show ?thesis using assms unfolding post_ok_def fl by (simp add: fst_retry)
qed

lemma restart_ok:
  assumes "post_ok s"
  shows "post_ok (s\<lparr>po_box := requeue_stuck (po_box s), po_worker := None, po_tests := []\<rparr>)"
proof -
  have "\<forall>r \<in> set (ob_mails (requeue_stuck (po_box s))). mail_ok {} r"
    unfolding requeue_stuck_def mails_simps using assms
    by (intro update_all) (auto simp: mail_ok_def post_ok_def)
  with assms show ?thesis by (simp add: post_ok_def flights_def requeue_stuck_def sql)
qed

lemma purged_mails_ok:
  assumes "post_ok s"
  shows "post_ok (s\<lparr>po_box := purge_mails cutoff (po_box s)\<rparr>)"
proof -
  have fl: "flights (s\<lparr>po_box := b\<rparr>) = flights s" for b by (simp add: flights_def)
  show ?thesis using assms unfolding post_ok_def fl by (simp add: purge_mails_def sql)
qed

lemma account_gone_ok:
  assumes "post_ok s"
  shows "post_ok (s\<lparr>po_box := account_gone user (po_box s)\<rparr>)"
proof -
  have fl: "flights (s\<lparr>po_box := b\<rparr>) = flights s" for b by (simp add: flights_def)
  show ?thesis using assms unfolding post_ok_def fl by (simp add: account_gone_def sql)
qed

lemma same_mails_ok:
  assumes "post_ok s" "ob_mails b = ob_mails (po_box s)"
  shows "post_ok (s\<lparr>po_box := b, po_key := k\<rparr>)"
proof -
  have fl: "flights (s\<lparr>po_box := b, po_key := k\<rparr>) = flights s" by (simp add: flights_def)
  show ?thesis using assms unfolding post_ok_def fl by simp
qed

lemma save_mails:
  assumes "save_mail f c now (k, b) = Inr (k', b')"
  shows "ob_mails b' = ob_mails b"
proof -
  obtain g c' where "clean_form f = Inr g" "checked_key c = Inr c'" using assms by (auto simp: save_mail_def and_then_Inr)
  with assms show ?thesis by (cases c'; cases "the c'") (auto simp: save_mail_def forget_key_def Let_def)
qed

lemma forget_mails: "forget_key (k, b) = (k', b') \<Longrightarrow> ob_mails b' = ob_mails b"
  by (auto simp: forget_key_def)

lemma post_step_ok: "post_step te cal lower sink s s' \<Longrightarrow> post_ok s \<Longrightarrow> post_ok s'"
proof (induction rule: post_step.induct)
  case (queue s i m now b)
  show ?case
    using queue(3,1,2) unfolding enqueue_def by (rule take_in_ok) (simp_all add: flights_def)
next
  case (test_on s i address now b)
  have "distinct (flights s)" using test_on(3) by (simp add: post_ok_def)
  then have "distinct (flights (s\<lparr>po_box := b, po_tests := i # po_tests s\<rparr>))"
    using test_on(2) by (auto simp: flights_def split: option.splits)
  moreover have "set (flights (s\<lparr>po_box := b, po_tests := i # po_tests s\<rparr>)) = insert i (set (flights s))"
    by (simp add: flights_def)
  ultimately show ?case
    by (intro take_in_ok [OF test_on(3) test_on(1) [unfolded test_begins_def] test_on(2)]) simp_all
next
  case (test_off i s p oc now b res)
  then show ?case using off_ok by blast
next
  case (claim s now b q)
  then show ?case using claim_ok by blast
next
  case (deliver s q oc now)
  then show ?case using deliver_ok by blast
next
  case (again s i)
  then show ?case using again_ok by blast
next
  case (purge s now)
  then show ?case using purged_mails_ok by blast
next
  case (leave s user)
  then show ?case using account_gone_ok by blast
next
  case (restart s)
  then show ?case using restart_ok by blast
next
  case (save f c now s k b)
  then show ?case using same_mails_ok save_mails by blast
next
  case (forget s k b)
  then show ?case using same_mails_ok forget_mails by blast
qed

lemma post_reachable_ok: "post_reachable te cal lower sink s \<Longrightarrow> post_ok s"
proof (induction rule: post_reachable.induct)
  case (begins ms)
  show ?case by (simp add: post_ok_def post_empty_def flights_def)
next
  case (goes_on s s')
  then show ?case using post_step_ok by blast
qed

text \<open>What a step does to the table: rows are changed in place, appended, or purged.\<close>

definition same_letter :: "mail_row \<Rightarrow> mail_row \<Rightarrow> bool" where
  "same_letter r r' = (mr_id r' = mr_id r \<and> mr_kind r' = mr_kind r \<and> mr_to r' = mr_to r \<and>
     mr_created_at r' = mr_created_at r \<and> (mr_state r = MailSent \<longrightarrow> r' = r))"

lemma same_letter_refl [simp]: "same_letter r r"
  by (simp add: same_letter_def)

lemma update_letters: "(\<And>r. r \<in> set t \<Longrightarrow> p r \<Longrightarrow> same_letter r (f r)) \<Longrightarrow> list_all2 same_letter t (update_where p f t)"
  by (induction t) (auto simp: update_where_def)

lemma letters_refl: "list_all2 same_letter t t"
  by (induction t) simp_all

lemma flying_unsent: "post_ok s \<Longrightarrow> r \<in> set (ob_mails (po_box s)) \<Longrightarrow> mr_id r \<in> set (flights s) \<Longrightarrow> mr_state r = MailSending"
  by (auto simp: post_ok_def mail_ok_def)

lemma landed_letters:
  assumes "post_ok s" "i \<in> set (flights s)" "lands f"
  shows "list_all2 same_letter (ob_mails (po_box s)) (update_where (\<lambda>r. mr_id r = i) f (ob_mails (po_box s)))"
proof (rule update_letters)
  fix r assume "r \<in> set (ob_mails (po_box s))" "mr_id r = i"
  with assms(2) flying_unsent [OF assms(1)] have "mr_state r = MailSending" by blast
  with assms(3) show "same_letter r (f r)" unfolding lands_def same_letter_def by simp
qed

lemma post_step_rows:
  assumes "post_step te cal lower sink s s'" "post_ok s"
  shows "list_all2 same_letter (ob_mails (po_box s)) (ob_mails (po_box s')) \<or>
    (\<exists>i m st now r. brake m now (po_box s) = Inr () \<and>
      ob_mails (po_box s') = ob_mails (po_box s) @ [new_mail i m r st now]) \<or>
    (\<exists>P. ob_mails (po_box s') = filter P (ob_mails (po_box s)))"
  using assms
proof (induction rule: post_step.induct)
  case (queue s i m now b)
  then have "take_in te cal (provider sink (po_key s)) i m MailQueued now (po_box s) = Inr b" by (simp add: enqueue_def)
  then show ?case by (rule take_in_mails) (simp, blast)
next
  case (test_on s i address now b)
  then have "take_in te cal (provider sink (po_key s)) i (MailTest \<lparr>rc_address = address, rc_user = None\<rparr>) MailSending now
    (po_box s) = Inr b" by (simp add: test_begins_def)
  then show ?case by (rule take_in_mails) (simp, blast)
next
  case (test_off i s p oc now b res)
  then have "i \<in> set (flights s)" by (simp add: flights_def)
  with test_lands [OF test_off(2)] landed_letters [OF test_off.prems]
  have "list_all2 same_letter (ob_mails (po_box s)) (ob_mails b)" using \<open>i \<in> set (flights s)\<close> by metis
  then show ?case by simp
next
  case (claim s now b q)
  show ?case using claim_row [OF claim(2)]
  proof (elim disjE bexE)
    assume "b = po_box s \<and> q = None \<and> (\<forall>r \<in> set (ob_mails (po_box s)). \<not> mail_due now r)"
    then show ?thesis by (simp add: letters_refl)
  next
    fix r assume r: "r \<in> set (ob_mails (po_box s))" "mail_due now r \<and> q = as_queued r \<and>
      ob_mails b = update_where (\<lambda>x. mr_id x = mr_id r) (\<lambda>x. x\<lparr>mr_state := MailSending\<rparr>) (ob_mails (po_box s))"
    have "mr_state x = MailQueued" if "x \<in> set (ob_mails (po_box s))" "mr_id x = mr_id r" for x
    proof -
      have "x = r" using that same_id [OF _ r(1)] claim.prems by (simp add: post_ok_def)
      with r(2) show ?thesis by (simp add: mail_due_def)
    qed
    then have "list_all2 same_letter (ob_mails (po_box s))
        (update_where (\<lambda>x. mr_id x = mr_id r) (\<lambda>x. x\<lparr>mr_state := MailSending\<rparr>) (ob_mails (po_box s)))"
      by (intro update_letters) (simp add: same_letter_def)
    with r(2) show ?thesis by simp
  qed
next
  case (deliver s q oc now)
  then have "qm_id q \<in> set (flights s)" by (simp add: flights_def)
  with delivered_lands [of q _ now "po_box s"] landed_letters [OF deliver.prems]
  have "list_all2 same_letter (ob_mails (po_box s)) (ob_mails (delivered q res now (po_box s)))" for res by metis
  then show ?case by simp
next
  case (again s i)
  have "list_all2 same_letter (ob_mails (po_box s)) (ob_mails (fst (retry_mail i (po_box s))))"
    unfolding fst_retry by (intro update_letters) (simp add: same_letter_def requeueable_def)
  then show ?case by simp
next
  case (purge s now)
  then show ?case by (auto simp: purge_mails_def delete_where_def)
next
  case (leave s user)
  then show ?case by (auto simp: account_gone_def delete_where_def)
next
  case (restart s)
  have "list_all2 same_letter (ob_mails (po_box s)) (ob_mails (requeue_stuck (po_box s)))"
    unfolding requeue_stuck_def mails_simps by (intro update_letters) (simp add: same_letter_def)
  then show ?case by simp
next
  case (save f c now s k b)
  then show ?case using save_mails [of f c now "po_key s" "po_box s" k b] by (simp add: letters_refl)
next
  case (forget s k b)
  then show ?case using forget_mails [of "po_key s" "po_box s" k b] by (simp add: letters_refl)
qed

subsection \<open>Brakes\<close>

lemma count_mono: "(\<And>r. r \<in> set t \<Longrightarrow> P r \<Longrightarrow> Q r) \<Longrightarrow> count_where P t \<le> count_where Q t"
  by (induction t) (auto simp: count_where_def le_SucI)

lemma count_letters:
  "list_all2 same_letter t t' \<Longrightarrow> (\<And>r r'. same_letter r r' \<Longrightarrow> P r' = P r) \<Longrightarrow> count_where P t' = count_where P t"
  by (induction rule: list_all2_induct) (auto simp: count_where_def)

definition kept_brakes :: "mail_row list \<Rightarrow> bool" where
  "kept_brakes t = (\<forall>a k until. count_where (\<lambda>r. mr_to r = a \<and> mr_kind r = k \<and>
       until - MAIL_WINDOW < mr_created_at r \<and> mr_created_at r \<le> until) t \<le> PER_ADDRESS_AND_KIND \<and>
     count_where (\<lambda>r. mr_kind r = KindTest \<and>
       until - MAIL_WINDOW < mr_created_at r \<and> mr_created_at r \<le> until) t \<le> TEST_MAILS)"

lemma braked_counts:
  assumes "brake m now b = Inr ()"
  shows "recent_to (rc_address (recipient_of m)) (kind_of m) (now - MAIL_WINDOW) b < PER_ADDRESS_AND_KIND"
    "kind_of m = KindTest \<Longrightarrow> recent_of_kind KindTest (now - MAIL_WINDOW) b < TEST_MAILS"
  using assms by (auto simp: brake_def Let_def not_le split: if_splits)

lemma brakes_append:
  assumes kept: "kept_brakes (ob_mails b)" and brake: "brake m now b = Inr ()"
  shows "kept_brakes (ob_mails b @ [new_mail i m r st now])"
  unfolding kept_brakes_def
proof (intro allI conjI)
  fix a k until
  let ?in = "\<lambda>r. until - MAIL_WINDOW < mr_created_at r \<and> mr_created_at r \<le> until"
  let ?to = "\<lambda>r. mr_to r = a \<and> mr_kind r = k \<and> ?in r" and ?test = "\<lambda>r. mr_kind r = KindTest \<and> ?in r"
  let ?new = "new_mail i m r st now"
  have add: "count_where P (ob_mails b @ [?new]) = count_where P (ob_mails b) + (if P ?new then 1 else 0)" for P
    by (simp add: count_where_def)
  have old: "count_where ?to (ob_mails b) \<le> PER_ADDRESS_AND_KIND" "count_where ?test (ob_mails b) \<le> TEST_MAILS"
    using kept unfolding kept_brakes_def by blast+
  show "count_where ?to (ob_mails b @ [?new]) \<le> PER_ADDRESS_AND_KIND"
  proof (cases "?to ?new")
    case True
    then have "count_where ?to (ob_mails b) \<le> recent_to (rc_address (recipient_of m)) (kind_of m) (now - MAIL_WINDOW) b"
      unfolding recent_to_def by (intro count_mono) (simp add: new_mail_def)
    with braked_counts(1) [OF brake] show ?thesis unfolding add if_P [OF True] by linarith
  next
    case False
    with old(1) show ?thesis unfolding add if_not_P [OF False] by linarith
  qed
  show "count_where ?test (ob_mails b @ [?new]) \<le> TEST_MAILS"
  proof (cases "?test ?new")
    case True
    then have "count_where ?test (ob_mails b) \<le> recent_of_kind KindTest (now - MAIL_WINDOW) b"
      unfolding recent_of_kind_def by (intro count_mono) (simp add: new_mail_def)
    moreover have "kind_of m = KindTest" using True by (simp add: new_mail_def)
    ultimately show ?thesis using braked_counts(2) [OF brake] unfolding add if_P [OF True] by linarith
  next
    case False
    with old(2) show ?thesis unfolding add if_not_P [OF False] by linarith
  qed
qed

lemma brakes_step:
  assumes "post_step te cal lower sink s s'" "post_ok s" "kept_brakes (ob_mails (po_box s))"
  shows "kept_brakes (ob_mails (po_box s'))"
  using post_step_rows [OF assms(1,2)]
proof (elim disjE exE conjE)
  assume same: "list_all2 same_letter (ob_mails (po_box s)) (ob_mails (po_box s'))"
  have "count_where P (ob_mails (po_box s')) = count_where P (ob_mails (po_box s))"
    if "\<And>r r'. same_letter r r' \<Longrightarrow> P r' = P r" for P
    using same that by (rule count_letters)
  with assms(3) show ?thesis by (simp add: kept_brakes_def same_letter_def)
next
  fix P assume "ob_mails (po_box s') = filter P (ob_mails (po_box s))"
  with assms(3) show ?thesis unfolding kept_brakes_def by (auto intro: order_trans [OF count_le_filter])
qed (use assms(3) brakes_append in simp)

lemma reachable_brakes: "post_reachable te cal lower sink s \<Longrightarrow> kept_brakes (ob_mails (po_box s))"
proof (induction rule: post_reachable.induct)
  case (begins ms)
  show ?case by (simp add: kept_brakes_def post_empty_def count_where_def)
next
  case (goes_on s s')
  then show ?case using brakes_step post_reachable_ok by blast
qed

subsection \<open>After a delivery\<close>

lemma sent_stays:
  assumes "post_step te cal lower sink s s'" "post_ok s" "r \<in> set (ob_mails (po_box s))" "mr_state r = MailSent"
  shows "r \<in> set (ob_mails (po_box s')) \<or> mr_id r \<notin> mr_id ` set (ob_mails (po_box s'))"
  using post_step_rows [OF assms(1,2)]
proof (elim disjE exE conjE)
  assume "list_all2 same_letter (ob_mails (po_box s)) (ob_mails (po_box s'))"
  with assms(3) obtain r' where "r' \<in> set (ob_mails (po_box s'))" "same_letter r r'"
    by (metis in_set_conv_nth list_all2_conv_all_nth nth_mem)
  with assms(4) show ?thesis by (simp add: same_letter_def)
next
  fix P assume mails: "ob_mails (po_box s') = filter P (ob_mails (po_box s))"
  have "x = r" if "x \<in> set (ob_mails (po_box s))" "mr_id x = mr_id r" for x
    using same_id [OF _ assms(3) that] assms(2) by (simp add: post_ok_def)
  then have "mr_id r \<notin> mr_id ` set (filter P (ob_mails (po_box s)))" if "\<not> P r" using that by auto
  with mails assms(3) show ?thesis by (cases "P r") simp_all
qed (use assms(3) in simp)

lemma refused_row:
  assumes ok: "post_ok s" and q: "po_worker s = Some q" and r: "r \<in> set (ob_mails (po_box s))" "mr_id r = qm_id q"
  shows "\<exists>r' \<in> set (ob_mails (delivered q (Inl e) now (po_box s))).
    r' = r\<lparr>mr_state := (if until_tomorrow e \<or> transient e \<and> mr_attempts r < 5 then MailQueued else MailFailed),
      mr_attempts := mr_attempts r + 1,
      mr_next := (if until_tomorrow e then Some (next_utc_day now)
        else if transient e \<and> mr_attempts r < 5 then Some (now + BACKOFF ! mr_attempts r) else None),
      mr_error := Some e\<rparr>"
proof -
  have "as_queued r = Some q" using ok q r unfolding post_ok_def by blast
  then have attempts: "qm_attempts q = mr_attempts r" by (auto simp: as_queued_def split: option.splits)
  have hit: "f r \<in> set (update_where (\<lambda>x. mr_id x = qm_id q) f (ob_mails (po_box s)))" for f
    using r by (auto simp: in_update)
  have wait: "next_attempt (mr_attempts r + 1) now =
      (if mr_attempts r < 5 then Some (now + BACKOFF ! mr_attempts r) else None)"
    by (simp add: next_attempt_def BACKOFF_def)
  have "r\<lparr>mr_state := MailQueued, mr_attempts := mr_attempts r + 1, mr_next := Some t, mr_error := Some e\<rparr>
      \<in> set (ob_mails (mark_waiting (qm_id q) t e (po_box s)))" for t
    unfolding mark_waiting_def mails_simps
    using hit [of "\<lambda>r. r\<lparr>mr_state := MailQueued, mr_attempts := mr_attempts r + 1, mr_next := Some t, mr_error := Some e\<rparr>"] .
  moreover have "r\<lparr>mr_state := MailFailed, mr_attempts := mr_attempts r + 1, mr_next := None, mr_error := Some e\<rparr>
      \<in> set (ob_mails (mark_failed (qm_id q) e (po_box s)))"
    unfolding mark_failed_def mails_simps
    using hit [of "\<lambda>r. r\<lparr>mr_state := MailFailed, mr_attempts := mr_attempts r + 1, mr_next := None, mr_error := Some e\<rparr>"] .
  ultimately show ?thesis
    unfolding delivered_def write_off_def Let_def attempts wait sum.case by auto
qed

lemma key_back: "parse_api_key t = Some key \<Longrightarrow> read_key (write_key key) = Some key"
proof -
  assume "parse_api_key t = Some key"
  then have key: "key \<noteq> []" "\<forall>c \<in> set key. \<not> is_whitespace c \<and> \<not> is_control c"
    by (auto simp: parse_api_key_def Let_def list_ex_iff split: if_splits)
  have "trim (key @ [10]) = key"
  proof -
    have 10: "is_whitespace 10" by (simp add: is_whitespace_def)
    have "trim_start (key @ [10]) = key @ [10]" using key by (cases key) (simp_all add: trim_start_def)
    moreover have "dropWhile is_whitespace (rev (key @ [10])) = rev key"
      using key 10 by (cases key rule: rev_cases) simp_all
    ultimately show ?thesis by (simp add: trim_def trim_start_def)
  qed
  with key show ?thesis by (auto simp: read_key_def write_key_def parse_api_key_def Let_def list_ex_iff)
qed

end
