(* ===== verification/Spec2Isabelle.thy ===== *)
theory Spec2Isabelle
  imports Prelude Proto Paths Model Accounts Sessions Access Rates Supervise Budget Running Console Ops
    Properties Settings Startup Ports Registration Recovery People Panel Retry Upload Backups Letters Outbox
begin

text \<open>
  CraftPanel is a panel for Minecraft servers. One process, the panel, keeps its tables in SQLite and
  answers HTTP requests (\<open>src/crates/craftpanel\<close>); a privileged helper creates system users and control
  groups and starts processes for it (\<open>src/crates/craftpanel-helper\<close>); beside every running game a
  supervisor holds its console and reports to the panel over a socket. The messages between the three are
  the crate \<open>craftpanel-proto\<close>. This development models the panel's own logic and the supervisor's; the
  theories follow the modules of the source.

  \<^bold>\<open>How code becomes definitions.\<close> A table is a list of records, a statement of SQL a list operation on it
  (\<open>fetch_optional\<close>, \<open>update_where\<close>, \<open>delete_where\<close>, \<open>order_by\<close> in \<open>Prelude\<close>), with unique indices and
  foreign keys written out as guards. A handler returns the tables it leaves and its answer,
  \<open>failure + 'a\<close>; \<open>and_then\<close> is the question mark of Rust. A failure keeps its status, its code and its
  \<open>retry_after\<close>, not the sentence for the reader. Identifiers are naturals, a \<open>Timestamp\<close> is whole seconds, an
  \<open>Instant\<close> or a \<open>Duration\<close> nanoseconds, text the list of its code points, a mask of permissions a 64-bit
  word. What comes from outside a handler - the clock, fresh identifiers and secrets, SHA-256, argon2, the
  answers of Google, of the helper, of the mailer and of the disk - is an argument of its definition. One
  call is one step: between two \<open>await\<close>s of one handler another handler may run in the program, and the
  theorems on reachable states speak of handlers that do not overlap, except where a handler is split into
  the parts the program awaits between (backup runs, scheduled backups, the watching task of a server, the delivery of
  a mail).

  \<^bold>\<open>Theories.\<close>
  \<^item> \<open>Prelude\<close>: types, failures, statements of SQL, strings and numbers as the standard library reads them.
  \<^item> \<open>Model\<close>: the enumerations of \<open>model.rs\<close> with their names on the wire (locale \<open>wire_enum\<close>, interpreted
    on each), permissions and roles. \<open>Proto\<close>: the messages of \<open>craftpanel-proto\<close> and the names either side
    accepts. \<open>Paths\<close>: \<open>files/path.rs\<close>.
  \<^item> \<open>Accounts\<close>, \<open>Sessions\<close>, \<open>Access\<close>, \<open>Budget\<close>: \<open>auth/users.rs\<close> and \<open>auth/password.rs\<close>; \<open>auth/session.rs\<close>,
    \<open>auth/extract.rs\<close>, \<open>auth/secret.rs\<close>; \<open>auth/access.rs\<close> and \<open>ops/access.rs\<close>; \<open>auth/limits.rs\<close>.
  \<^item> \<open>Rates\<close>: \<open>auth/rates.rs\<close>, \<open>auth/brake.rs\<close> and the limiter of \<open>console/mod.rs\<close> (locale \<open>sliding_window\<close>,
    interpreted on both limiters).
  \<^item> \<open>Registration\<close>, \<open>Recovery\<close>, \<open>People\<close>, \<open>Panel\<close>: signing up (\<open>registration/\<close>), reset links (\<open>auth/reset.rs\<close>,
    \<open>api/recovery.rs\<close>), signing in, the terminal and the administrator's handlers (\<open>api/session.rs\<close>,
    \<open>auth/cli.rs\<close>, \<open>api/admin.rs\<close>); \<open>Panel\<close> joins them in one step relation \<open>panel_step\<close> over one state and proves
    what every reachable state satisfies.
  \<^item> \<open>Supervise\<close>, \<open>Running\<close>: the supervisor, its ring, its
    bounded channel and its queue (locale \<open>bounded_log\<close>; \<open>away\<close> interleaves them while no panel is there), the hub of links
    (\<open>supervise/\<close>, \<open>servers/hub.rs\<close>, \<open>servers/state.rs\<close>), and starting, stopping and watching servers
    (\<open>servers/manager.rs\<close>). A link is an address in a store, so that \<open>Arc::ptr_eq\<close> is equality of addresses.
  \<^item> \<open>Console\<close>: \<open>ops/console.rs\<close>, the console part of \<open>ops/events.rs\<close>, the bundles of \<open>ops/follow.rs\<close>.
  \<^item> \<open>Ops\<close>: \<open>ops/store.rs\<close> and the operations of \<open>ops/mod.rs\<close> over it, as the step relation \<open>ops_step\<close>, with a saved width,
    the mark of an unpacking and the deletion of a server between them.
  \<^item> \<open>Properties\<close>, \<open>Settings\<close>, \<open>Startup\<close>, \<open>Ports\<close>: \<open>settings/properties.rs\<close>; \<open>settings/known.rs\<close> and
    \<open>settings/store.rs\<close>; \<open>settings/startup.rs\<close> and \<open>settings/runtimes.rs\<close>; \<open>settings/allocations.rs\<close>,
    \<open>auth/settings.rs\<close> (of the row it saves the port pool; the width is \<open>set_width\<close> of \<open>Ops\<close>), the creation of a server in
    \<open>servers/manager.rs\<close> and the memory of a patch in \<open>api/settings.rs\<close> (step relation \<open>estate_step\<close>).
  \<^item> \<open>Retry\<close>, \<open>Upload\<close>: \<open>drive/http.rs\<close>, \<open>drive/retry.rs\<close>, \<open>drive/upload.rs\<close>, \<open>drive/day.rs\<close>.
  \<^item> \<open>Backups\<close>: \<open>backups/store.rs\<close>, \<open>backups/schedule.rs\<close> and the handlers and runs of \<open>backups/mod.rs\<close> over the
    tables of \<open>Ops\<close> (step relation \<open>backups_step\<close>).
  \<^item> \<open>Letters\<close>: what a mail says: \<open>mail/message.rs\<close>, \<open>mail/render.rs\<close> (escaping, filling of templates,
    wrapped text) and what the provider's refusals mean (\<open>mail/resend.rs\<close>). The lemmas show that values cannot
    change the markup of a mail and that links carry their tokens.
  \<^item> \<open>Outbox\<close>: the table of mails and its service: \<open>mail/store.rs\<close>, \<open>mail/queue.rs\<close>, \<open>mail/mod.rs\<close>,
    \<open>mail/key.rs\<close>, \<open>api/mail.rs\<close>. The relation \<open>post_step\<close> has the worker's claim and its delivery as two
    steps, so that other requests and restarts come between them; its invariant is \<open>post_ok\<close>.

  \<^bold>\<open>What the lemmas show.\<close> Each theory proves that its operations keep the invariant of its state
  (\<open>ops_ok\<close>, \<open>sessions_ok\<close>, \<open>buckets_ok\<close>, \<open>console_ok\<close>, \<open>hub_ok\<close>, \<open>ring_ok\<close>, \<open>signups_ok\<close>, \<open>panel_ok\<close>, \<open>ports_ok\<close>,
  \<open>estate_ok\<close>, \<open>overrides_ok\<close>, \<open>backups_ok\<close>, \<open>valid_path\<close>) and what each operation answers. This theory states the
  properties of the program over them: safety and invariants over the reachable states, equivalence of
  what the code does twice (both access checks, both lists of servers, \<open>check\<close> and \<open>note\<close> against \<open>take\<close>),
  round trips, bounds, and what the hard paths end in: recovery after a restart, a lost panel, a failed
  call to Google, a refused operation. A closed theorem after each one applies it to a concrete state.

  \<^bold>\<open>Loops and their bounds.\<close> Every loop is a total function. The retry loop ends by the tries its plan has left
  (\<open>trying_on\<close>), a pause by the time it still has to wait (\<open>linger\<close>), the upload by the turns, the
  renewals and the bytes that are left (\<open>send_loop\<close>), the search for the next run by the distance to the
  present (\<open>first_later\<close>), the loops over text by its length. No definition has fuel that could run out.

  \<^bold>\<open>Not modelled.\<close> Files, archives, processes, control groups and sockets themselves (\<open>files/archive.rs\<close>,
  \<open>files/jail.rs\<close>, \<open>backups/archive.rs\<close>, the helper): they are system calls, whose outcome is an argument here.
  Clients of other services (Modrinth, Adoptium, playit, Resend, Google's sign-in) and the downloads
  made through them. The scheduling of tokio tasks and its broadcast channels. The encoding of requests
  and answers as JSON, which serde derives. The remaining handlers of \<open>api/\<close> decode a request, call a
  module above and encode its answer.
\<close>

section \<open>Sample tables the witnesses are evaluated on\<close>

definition sample_new :: "operation_kind \<Rightarrow> new_operation" where
  "sample_new kind = \<lparr>new_server = 1, new_kind = kind, new_started_by = None, new_src = None,
     new_target = None, new_parent = None, new_input = None, expects_payload = False,
     new_message = None\<rparr>"

definition sample_server :: server_row where
  "sample_server = \<lparr>srv_id = 1, srv_owner = 7, srv_status = ServerAvailable,
     srv_operations_revision = 0, srv_flows_intro = False\<rparr>"

definition sample_empty :: ops_db where
  "sample_empty = \<lparr>operations = [], ops_servers = [sample_server], ops_backups = [],
     ops_uploads = [], ops_width = 2\<rparr>"

definition sample_db :: ops_db where
  "sample_db = fst (op_insert 11 100 (sample_new OpInstallContent) sample_empty)"

lemma sample_reachable: "ops_reachable sample_db"
  unfolding sample_db_def
  by (rule ops_reachable.Step [OF ops_reachable.Empty ops_step.Create]) (simp_all add: sample_empty_def)

lemma sample_operations: "operations sample_db = [queued_row 11 100 (sample_new OpInstallContent)]"
  by (simp add: sample_db_def op_insert_def collides_def references_exist_def Let_def sample_empty_def
      sample_new_def sample_server_def)

definition sample_limits :: user_limits where
  "sample_limits = \<lparr>memory_mib = 4096, cpu_mode = Cap, cpu_cores = Finite 2, pids_max = 512, disk_mib = 10240\<rparr>"

definition sample_user :: user_row where
  "sample_user = \<lparr>u_id = 7, u_username = lit ''max'', u_email = None, u_origin = ByAdmin,
     u_password_hash = [], u_role = User, u_system_uid = Some 1007, u_system_state = Ready,
     u_system_error = None, u_busy = False, u_must_change_password = False, u_created_at = 0,
     u_last_login_at = None, u_limits = sample_limits\<rparr>"

definition sample_row :: "power_state \<Rightarrow> power_row" where
  "sample_row st = \<lparr>srv_id = 1, srv_owner = 7, srv_status = ServerAvailable,
     srv_operations_revision = 0, srv_flows_intro = False, pr_memory = 2048, pr_loader = None,
     pr_flags = [], pr_power = st, pr_running_since = None, pr_oom = False, pr_token = None\<rparr>"

definition sample_manager :: "power_state \<Rightarrow> manager" where
  "sample_manager st = \<lparr>m_name = (\<lambda>i. [i]), m_servers = [sample_row st], m_users = [sample_user],
     m_hub = hub_new, m_wishes = Map.empty, m_watched = {}, m_reports = [], m_spawned = [],
     m_stop_grace = None\<rparr>"

definition sample_launch :: launch where
  "sample_launch = \<lparr>l_now = 100, l_token = lit ''token'', l_java = Inr (lit ''java''), l_spawns = True,
     l_socket = lit ''sock''\<rparr>"

lemmas sample_power = sample_manager_def sample_row_def sample_user_def sample_limits_def
  sample_launch_def

section \<open>Operations\<close>

text \<open>C1: In every table the panel can reach, a server has at most one running operation and at
  most one open backup and one open restore, and an operation carries a finishing time exactly when
  it has ended. The width, which an administrator may change at any moment, bounds what is begun: no
  step makes more operations run than the width of that moment allows, so that never more run than the
  greatest width that was set (where it was lowered, those running over it run on to their end).\<close>

theorem operations_bounded:
  "ops_within w db \<Longrightarrow>
    (\<forall>s. running_on (operations db) s \<le> 1) \<and> int (all_running db) \<le> w \<and>
    (\<forall>db'. ops_step db db' \<longrightarrow> int (all_running db') \<le> max (int (all_running db)) (ops_width db)) \<and>
    (\<forall>s. open_of (operations db) s OpBackupCreate \<le> 1 \<and> open_of (operations db) s OpBackupRestore \<le> 1) \<and>
    (\<forall>r \<in> set (operations db). (op_finished_at r = None) = is_open (op_state r))"
  using reachable_ops [OF within_reachable, of w db] within_running [of w db] ops_step_running [of db]
  by (simp add: ops_ok_def finished_iff_def)

theorem operations_bounded_witness:
  "running_on (operations sample_db) 1 \<le> 1 \<and> int (all_running sample_db) \<le> 2 \<and>
    int (all_running (fst (op_begin 200 11 sample_db))) \<le> max (int (all_running sample_db)) (ops_width sample_db)"
proof -
  have "ops_within 2 sample_db"
    unfolding sample_db_def
    by (rule ops_within.Go [OF ops_within.Start ops_step.Create]) (simp_all add: sample_empty_def insert_running)
  from operations_bounded [OF this] show ?thesis using ops_step.Begin by blast
qed

text \<open>C2: The dispatcher can start everything it plans: beginning the operations of \<open>runnable\<close> one
  after the other, each is begun, none is refused for its server or for the width.\<close>

theorem plan_begins:
  "ops_reachable db \<Longrightarrow> \<exists>qs. runnable db = map op_id qs \<and>
    snd (begin_all now (runnable db) db) = map (\<lambda>q. Inr (Some (started now q))) qs"
proof -
  assume "ops_reachable db"
  then have "ops_ok db" by (rule reachable_ops)
  obtain qs where qs: "runnable db = map op_id qs" "startable db qs" by (rule runnable_startable)
  with startable_begins [OF \<open>ops_ok db\<close> qs(2)] show ?thesis by metis
qed

theorem plan_begins_witness:
  "runnable sample_db = [11] \<and> (\<exists>qs. runnable sample_db = map op_id qs \<and>
    snd (begin_all 200 (runnable sample_db) sample_db) = map (\<lambda>q. Inr (Some (started 200 q))) qs)"
proof -
  have "ops_width sample_db = 2"
    by (simp add: sample_db_def op_insert_def collides_def references_exist_def Let_def sample_empty_def
        sample_new_def sample_server_def)
  then have "runnable sample_db = [11]"
    by (simp add: runnable_def sample_operations queued_row_def sample_new_def ongoing_def
        count_where_def order_by_def Let_def)
  with plan_begins [OF sample_reachable, of 200] show ?thesis by simp
qed

text \<open>C3: After a restart of the panel every operation that was open has failed with the error that
  names its interruption, except a deletion of a server, which stays to be resumed; every other
  operation is as it was.\<close>

theorem recovery_fails_what_was_open:
  "ops_reachable db \<Longrightarrow>
    map op_core (operations (ops_recover now db)) = map (\<lambda>r.
      if is_open (op_state r) \<and> op_kind r \<noteq> OpServerDelete
      then (op_id r, Failed, op_kind r, Some (interruption (op_kind r) (op_applied_at r \<noteq> None)))
      else op_core r) (operations db) \<and>
    (\<forall>q \<in> set (operations (ops_recover now db)). is_open (op_state q) \<longrightarrow> op_kind q = OpServerDelete)"
  using reachable_ops [of db] recovered_core [of db now] open_after_recover [of db _ now]
  by (simp add: recoverable_def)

theorem recovery_fails_what_was_open_witness:
  "map op_core (operations (ops_recover 300 sample_db)) =
    [(11, Failed, OpInstallContent, Some \<lparr>err_code = ''panel_restarted'', err_step = StepInternal\<rparr>)]"
  using recovery_fails_what_was_open [OF sample_reachable, of 300]
  by (simp add: sample_operations queued_row_def sample_new_def interruption_def op_core_def)

text \<open>The retention keeps every open operation, every failed deletion whose server is still
  being deleted, and everything that ended less than seven days ago; it removes the rest.\<close>

theorem retention_keeps:
  "ops_reachable db \<Longrightarrow>
    r \<in> set (operations (purge_finished (now - RETENTION) db)) \<longleftrightarrow> r \<in> set (operations db) \<and>
      (is_open (op_state r) \<or> standing_failure (ops_servers db) r \<or>
       (\<exists>t. op_finished_at r = Some t \<and> now - 604800 \<le> t))"
  using reachable_ops [of db] purge_rows [of db r "now - RETENTION"]
  by (simp add: RETENTION_def)

theorem retention_keeps_witness:
  "queued_row 11 100 (sample_new OpInstallContent) \<in> set (operations (purge_finished (900000 - RETENTION) sample_db))"
  using retention_keeps [OF sample_reachable, of _ 900000]
  by (simp add: sample_operations queued_row_def)

text \<open>A write to a server is refused as busy exactly when an operation other than the unpacking of
  an archive is open on it, and let through otherwise.\<close>

theorem writes_are_guarded:
  "guard_write db s =
    (if \<exists>r. r \<in> set (operations db) \<and> op_server r = s \<and> is_open (op_state r) \<and> op_kind r \<noteq> OpUnarchive
     then Inl (conflict ''server_busy'') else Inr ())"
proof -
  have "guard_write db s = Inr () \<or> guard_write db s = Inl (conflict ''server_busy'')"
    by (simp add: guard_write_def split: list.splits)
  then show ?thesis using guard_write_iff [of db s] by auto
qed

text \<open>\<open>settle\<close> does not ask whether the operation is still open: one the watchdog has failed
  for a timeout becomes done, without an error, when its worker finishes after all.\<close>

theorem finished_after_timeout:
  "op_fetch db i = Inr r \<Longrightarrow> op_state r = Failed \<Longrightarrow>
    \<exists>q. op_fetch (fst (op_finish now i db)) i = Inr q \<and> op_state q = Done \<and> op_error q = None \<and>
      op_finished_at q = Some now"
proof -
  assume r: "op_fetch db i = Inr r" "op_state r = Failed"
  then have "fetch_optional (\<lambda>q. op_id q = i) (operations db) = Some r"
    by (simp add: op_fetch_def split: option.splits)
  moreover have "op_id r = i" using op_fetch_Inr [OF r(1)] by simp
  moreover have "fetch_optional (\<lambda>q. op_id q = i) (operations (fst (op_finish now i db))) =
      map_option (\<lambda>q. if op_id q = i then settled_row now Done None q else q)
        (fetch_optional (\<lambda>q. op_id q = i) (operations db))"
    unfolding op_finish_def settle_rows by (rule fetch_update) (simp_all add: settled_row_def)
  ultimately show ?thesis by (simp add: op_fetch_def settled_row_def)
qed

definition sample_timed_out :: ops_db where
  "sample_timed_out = fst (op_fail 700 \<lparr>err_code = ''timeout'', err_step = StepInternal\<rparr> 11 sample_db)"

theorem finished_after_timeout_witness:
  "\<exists>q. op_fetch (fst (op_finish 800 11 sample_timed_out)) 11 = Inr q \<and> op_state q = Done \<and>
    op_error q = None \<and> op_finished_at q = Some 800"
  by (rule finished_after_timeout [where r = "settled_row 700 Failed
        (Some \<lparr>err_code = ''timeout'', err_step = StepInternal\<rparr>) (queued_row 11 100 (sample_new OpInstallContent))"])
    (simp_all add: sample_timed_out_def op_fail_def op_fetch_def settle_rows sample_operations
      update_where_def fetch_optional_def queued_row_def settled_row_def)

text \<open>C4: Work is never left lying while a slot is free: when fewer operations run than the width allows and an
  operation is ready - queued, its payload there, its server idle - the plan starts with the
  oldest of the ready ones.\<close>

theorem the_oldest_starts:
  assumes "q \<in> set (operations db)" "op_state q = Queued" "op_payload q \<noteq> PayloadExpected"
    and "running_on (operations db) (op_server q) = 0" "int (all_running db) < ops_width db"
    and "\<not> (\<exists>r \<in> set (operations db). op_id r < op_id q \<and> op_state r = Queued \<and> op_payload r \<noteq> PayloadExpected \<and>
      running_on (operations db) (op_server r) = 0)"
  shows "\<exists>rest. runnable db = op_id q # rest"
proof -
  let ?ready = "\<lambda>r. op_state r = Queued \<and> op_payload r \<noteq> PayloadExpected \<and>
    op_server r \<notin> set (map op_server (filter ongoing (operations db)))"
  let ?rows = "order_by op_id (filter ?ready (operations db))"
  have idle: "op_server r \<notin> set (map op_server (filter ongoing (operations db))) \<longleftrightarrow>
      running_on (operations db) (op_server r) = 0" for r
    unfolding running_on_def count_zero_iff image_iff set_map set_filter by force
  have "q \<in> set ?rows" unfolding set_order set_filter mem_Collect_eq idle using assms(1-4) by blast
  then obtain x xs where rows: "?rows = x # xs" by (cases ?rows) auto
  then have "x \<in> set ?rows" by simp
  then have x: "x \<in> set (operations db)" "?ready x" unfolding set_order by simp_all
  have "sorted (map op_id ?rows)" unfolding order_by_def by (rule sorted_sort_key)
  then have "sorted (map op_id (x # xs))" unfolding rows .
  then have "op_id x \<le> op_id q" using \<open>q \<in> set ?rows\<close> unfolding rows by auto
  moreover have "\<not> op_id x < op_id q" using assms(6) x idle by blast
  ultimately have "op_id x = op_id q" by simp
  moreover have "0 < nat (ops_width db - int (count_where ongoing (operations db)))"
    using assms(5) by (simp add: all_running_def)
  then obtain n where "nat (ops_width db - int (count_where ongoing (operations db))) = Suc n" using gr0_conv_Suc by blast
  ultimately show ?thesis unfolding runnable_def Let_def rows by simp
qed

theorem the_oldest_starts_witness:
  "\<exists>rest. runnable sample_db = 11 # rest"
proof -
  let ?q = "queued_row 11 100 (sample_new OpInstallContent)"
  have "ops_width sample_db = 2"
    by (simp add: sample_db_def op_insert_def collides_def references_exist_def Let_def sample_empty_def
        sample_new_def sample_server_def)
  then show ?thesis
    using the_oldest_starts [of ?q sample_db]
    by (simp add: sample_operations queued_row_def sample_new_def running_on_def all_running_def count_where_def ongoing_def)
qed

section \<open>Game servers\<close>

text \<open>C5: No power action leaves a server that claims to be starting, running or stopping without a
  task that watches it: starting, stopping, restarting and killing, refused or not, keep it so.\<close>

theorem power_keeps_watch:
  "attended m \<Longrightarrow> attended (fst (power busy server action l listening m))"
  by (rule power_attended_lib)

theorem power_keeps_watch_witness:
  "attended (sample_manager PowerStopped) \<and>
    attended (fst (power None 1 ActStart sample_launch True (sample_manager PowerStopped)))"
proof -
  have "attended (sample_manager PowerStopped)"
    by (simp add: attended_def claims_to_run_def sample_power)
  with power_keeps_watch [OF this] show ?thesis by simp
qed

text \<open>C6: When the watching task ends without a restart to carry out, the server is stopped or
  crashed as its wish and its last state say, a killed server is never reported as crashed, its
  supervisor's token is forgotten so that no supervisor attaches under its name any more, and
  every other server that claims to run is still watched.\<close>

theorem watch_settles:
  assumes "row_of m s = Some row" "wish_target (wish_of m s) \<noteq> Some TargetRestart"
  shows "(\<exists>r. row_of (watch_ends s ended l m) s = Some r \<and>
      (pr_power r, pr_oom r) = settled_state (wish_of m s) ended \<and>
      pr_power r \<in> {PowerStopped, PowerCrashed} \<and>
      (wish_killed (wish_of m s) \<longrightarrow> pr_power r = PowerStopped)) \<and>
    snd (snd (greet (Hello (m_name m s) token pid v) (m_hub (watch_ends s ended l m)))) = None \<and>
    (attended m \<longrightarrow> attended (watch_ends s ended l m))"
proof -
  have w: "watch_ends s ended l m = (put_down s ended (l_now l) m)\<lparr>m_watched := m_watched m - {s}\<rparr>"
    using assms(2) by (simp add: watch_ends_def settle_split Let_def)
  from assms(1) obtain r where r: "row_of (put_down s ended (l_now l) m) s = Some r"
    "(pr_power r, pr_oom r) = settled_state (wish_of m s) ended" by (rule put_down_row)
  moreover have "pr_power r \<in> {PowerStopped, PowerCrashed}"
    using settled_dead [of "wish_of m s" ended] r(2) by (metis fst_conv)
  moreover have "wish_killed (wish_of m s) \<longrightarrow> pr_power r = PowerStopped"
    using r(2) by (auto simp: settled_state_def)
  moreover have "snd (snd (greet (Hello (m_name m s) token pid v) (m_hub (watch_ends s ended l m)))) = None"
    by (simp add: w greet_def)
  moreover have "row_of (watch_ends s ended l m) s = Some r" using r(1) by (simp add: w)
  moreover have "attended m \<longrightarrow> attended (watch_ends s ended l m)"
    using settled_attended [OF _ assms(2)] by blast
  ultimately show ?thesis by blast
qed

theorem watch_settles_witness:
  "\<exists>r. row_of (watch_ends 1 OutOfMemory sample_launch (sample_manager PowerRunning)) 1 = Some r \<and>
    pr_power r = PowerCrashed \<and> pr_oom r"
proof -
  have "row_of (sample_manager PowerRunning) 1 = Some (sample_row PowerRunning)"
    by (simp add: row_of_def sample_power fetch_optional_def)
  moreover have "wish_of (sample_manager PowerRunning) 1 = no_wish"
    by (simp add: wish_of_def sample_power)
  ultimately show ?thesis
    using watch_settles [of "sample_manager PowerRunning" 1 "sample_row PowerRunning" OutOfMemory
        sample_launch "[]" 0 0]
    by (auto simp: no_wish_def settled_state_def)
qed

text \<open>C7: A restart loses its watcher: the task that settles a stopped server and starts it again is
  itself still on the watch list, so \<open>watch\<close> starts no new one, and when the task ends it takes
  the server off the list. The server is left starting, with its token handed out and nobody
  watching it.\<close>

theorem restart_is_unwatched:
  "row_of m s = Some row \<Longrightarrow> srv_id row = s \<Longrightarrow> wish_target (wish_of m s) = Some TargetRestart \<Longrightarrow>
   may_start m row l = Inr program \<Longrightarrow> l_spawns l \<Longrightarrow>
    s \<notin> m_watched (watch_ends s ended l m) \<and> \<not> attended (watch_ends s ended l m) \<and>
    hub_tokens (m_hub (watch_ends s ended l m)) (m_name m s) = Some (l_token l)"
proof -
  assume a: "row_of m s = Some row" "srv_id row = s" "wish_target (wish_of m s) = Some TargetRestart"
    "may_start m row l = Inr program" "l_spawns l"
  note u = restart_leaves_unwatched [OF a(1,3,4,5,2), of ended]
  then obtain r where r: "row_of (watch_ends s ended l m) s = Some r" "pr_power r = PowerStarting" by blast
  then have "r \<in> set (m_servers (watch_ends s ended l m))" "srv_id r = s"
    by (auto simp: row_of_def dest: fetch_SomeD)
  with r(2) u show ?thesis by (auto simp: attended_def claims_to_run_def)
qed

definition sample_restart :: manager where
  "sample_restart = (sample_manager PowerStopping)\<lparr>m_watched := {1}, m_wishes := [1 \<mapsto>
     \<lparr>wish_target = Some TargetRestart, wish_killed = False, wish_undelivered = False\<rparr>]\<rparr>"

theorem restart_is_unwatched_witness:
  "attended sample_restart \<and> \<not> attended (watch_ends 1 Stopped sample_launch sample_restart)"
proof -
  have "may_start sample_restart (sample_row PowerStopping) sample_launch = Inr (lit ''java'')"
    by (simp add: may_start_def sample_restart_def sample_power users_load_def users_find_def
        fetch_optional_def allocated_mib_def exceeded_by_def budget_memory_def)
  moreover have "row_of sample_restart 1 = Some (sample_row PowerStopping)"
    by (simp add: row_of_def sample_restart_def sample_power fetch_optional_def)
  ultimately have "\<not> attended (watch_ends 1 Stopped sample_launch sample_restart)"
    using restart_is_unwatched [of sample_restart 1 "sample_row PowerStopping" sample_launch "lit ''java''" Stopped]
    by (simp add: sample_restart_def wish_of_def sample_power)
  then show ?thesis by (simp add: attended_def sample_restart_def sample_power)
qed

text \<open>After a restart of the panel the servers that claim to be starting, running or stopping
  are those that claimed it before and whose supervisor has come back, and each has a watcher.\<close>

theorem reconciled_servers:
  "claim_ids (reconcile now open_ops m) = claim_ids m \<inter> attached_ids m \<and>
    attended (reconcile now open_ops m)"
  using reconciled by blast

text \<open>C8: A server that was started admits the one supervisor that knows the token it was started
  with: that token stands in the request the helper got, another is refused, and once it is
  greeted the server counts as running.\<close>

theorem started_admits_its_supervisor:
  assumes "start row l m = (m', Inr ())" "greet (Hello (m_name m (srv_id row)) token pid v) (m_hub m') = (h, answer, r)"
  shows "(r \<noteq> None \<longleftrightarrow> token = l_token l) \<and> sr_token (last (m_spawned m')) = l_token l \<and>
    srv_id row \<in> m_watched m' \<and>
    (r \<noteq> None \<longrightarrow> answer = Accepted \<and> current (m'\<lparr>m_hub := h\<rparr>) (srv_id row) = Inr Running)"
proof -
  obtain program where may: "may_start m row l = Inr program"
    using assms(1) by (cases "may_start m row l") (auto simp: start_def)
  have spawns: "l_spawns l" using assms(1) may by (auto simp: start_def Let_def split: if_splits)
  have m': "m' = fst (start row l m)" using assms(1) by simp
  have "m_spawned m' = m_spawned m @ [sr] \<Longrightarrow> last (m_spawned m') = sr" for sr by simp
  moreover have "\<exists>x. m_spawned m' = x @ [request_of (say_state (srv_id row) PowerStarting (Some TargetStart) False
      (write_state (l_now l) (srv_id row) PowerStarting False (set_wish (srv_id row)
        \<lparr>wish_target = Some TargetStart, wish_killed = False, wish_undelivered = False\<rparr>
        (put_token (srv_id row) (l_token l) m)))) row program l]"
    using may spawns by (simp add: m' start_def Let_def)
  ultimately have "sr_token (last (m_spawned m')) = l_token l" by (auto simp: request_of_def)
  moreover have "r \<noteq> None \<longleftrightarrow> token = l_token l"
    using assms(2) start_hub(1) [OF may spawns]
    by (auto simp: m' greet_def Supervise.set_token_def split: if_splits)
  moreover have "r \<noteq> None \<longrightarrow> answer = Accepted \<and> current (m'\<lparr>m_hub := h\<rparr>) (srv_id row) = Inr Running"
    using assms(2) start_hub(2) [OF may spawns]
    by (auto simp: m' greet_def current_def hub_link_def split: if_splits)
  ultimately show ?thesis using start_hub(3) [OF may spawns] by (simp add: m')
qed

theorem started_admits_its_supervisor_witness:
  "\<exists>m' h answer r. start (sample_row PowerStopped) sample_launch (sample_manager PowerStopped) = (m', Inr ()) \<and>
    greet (Hello [1] (lit ''token'') 4242 2) (m_hub m') = (h, answer, r) \<and> r \<noteq> None"
proof -
  let ?s = "start (sample_row PowerStopped) sample_launch (sample_manager PowerStopped)"
  have may: "may_start (sample_manager PowerStopped) (sample_row PowerStopped) sample_launch = Inr (lit ''java'')"
    by (simp add: may_start_def sample_power users_load_def users_find_def fetch_optional_def
        allocated_mib_def exceeded_by_def budget_memory_def)
  then have s: "?s = (fst ?s, Inr ())" by (simp add: start_def Let_def sample_launch_def)
  obtain h answer r where g: "greet (Hello [1] (lit ''token'') 4242 2) (m_hub (fst ?s)) = (h, answer, r)"
    by (cases "greet (Hello [1] (lit ''token'') 4242 2) (m_hub (fst ?s))")
  have "r \<noteq> None" using started_admits_its_supervisor [OF s, of "lit ''token''" 4242 2 h answer r] g
    by (simp add: sample_power)
  with s g show ?thesis by blast
qed

section \<open>Supervisors\<close>

text \<open>A run ends in a dead state it may legally end in: the state after an exit is never live, it
  may follow starting, running and stopping, nothing but a start leads to running, and a dead
  server becomes live again only by an installation or a start.\<close>

theorem run_states:
  "\<not> is_live (after_exit c sig oom) \<and>
    (\<forall>s. s = Starting \<or> s = Running \<or> s = Stopping \<longrightarrow> can_become s (after_exit c sig oom)) \<and>
    (\<forall>a. can_become a Running \<longrightarrow> a = Starting) \<and>
    (\<forall>a b. can_become a b \<and> \<not> is_live a \<longrightarrow> b = Installing \<or> b = Starting) \<and>
    (\<forall>a b. can_become a b \<and> \<not> is_live b \<longrightarrow> is_live a)"
  using after_exit_dead after_exit_reachable running_from_starting dead_states_alike live_before_dead
  by auto

theorem run_states_witness:
  "can_become Running (after_exit None (Some 9) True) \<and> after_exit None (Some 9) True = OutOfMemory"
  using run_states [of None "Some 9" True] by (simp add: after_exit_def)

text \<open>Whatever a game prints, the ring of its supervisor replays the newest 2000 lines, in order
  and numbered without a gap up to the last line printed.\<close>

theorem ring_replays_the_newest:
  "map (\<lambda>m. (out_line m, out_stream m)) (ring_replay (push_all (ring_new RING_CAPACITY) ls)) =
      last_n RING_CAPACITY ls \<and>
    map out_seq (ring_replay (push_all (ring_new RING_CAPACITY) ls)) =
      [Suc (length ls) - min (length ls) RING_CAPACITY ..< Suc (length ls)]"
proof -
  let ?r = "push_all (ring_new RING_CAPACITY) ls"
  have ok: "ring_ok ?r" by (rule push_all_ok [OF ring_new_ok])
  have l: "map snd (ring_lines ?r) = last_n RING_CAPACITY ls"
    "ring_next_seq ?r = Suc (length ls)"
    using push_all_lines [OF ring_new_ok, of ls] by (simp_all add: ring_new_def)
  have "length (ring_lines ?r) = min (length ls) RING_CAPACITY"
    using arg_cong [OF l(1), of length] by (simp add: min.commute)
  moreover have "map (\<lambda>m. (out_line m, out_stream m)) (ring_replay ?r) = map snd (ring_lines ?r)"
    by (auto simp: ring_replay_def)
  moreover have "map out_seq (ring_replay ?r) = map fst (ring_lines ?r)"
    by (auto simp: ring_replay_def)
  ultimately show ?thesis using ok l by (simp add: ring_ok_def)
qed

text \<open>C9: A newer connection of a server's supervisor keeps its place when an older one ends, and
  frees it when it ends itself.\<close>

theorem newer_link_stays:
  "hub_ok h \<Longrightarrow> greet (Hello server token pid v) h = (h', Accepted, Some r) \<Longrightarrow> old \<noteq> r \<Longrightarrow>
    hub_links (detach old h') server = Some r \<and> hub_links (detach r (detach old h')) server = None"
proof -
  assume a: "hub_ok h" "greet (Hello server token pid v) h = (h', Accepted, Some r)" "old \<noteq> r"
  have ok: "hub_ok h'" using greet_ok [OF a(1)] a(2) by (metis fst_conv)
  have "hub_links h' server = Some r" using a(2) by (auto simp: greet_def split: if_splits)
  then show ?thesis using a(3) detach_lookup [OF ok] detach_lookup [OF detach_ok [OF ok]] by simp
qed

definition sample_hub :: hub where
  "sample_hub = fst (greet (Hello [1] [9] 10 2) (Supervise.set_token [1] [9] hub_new))"

theorem newer_link_stays_witness:
  "hub_links (detach 0 (fst (greet (Hello [1] [9] 11 2) sample_hub))) [1] = Some 1"
proof -
  have "hub_ok sample_hub" unfolding sample_hub_def by (intro greet_ok tokens_ok hub_new_ok)
  moreover have "greet (Hello [1] [9] 11 2) sample_hub =
      (fst (greet (Hello [1] [9] 11 2) sample_hub), Accepted, Some 1)"
    by (simp add: sample_hub_def greet_def Supervise.set_token_def hub_new_def)
  ultimately show ?thesis using newer_link_stays by (metis zero_neq_one)
qed

text \<open>An unreadable line leaves the link of its dead connection in the hub; the end of the stream does not.\<close>

theorem unreadable_line_keeps_the_link:
  "hub_ok h \<Longrightarrow> hub_links h server = Some r \<Longrightarrow>
    hub_links (connection_over True r h) server = Some r \<and> hub_links (connection_over False r h) server = None"
  by (simp add: connection_over_def detach_lookup)

text \<open>C10: The end of the game reaches a panel that was away. However the supervisor's readers, its channel of
  256 messages and the loop that empties it take turns meanwhile, the queue keeps at most 2000 messages,
  and as long as fewer than 2000 lines were read behind the end of the game, its message is still there;
  when the panel comes back and takes what it is sent, the message is among it, whatever was queued or
  stuck in the channel before. (A connection that breaks while the queue is delivered may lose it: see
  \<open>exit_is_lost_in_delivery\<close>.)\<close>

theorem exit_is_kept:
  "sup_ok s \<Longrightarrow> away (watch_exit c sig forced oom s) n s' \<Longrightarrow> n < 2000 \<Longrightarrow>
    length (sup_pending s') \<le> 2000 \<and> exit_message c sig forced oom \<in> set (stock s') \<and>
    (\<forall>k j resumed sent. attach k s' = (resumed, sent, True) \<longrightarrow> length (sup_channel resumed @ sup_waiting resumed) \<le> j \<longrightarrow>
      exit_message c sig forced oom \<in> set (sent @ snd (forward_all j resumed)))"
proof -
  assume s: "sup_ok s" and away: "away (watch_exit c sig forced oom s) n s'" and few: "n < 2000"
  have "sup_ok (watch_exit c sig forced oom s)" "stock (watch_exit c sig forced oom s) = stock s @ [exit_message c sig forced oom]"
    using sup_ok_steps(1) [OF s] by (simp_all add: watch_exit_def)
  from away_keeps [OF away this] few have ok: "sup_ok s'" and kept: "exit_message c sig forced oom \<in> set (stock s')"
    by (auto simp: RING_CAPACITY_def)
  have "exit_message c sig forced oom \<in> set (sent @ snd (forward_all j resumed))"
    if at: "attach k s' = (resumed, sent, True)" "length (sup_channel resumed @ sup_waiting resumed) \<le> j" for k j resumed sent
    using attach_whole [OF at(1)] forward_all_sends [OF at(2)] kept by (auto simp: stock_def)
  with ok kept show ?thesis by (auto simp: sup_ok_def RING_CAPACITY_def)
qed

theorem exit_is_kept_witness:
  "exit_message (Some 0) None False True \<in>
    set (stock (drain_into (read_line [104, 105] Stdout (watch_exit (Some 0) None False True sup_new))))"
proof -
  let ?s = "watch_exit (Some 0) None False True sup_new"
  have w: "sup_waiting ?s = []" by (simp add: watch_exit_def enqueue_message_def sup_new_def CHANNEL_DEPTH_def)
  have "away ?s (Suc 0) (read_line [104, 105] Stdout ?s)" by (rule away.Line [OF away.Stay]) (simp add: w)
  then have "away ?s (Suc 0) (drain_into (read_line [104, 105] Stdout ?s))" by (rule away_drain)
  from exit_is_kept [OF _ this] show ?thesis by (simp add: sup_ok_def sup_new_def)
qed

text \<open>A message that is being delivered from the queue when the panel goes away is lost: it has
  left the queue and the write failed, so an exit at its head is never reported.\<close>

theorem exit_is_lost_in_delivery:
  "sup_pending s = Exited c sig oom # ms \<Longrightarrow>
    attach (length (ring_replay (sup_ring s))) s =
      (s\<lparr>sup_pending := ms\<rparr>, ring_replay (sup_ring s), False)"
  by (simp add: attach_def Let_def)

theorem exit_is_lost_in_delivery_witness:
  "attach 0 (sup_new\<lparr>sup_pending := [Exited (Some 1) None False]\<rparr>) = (sup_new, [], False)"
  using exit_is_lost_in_delivery [of "sup_new\<lparr>sup_pending := [Exited (Some 1) None False]\<rparr>" "Some 1" None False "[]"]
  by (simp add: sup_new_def ring_replay_def ring_new_def)

text \<open>A line the game prints while the panel is away is sent twice when it comes back: once from
  the ring and once from the queue.\<close>

theorem line_is_sent_twice:
  "ring_ok (sup_ring s) \<Longrightarrow> length (sup_pending s) \<le> RING_CAPACITY \<Longrightarrow>
   length (sup_channel s) < CHANNEL_DEPTH \<Longrightarrow> sup_waiting s = [] \<Longrightarrow>
   s' = drain_into (read_line line stream s) \<Longrightarrow>
   length (ring_replay (sup_ring s')) + length (sup_pending s') \<le> n \<Longrightarrow>
    \<exists>before after. fst (snd (attach n s')) = before @ after \<and>
      Output (ring_next_seq (sup_ring s)) line stream \<in> set before \<and>
      Output (ring_next_seq (sup_ring s)) line stream \<in> set after"
  using line_sent_twice [of s s' line stream] attach_writable [of s' n]
  by (auto simp: ring_ok_def)

theorem line_is_sent_twice_witness:
  "fst (snd (attach 2 (drain_into (read_line [104, 105] Stdout sup_new)))) =
    [Output 1 [104, 105] Stdout, Output 1 [104, 105] Stdout] \<and>
   (\<exists>before after. fst (snd (attach 2 (drain_into (read_line [104, 105] Stdout sup_new)))) = before @ after \<and>
      Output 1 [104, 105] Stdout \<in> set before \<and> Output 1 [104, 105] Stdout \<in> set after)"
proof -
  have sent: "fst (snd (attach 2 (drain_into (read_line [104, 105] Stdout sup_new)))) =
      [Output 1 [104, 105] Stdout, Output 1 [104, 105] Stdout]"
    by (simp add: attach_def drain_into_fold read_line_def enqueue_message_def CHANNEL_DEPTH_def sup_new_def ring_new_def ring_push_def
        pop_when_full_def ring_replay_def drop_front_def RING_CAPACITY_def numeral_2_eq_2)
  have "\<exists>before after. fst (snd (attach 2 (drain_into (read_line [104, 105] Stdout sup_new)))) = before @ after \<and>
      Output (ring_next_seq (sup_ring sup_new)) [104, 105] Stdout \<in> set before \<and>
      Output (ring_next_seq (sup_ring sup_new)) [104, 105] Stdout \<in> set after"
  proof (rule line_is_sent_twice [OF _ _ _ _ refl])
    show "ring_ok (sup_ring sup_new)" by (simp add: sup_new_def ring_new_ok)
  qed (simp_all add: sup_new_def drain_into_fold read_line_def enqueue_message_def CHANNEL_DEPTH_def ring_push_def ring_new_def
        pop_when_full_def ring_replay_def drop_front_def RING_CAPACITY_def)
  with sent show ?thesis by (simp add: sup_new_def ring_new_def)
qed

text \<open>A stop that goes unanswered ends the game all the same: a game gone within its grace gets
  no signal, one still there gets SIGTERM, and only one that outlives ten seconds more SIGKILL.\<close>

theorem stop_always_ends:
  "ending_after gone from grace =
     (case gone of
        Some t \<Rightarrow>
          if t \<le> from + grace then []
          else if t \<le> from + grace + secs 10 then [(from + grace, SIGTERM)]
          else [(from + grace, SIGTERM), (from + grace + secs 10, SIGKILL)]
      | None \<Rightarrow> [(from + grace, SIGTERM), (from + grace + secs 10, SIGKILL)])"
  by (auto simp: ending_after_signals SHUTDOWN_GRACE_def split: option.splits)

section \<open>Consoles\<close>

text \<open>C11: However many lines a console takes, it holds the newest of them, tidied, in order and
  numbered without a gap, never more than ten thousand and never more than four MiB, and it
  counts the ones it dropped.\<close>

theorem console_holds_the_newest:
  "\<exists>c gone. c = fold console_push ls (console_new n) \<and>
    map tidy ls = gone @ con_lines c \<and> con_dropped c = length gone \<and>
    length (con_lines c) \<le> 10000 \<and> sum_list (map byte_len (con_lines c)) \<le> 4194304 \<and>
    con_next_seq c = n + length ls \<and> con_first_seq c + length (con_lines c) = con_next_seq c"
proof -
  let ?c = "fold console_push ls (console_new n)"
  have "console_ok ?c" by (rule fold_push_ok [OF new_ok])
  then have "length (con_lines ?c) \<le> 10000" "sum_list (map byte_len (con_lines ?c)) \<le> 4194304"
    "con_first_seq ?c + length (con_lines ?c) = con_next_seq ?c"
    by (simp_all add: console_ok_def counted_lines_def MAX_LINES_def MAX_BYTES_def)
  moreover have "con_next_seq ?c = n + length ls"
    using fold_push_seq [OF new_ok, of ls n] by (simp add: console_new_def)
  moreover obtain gone where "map tidy ls = gone @ con_lines ?c" "con_dropped ?c = length gone"
    using fold_push_lines [OF new_ok, of n ls] by (auto simp: console_new_def)
  ultimately show ?thesis by blast
qed

text \<open>A tidied line holds no control character but tabs, so no escape sequence survives, and is at
  most 8192 bytes long.\<close>

theorem tidy_lines_are_plain:
  "byte_len (tidy raw) \<le> 8192 \<and> \<not> (\<exists>c. c \<in> set (tidy raw) \<and> is_control c \<and> c \<noteq> 9)"
  using tidy_bounded [of raw] tidy_clean [of _ raw] by (auto simp: MAX_LINE_BYTES_def)

text \<open>What a socket reads is gapless: the history it is given ends at the sequence number the next
  message begins with, also after the console was cleared.\<close>

theorem history_meets_the_stream:
  "console_ok (ch_console ch) \<Longrightarrow> ls \<noteq> [] \<Longrightarrow> channel_attach ch = (h, from) \<Longrightarrow>
    channel_attach (clear_console ch) = (h', from') \<Longrightarrow>
    drop from (ch_said (console_lines ls ch)) =
      [WsConsole (h_first_seq h + length (h_lines h)) (map tidy ls)] \<and>
    drop from' (ch_said (console_lines ls (clear_console ch))) =
      [WsConsole (h_first_seq h') (map tidy ls)] \<and>
    h_first_seq h' = h_first_seq h + length (h_lines h) \<and> h_lines h' = []"
  using history_then_lines [of ch h "from" ls] history_then_lines [of "clear_console ch" h' from' ls]
    channel_console_ok(4) [of ch]
  by (auto simp: channel_attach_def history_of_def clear_console_def console_clear_def
      console_ok_def counted_lines_def)

theorem history_meets_the_stream_witness:
  "drop 0 (ch_said (console_lines [[104]] (prime 40 [[97], [98]] channel_new))) = [WsConsole 42 [tidy [104]]]"
proof -
  let ?ch = "prime 40 [[97], [98]] channel_new"
  have ok: "console_ok (ch_console ?ch)" by (intro channel_console_ok)
  have at: "channel_attach ?ch = (history_of (ch_console ?ch), 0)"
    by (simp add: channel_attach_def prime_def channel_new_def)
  have cl: "channel_attach (clear_console ?ch) = (history_of (ch_console (clear_console ?ch)), 1)"
    by (simp add: channel_attach_def clear_console_def prime_def channel_new_def)
  have "con_next_seq (ch_console ?ch) = 42"
    using fold_push_seq [OF new_ok, of "[[97], [98]]" 40]
    by (simp add: prime_def channel_new_def console_new_def)
  moreover have "con_first_seq (ch_console ?ch) + length (con_lines (ch_console ?ch)) = con_next_seq (ch_console ?ch)"
    using ok by (simp add: console_ok_def counted_lines_def)
  ultimately have "h_first_seq (history_of (ch_console ?ch)) + length (h_lines (history_of (ch_console ?ch))) = 42"
    by (simp add: history_of_def)
  with history_meets_the_stream [OF ok _ at cl, of "[[104]]"] show ?thesis by simp
qed

section \<open>Limiters\<close>

text \<open>C12: Under every limit of the panel, any \<open>allowance + 1\<close> admissions of one key in a row span at
  least the window, whatever other keys do in between.\<close>

theorem no_window_overflows:
  "sound_limit limit \<Longrightarrow> sorted (map snd as) \<Longrightarrow>
    spread (allowance limit) (window limit) (taken_at limit Map.empty as key)"
  by (rule taken_at_spread [where start = 0]) (simp_all add: buckets_ok_def slot_queue_def)

theorem no_window_overflows_witness:
  "spread 3 HOUR (taken_at REGISTER_PER_HOUR Map.empty
    [([1], 0), ([1], 1), ([2], 1), ([1], 2), ([1], 3), ([1], 3600000000000)] [1])"
proof -
  let ?as = "[([1], 0), ([1], 1), ([2], 1), ([1], 2), ([1], 3), ([1], 3600000000000)] :: (ustr \<times> instant) list"
  have "sorted (map snd ?as)" by simp
  from no_window_overflows [OF limits_sound(1) this, of "[1]"]
  moreover have "allowance REGISTER_PER_HOUR = 3" "window REGISTER_PER_HOUR = HOUR"
    by (simp_all add: REGISTER_PER_HOUR_def limit_new_def)
  ultimately show ?thesis by simp
qed

text \<open>The wait the console answers a burst of commands with is exact: after that many seconds the
  command goes through, and a whole second earlier it would not have.\<close>

theorem command_wait_is_exact:
  "commands_ok now m \<Longrightarrow> snd (console_accept m k now) = Some w \<Longrightarrow> m' = fst (console_accept m k now) \<Longrightarrow>
    (\<forall>later. now + secs w \<le> later \<longrightarrow> snd (console_accept m' k later) = None) \<and>
    (\<forall>later. now \<le> later \<and> later < now + secs (w - 1) \<longrightarrow> snd (console_accept m' k later) \<noteq> None)"
proof (intro conjI allI impI)
  fix later
  assume a: "commands_ok now m" "snd (console_accept m k now) = Some w" "m' = fst (console_accept m k now)"
  show "snd (console_accept m' k later) = None" if "now + secs w \<le> later"
    unfolding a(3) by (rule console.wait_is_enough [OF a(1,2) that])
  show "snd (console_accept m' k later) \<noteq> None" if "now \<le> later \<and> later < now + secs (w - 1)"
    unfolding a(3) using that by (intro console.wait_is_least [OF a(1,2)]) blast+
qed

theorem command_wait_is_exact_witness:
  "snd (console_accept [(1, 2) \<mapsto> replicate 20 0] (1, 2) 0) = Some 10 \<and>
   snd (console_accept (fst (console_accept [(1, 2) \<mapsto> replicate 20 0] (1, 2) 0)) (1, 2) (secs 10)) = None"
proof -
  have ok: "commands_ok 0 [(1, 2) \<mapsto> replicate 20 0]"
    by (simp add: commands_ok_def in_order_def BURST_def)
  have w: "snd (console_accept [(1, 2) \<mapsto> replicate 20 0] (1, 2) 0) = Some 10"
    by (simp add: console_accept_def retain_def recent_def or_default_def drop_old_def BURST_def
        COMMAND_WINDOW_def secs_def secs_up_def Let_def)
  from command_wait_is_exact [OF ok w refl] w show ?thesis by simp
qed

text \<open>Asking a limiter and taking from it agree: \<open>check\<close> answers what \<open>take\<close> would, and when
  it lets through, \<open>note\<close> leaves the buckets \<open>take\<close> would leave.\<close>

theorem check_and_note_are_take:
  "buckets_ok limit now r \<Longrightarrow> sound_limit limit \<Longrightarrow>
    bucket_check r limit key now = snd (bucket_take r limit key now) \<and>
    (bucket_check r limit key now = None \<longrightarrow> bucket_note r limit key now = fst (bucket_take r limit key now))"
  using check_is_take [of limit now r key] note_is_take [of r limit key now] by simp

theorem check_and_note_are_take_witness:
  "bucket_check [(''reset'', [1]) \<mapsto> replicate 10 5] RESET_ATTEMPTS [1] 6 =
    snd (bucket_take [(''reset'', [1]) \<mapsto> replicate 10 5] RESET_ATTEMPTS [1] 6)"
proof -
  have "buckets_ok RESET_ATTEMPTS 6 [(''reset'', [1]) \<mapsto> replicate 10 5]"
    by (auto simp: buckets_ok_def in_order_def RESET_ATTEMPTS_def limit_new_def)
  from check_and_note_are_take [OF this limits_sound(4)] show ?thesis by blast
qed

text \<open>C13: Ten failed sign-ins for a name within fifteen minutes lock it for fifteen minutes from the
  last of them, whatever addresses they come from and whatever fails for other names in between;
  fewer than ten lock nobody out.\<close>

theorem ten_failures_lock:
  assumes "m (Account (take KEY_LENGTH (lower name))) = None"
    and "\<forall>e \<in> set es. t0 \<le> snd (snd e) \<and> snd (snd e) \<le> t0 + BRAKE_WINDOW"
    and "ts = hits lower (Account (take KEY_LENGTH (lower name))) es"
  shows "brake_check lower (note_all lower es m) name None now = Inr () \<longleftrightarrow>
    length ts < 10 \<or> last ts + BRAKE_WINDOW \<le> now"
proof -
  let ?k = "Account (take KEY_LENGTH (lower name))"
  have "note_all lower es m ?k = record_of ts"
    unfolding assms(3) by (rule counted_run [where start = t0]) (use assms(1,2) in auto)
  then have "brake_check lower (note_all lower es m) name None now = Inr () \<longleftrightarrow>
      (\<forall>r. record_of ts = Some r \<longrightarrow> \<not> blocked r now)"
    unfolding brake_check_def check_keys_iff by (simp add: brake_keys_def)
  also have "\<dots> \<longleftrightarrow> length ts < 10 \<or> last ts + BRAKE_WINDOW \<le> now"
    using blocked_record_of [of ts _ now] by (cases "ts = []") (auto simp: record_of_def BRAKE_LIMIT_def blocked_def)
  finally show ?thesis .
qed

theorem ten_failures_lock_witness:
  "brake_check id (note_all id (replicate 10 ([109], Some (1 :: nat), 5)) Map.empty) [109] None 6
    \<noteq> Inr ()"
proof -
  have "hits id (Account (take KEY_LENGTH (id [109]))) (replicate 10 ([109], Some (1 :: nat), 5)) = replicate 10 5"
    by (simp add: hits_def brake_keys_def)
  with ten_failures_lock [of Map.empty id "[109]" "replicate 10 ([109], Some (1 :: nat), 5)" 0 "replicate 10 5" 6]
  show ?thesis by (simp add: BRAKE_WINDOW_def secs_def)
qed

section \<open>Accounts, sessions, rights\<close>

text \<open>Somebody who was seen by the panel stays signed in for thirty days less an hour: the request
  at \<open>now\<close> slides the session along, and until then the cookie finds the same session.\<close>

theorem session_slides:
  "sessions_ok t \<Longrightarrow> session_lookup digest t secret now = Some s \<Longrightarrow> ses_last_seen s \<le> now \<Longrightarrow>
    later < now + (30 * 86400 - 3600) \<Longrightarrow>
    \<exists>s'. session_lookup digest (fst (slide_sessions digest t (Some secret) now)) secret later = Some s' \<and>
      ses_id s' = ses_id s \<and> ses_user s' = ses_user s"
  using slide_keeps [of t digest secret now s later] by (simp add: SESSION_LIFETIME_def REFRESH_AFTER_def)

definition sample_session :: session_row where
  "sample_session = \<lparr>ses_id = 3, ses_user = 7, ses_token_hash = [5], ses_created_at = 0,
     ses_expires_at = SESSION_LIFETIME, ses_last_seen = 0, ses_user_agent = None\<rparr>"

theorem session_slides_witness:
  "\<exists>s'. session_lookup id (fst (slide_sessions id [sample_session] (Some [5]) 7200)) [5] 2592000 = Some s' \<and>
    ses_id s' = 3"
  using session_slides [of "[sample_session]" id "[5]" 7200 sample_session 2592000]
  by (auto simp: sessions_ok_def session_lookup_def fetch_optional_def sample_session_def SESSION_LIFETIME_def)

text \<open>Closing all sessions of somebody but one shuts exactly the others: the spared session and
  everybody else's are found as before, the closed ones by no cookie.\<close>

theorem closing_shuts_exactly:
  "sessions_ok t \<Longrightarrow>
    session_lookup digest (fst (session_close_all_of t user except)) secret now = Some s \<longleftrightarrow>
    session_lookup digest t secret now = Some s \<and> \<not> (ses_user s = user \<and> except \<noteq> Some (ses_id s))"
  using close_all_shuts by blast

theorem closing_shuts_exactly_witness:
  "session_lookup id (fst (session_close_all_of [sample_session] 7 None)) [5] 1 \<noteq> Some sample_session"
  using closing_shuts_exactly [of "[sample_session]" id 7 None "[5]" 1 sample_session]
  by (simp add: sessions_ok_def sample_session_def)

text \<open>C14: The two access checks of the panel, of \<open>auth/access.rs\<close> and \<open>ops/access.rs\<close>, agree: for every
  caller, server and permission both refuse with the same error or both admit with the same
  permissions; a server one has no part in is answered as one that does not exist.\<close>

theorem access_checks_agree:
  "map_sum id acc_permissions (access_require servers members c server p) =
    and_then (ops_permissions servers members server (as_ops_caller c))
      (\<lambda>m. and_then (ops_require m p) (\<lambda>_. Inr m)) \<and>
   (access_require servers members c server p = Inl unknown_server \<longleftrightarrow>
      standing servers members c server = None) \<and>
   (access_require servers members c server p = Inl forbidden \<longleftrightarrow>
      (\<exists>role. standing servers members c server = Some role \<and> \<not> allows (perm_from_role role) p))"
  using both_checks_agree [of servers members c server p]
  by (auto simp: access_require_standing unknown_server_def failure_defs split: option.splits)

text \<open>A list of servers shows exactly the servers one may read, the same in both modules and in
  the same order.\<close>

theorem visible_servers_are_readable:
  "servers_ok servers members \<Longrightarrow>
    access_visible_servers servers members c = ops_visible_servers servers members (as_ops_caller c) \<and>
    (server \<in> set (access_visible_servers servers members c) \<longleftrightarrow>
      (\<exists>a. access_require servers members c server BaseRead = Inr a))"
  using visible_agree [of servers members c] visible_iff_standing [of servers members server c] from_role_reads
  by (auto simp: access_require_standing split: option.splits)

theorem visible_servers_are_readable_witness:
  "1 \<in> set (access_visible_servers [sample_server] [] \<lparr>caller_user = sample_user, caller_session = sample_session\<rparr>)
    \<longleftrightarrow> (\<exists>a. access_require [sample_server] [] \<lparr>caller_user = sample_user, caller_session = sample_session\<rparr> 1 BaseRead = Inr a)"
proof -
  have "servers_ok [sample_server] []" by (simp add: servers_ok_def)
  from conjunct2 [OF visible_servers_are_readable [OF this]] show ?thesis .
qed

text \<open>C15: Permissions survive the wire: reading what was written gives the mask back, for every mask
  that grants named permissions, and a role is told from the permissions it grants.\<close>

theorem permissions_round_trip:
  "perm_parse (perm_display (mask_of ps)) = Some (mask_of ps) \<and> perm_role (perm_from_role r) = r"
  using parse_display role_of_from_role by blast

section \<open>Accounts\<close>

definition sample_outside :: outside where
  "sample_outside = \<lparr>out_lower = (\<lambda>s. s), out_digest = (\<lambda>s. s), out_encode = (\<lambda>salt p. salt @ p),
     out_verify = (\<lambda>p h. h = p), out_id_text = (\<lambda>i. [i])\<rparr>"

definition sample_draw :: "id \<Rightarrow> ustr \<Rightarrow> moment \<Rightarrow> draw" where
  "sample_draw i token now = \<lparr>dr_now = now, dr_instant = 0, dr_id = i, dr_token = token, dr_salt = [],
     dr_mail_taken = True, dr_refused = internal, dr_system = (Ready, Some 1001, None)\<rparr>"

definition sample_panel :: panel where
  "sample_panel = \<lparr>pn_signups = \<lparr>su_users = [], su_regs = [], su_blocks = [], su_rates = Map.empty,
       su_letters = [], su_enabled = True, su_requires_approval = False,
       su_default_limits = sample_limits, su_can_link = True\<rparr>,
     pn_sessions = [], pn_resets = [], pn_mail = [], pn_mail_configured = True, pn_brake = Map.empty,
     pn_servers = []\<rparr>"

definition sample_first :: panel where
  "sample_first = fst (cli_install sample_outside (sample_draw 1 (lit ''t1'') 10) (lit ''root'')
     (Some (lit ''root@a.de'')) (lit ''long enough word'') False sample_panel)"

definition sample_applied :: panel where
  "sample_applied = on_signups (\<lambda>s. fst (reg_apply sample_outside (sample_draw 2 (lit ''t2'') 20) (lit ''max'')
     (lit ''max@a.de'') (lit ''another long word'') None s)) sample_first"

definition sample_asked :: panel where
  "sample_asked = reset_mint sample_outside (sample_draw 3 (lit ''t3'') 30) (lit ''root@a.de'') None None sample_applied"



definition sample_root :: user_row where
  "sample_root = \<lparr>u_id = 1, u_username = lit ''root'', u_email = Some (lit ''root@a.de''),
     u_origin = ByAdmin, u_password_hash = lit ''long enough word'', u_role = Admin, u_system_uid = Some 1001,
     u_system_state = Ready, u_system_error = None, u_busy = False, u_must_change_password = False, u_created_at = 10,
     u_last_login_at = None, u_limits = sample_limits\<rparr>"

lemmas sample_text = lit_def check_username_def ascii_lower_def ascii_digit_def normalise_address_def trim_def
  trim_start_def has_suffix_def is_whitespace_def is_control_def WHOLE_LIMIT_def LOCAL_LIMIT_def
  password_hash_def check_strength_def MIN_LENGTH_def and_then_def Let_def
lemmas sample_world = sample_outside_def sample_draw_def sample_panel_def sample_root_def
lemmas sample_tables = users_by_name_def users_by_email_def users_find_def fetch_optional_def update_where_def delete_where_def count_where_def

lemma sample_first_is: "sample_first = on_users (\<lambda>_. [sample_root]) sample_panel"
  by (simp add: sample_first_def sample_world sample_text sample_tables cli_install_def install_checks_def
      cli_refused_def cli_normalised_def users_insert_def new_row_def set_system_def claim_email_def on_users_def)

lemma sample_reachable_first: "panel_reachable sample_outside sample_first"
  unfolding sample_first_def
  by (rule panel_reachable.step [OF panel_reachable.empty panel_step.install_step])
    (simp_all add: sample_panel_def panel_fresh_def fresh_draw_def sample_draw_def)

lemma sample_applied_is:
  "su_users (pn_signups sample_applied) = [sample_root]"
  "su_regs (pn_signups sample_applied) = [application_row 2 \<lparr>na_username = lit ''max'', na_email = lit ''max@a.de'',
     na_password_hash = lit ''another long word'', na_signup_ip = None, na_token_hash = lit ''t2'',
     na_token_expires_at = 20 + TOKEN_LIFE\<rparr> 20]"
  "su_letters (pn_signups sample_applied) = [VerifyEmail (lit ''max@a.de'') (lit ''max'') (lit ''t2'')]"
  "pn_sessions sample_applied = []" "pn_resets sample_applied = []" "pn_mail sample_applied = []"
  "pn_mail_configured sample_applied" "su_can_link (pn_signups sample_applied)" "su_enabled (pn_signups sample_applied)"
  "\<not> su_requires_approval (pn_signups sample_applied)" "su_default_limits (pn_signups sample_applied) = sample_limits"
  by (simp_all add: sample_applied_def sample_first_is sample_world sample_text sample_tables on_users_def on_signups_def
    reg_apply_def require_open_def registration_open_def claim_name_in_users_def claim_name_in_applications_def reg_by_email_def claim_name_for_sign_up_def open_application_def is_blocked_def
    write_application_def reg_insert_def send_letter_def)

lemma sample_reachable_applied: "panel_reachable sample_outside sample_applied"
  unfolding sample_applied_def
  by (rule panel_reachable.step [OF sample_reachable_first panel_step.apply_step])
    (simp add: sample_first_is sample_world panel_fresh_def fresh_draw_def on_users_def)

lemma sample_asked_is:
  "pn_users sample_asked = [sample_root]"
  "pn_resets sample_asked = [\<lparr>rr_id = 3, rr_user = 1, rr_token_hash = lit ''t3'', rr_created_at = 30,
     rr_expires_at = 30 + LIFETIME, rr_used_at = None, rr_requested_ip = None, rr_user_agent = None\<rparr>]"
  "pn_mail sample_asked = [ResetPassword 1 (lit ''root@a.de'') (lit ''t3'')]"
  by (simp_all add: sample_asked_def reset_mint_def sample_applied_is reset_purge_def sample_draw_def sample_outside_def sample_root_def
     sample_text sample_tables reset_too_soon_def order_by_desc_def reset_forget_all_def mail_letter_def PER_HOUR_def)

lemma sample_reachable_asked: "panel_reachable sample_outside sample_asked"
  unfolding sample_asked_def
  by (rule panel_reachable.step [OF sample_reachable_applied panel_step.mint_step])
    (simp add: sample_applied_is panel_fresh_def fresh_draw_def sample_draw_def sample_outside_def sample_root_def
       application_row_def lit_def)


text \<open>C16: In every state the panel's handlers can reach, identifiers and names of accounts are taken once, an
  address belongs to one account or one open application but never to both, an application gets
  at most its number of letters, every session and every reset link belongs to an account, and
  an account has at most one reset link.\<close>

theorem accounts_in_order:
  "panel_reachable env p \<Longrightarrow>
    distinct (map u_id (pn_users p)) \<and> distinct (map u_username (pn_users p)) \<and>
    distinct (filter (\<lambda>e. e \<noteq> None) (map u_email (pn_users p))) \<and>
    distinct (map reg_email (su_regs (pn_signups p))) \<and> distinct (map reg_username (su_regs (pn_signups p))) \<and>
    Some ` reg_email ` set (su_regs (pn_signups p)) \<inter> u_email ` set (pn_users p) = {} \<and>
    reg_tokens_sent ` set (su_regs (pn_signups p)) \<subseteq> {..TOKENS_PER_APPLICATION} \<and>
    ses_user ` set (pn_sessions p) \<union> rr_user ` set (pn_resets p) \<subseteq> u_id ` set (pn_users p) \<and>
    distinct (map rr_user (pn_resets p))"
proof -
  assume "panel_reachable env p"
  then have ok: "panel_ok env p" by (rule panel_reachable_ok)
  then have "row_ok (pn_users p) r" if "r \<in> set (su_regs (pn_signups p))" for r
    using that by (simp add: panel_ok_def signups_ok_def regs_ok_def)
  then have "Some ` reg_email ` set (su_regs (pn_signups p)) \<inter> u_email ` set (pn_users p) = {}"
    "reg_tokens_sent ` set (su_regs (pn_signups p)) \<subseteq> {..TOKENS_PER_APPLICATION}"
    unfolding row_ok_def by fastforce+
  with ok show ?thesis
    by (simp add: panel_ok_def signups_ok_def accounts_ok_def regs_ok_def sessions_held_def resets_held_def)
qed

theorem accounts_in_order_witness:
  "map rr_user (pn_resets sample_asked) = [1] \<and>
    ses_user ` set (pn_sessions sample_asked) \<union> rr_user ` set (pn_resets sample_asked) \<subseteq> u_id ` set (pn_users sample_asked)"
  using accounts_in_order [OF sample_reachable_asked] by (simp add: sample_asked_is)

text \<open>C17: No handler takes the last administrator away: once there is one, every step of the panel
  leaves one.\<close>

theorem an_administrator_remains:
  "panel_reachable env p \<Longrightarrow> 0 < admin_count (pn_users p) \<Longrightarrow> panel_step env p p' \<Longrightarrow> 0 < admin_count (pn_users p')"
  unfolding admin_count_pos using panel_step_admins panel_reachable_ok by blast

theorem an_administrator_remains_witness:
  "0 < admin_count (pn_users (fst (delete_user 9 1 None None [] True sample_asked)))"
  by (rule an_administrator_remains [OF sample_reachable_asked _ panel_step.delete_step])
    (simp add: sample_asked_is sample_root_def admin_count_def count_where_def)

text \<open>C18: The link of a confirmation letter makes no account but one with the address the letter went to,
  and changes no application but that address's.\<close>

theorem only_the_addressee_confirms:
  assumes "panel_reachable env p" "panel_fresh env d p" "VerifyEmail to name token \<in> set (su_letters (pn_signups p))"
    "q = on_signups (\<lambda>s. fst (reg_verify env d token from s)) p"
  shows "u_email ` (set (pn_users q) - set (pn_users p)) \<subseteq> {Some to} \<and>
    reg_email ` (set (su_regs (pn_signups q)) - set (su_regs (pn_signups p))) \<subseteq> {to}"
proof -
  have ok: "signups_ok env (pn_signups p)" using panel_reachable_ok [OF assms(1)] by (simp add: panel_ok_def)
  have "dr_id d \<notin> u_id ` set (pn_users p)" using assms(2) by (simp add: panel_fresh_def fresh_draw_def)
  note own = reg_verify_confirms [OF ok assms(3) this]
  show ?thesis unfolding assms(4) using own by (auto simp: on_signups_def)
qed

definition sample_confirmed :: panel where
  "sample_confirmed = on_signups (\<lambda>s. fst (reg_verify sample_outside (sample_draw 4 (lit ''t4'') 40) (lit ''t2'') None s)) sample_applied"

lemma sample_confirmed_names: "map u_username (pn_users sample_confirmed) = [lit ''root'', lit ''max'']"
  by (simp add: sample_confirmed_def on_signups_def reg_verify_def sample_applied_is require_open_def registration_open_def
    reg_by_token_def sample_tables sample_outside_def sample_draw_def application_row_def TOKEN_LIFE_def Registration.confirm_def admit_def reg_password_for_token_def sample_text claim_name_in_users_def reg_remove_def
    admitted_def lit_def users_insert_def sample_root_def new_row_def set_system_def)

theorem only_the_addressee_confirms_witness:
  "map u_username (pn_users sample_confirmed) = [lit ''root'', lit ''max''] \<and>
    u_email ` (set (pn_users sample_confirmed) - set (pn_users sample_applied)) \<subseteq> {Some (lit ''max@a.de'')}"
proof -
  have "panel_fresh sample_outside (sample_draw 4 (lit ''t4'') 40) sample_applied"
    by (simp add: sample_applied_is panel_fresh_def fresh_draw_def sample_draw_def sample_outside_def sample_root_def
       application_row_def lit_def)
  from only_the_addressee_confirms [OF sample_reachable_applied this _ sample_confirmed_def,
      of "lit ''max@a.de''" "lit ''max''"]
  show ?thesis by (simp add: sample_confirmed_names sample_applied_is)
qed

text \<open>C19: Setting a password by a reset link: the link was unused and not expired, and if it was mailed it went
  to the address its account has now; exactly that account's password changes, exactly its
  sessions end, and no link of it can be used again.\<close>

theorem reset_settles:
  assumes "panel_reachable env p" "reset_confirm env d token chosen from p = (p', Inr ())"
  shows "\<exists>r \<in> set (pn_resets p). rr_token_hash r = out_digest env token \<and> rr_used_at r = None \<and>
    dr_now d < rr_expires_at r \<and> MIN_LENGTH \<le> length chosen \<and>
    pn_users p' = give_password (rr_user r) (out_encode env (dr_salt d) chosen) False (pn_users p) \<and>
    pn_sessions p' = delete_where (\<lambda>s. ses_user s = rr_user r) (pn_sessions p) \<and>
    (\<forall>again now name. reset_living (out_digest env) (pn_users p') (pn_resets p') again now \<noteq> Some (rr_user r, name)) \<and>
    (\<forall>i to. ResetPassword i to token \<in> set (pn_mail p) \<longrightarrow>
      i = rr_user r \<and> (\<exists>u \<in> set (pn_users p). u_id u = i \<and> u_email u = Some to))"
proof -
  have ok: "panel_ok env p" using assms(1) by (rule panel_reachable_ok)
  obtain i name where l: "reset_living (out_digest env) (pn_users p) (pn_resets p) token (dr_now d) = Some (i, name)"
    "MIN_LENGTH \<le> length chosen" "p' = reset_settle env d token i (out_encode env (dr_salt d) chosen) p"
    using assms(2) by (rule confirm_cases)
  obtain r where r: "r \<in> set (pn_resets p)" "rr_token_hash r = out_digest env token" "rr_used_at r = None"
    "dr_now d < rr_expires_at r" "rr_user r = i" using living_row [OF l(1)] by blast
  note t = settle_tables [OF ok r(1,2,5), where d = d and h = "out_encode env (dr_salt d) chosen"]
  have "reset_living (out_digest env) (pn_users p') (pn_resets p') again now \<noteq> Some (rr_user r, n)" for again now n
    unfolding r(5) l(3) by (rule used_is_dead) (rule t(3))
  moreover have "j = rr_user r \<and> (\<exists>u \<in> set (pn_users p). u_id u = j \<and> u_email u = Some to)"
    if "ResetPassword j to token \<in> set (pn_mail p)" for j to
  proof -
    have held: "letters_held (out_digest env) (pn_users p) (pn_mail p) (pn_resets p)"
      and "rr_user ` set (pn_resets p) \<subseteq> u_id ` set (pn_users p)"
      using ok by (simp_all add: panel_ok_def resets_held_def)
    with r(1) letters_heldD [OF held that r(1,2)] show ?thesis by force
  qed
  ultimately show ?thesis using r t(1,2) l(2,3) by blast
qed

definition sample_reset :: "panel \<times> unit result" where
  "sample_reset = reset_confirm sample_outside (sample_draw 5 (lit ''t5'') 50) (lit ''t3'') (lit ''the new password'') None sample_asked"

theorem reset_settles_witness:
  "map u_password_hash (pn_users (fst sample_reset)) = [lit ''the new password'']"
proof -
  have "sample_reset = (fst sample_reset, Inr ())"
    by (simp add: sample_reset_def reset_confirm_def reset_ready_def reset_guard_def sample_asked_is reset_living_def
      sample_draw_def sample_outside_def sample_root_def sample_tables sample_text LIFETIME_def)
  from reset_settles [OF sample_reachable_asked this [unfolded sample_reset_def]] show ?thesis
    by (simp add: sample_reset_def sample_asked_is give_password_def sample_tables sample_root_def sample_draw_def sample_outside_def)
qed

section \<open>Settings and ports of a server\<close>

lemma check_value_ok:
  "check_value k v = Inr () \<longleftrightarrow> one_line v \<and> (key_wire k \<in> set INTEGER \<longrightarrow> parse_i64 v \<noteq> None) \<and>
    (key_wire k \<in> set BOOLEAN \<longrightarrow> v \<in> {lit ''true'', lit ''false''}) \<and>
    (key_wire k = lit ''difficulty'' \<longrightarrow> v \<in> set DIFFICULTY) \<and> (key_wire k = lit ''gamemode'' \<longrightarrow> v \<in> set GAMEMODE)"
  unfolding check_value_def one_line_def Let_def by (cases "\<exists>c \<in> set v. c = 10 \<or> c = 13 \<or> c = 0") (simp, auto)

text \<open>C20: A patch of the settings that is accepted holds only keys that resolve and that the panel leaves to the
  owner, and values on one line that fit their key: whole numbers, booleans, difficulties and
  game modes where the key asks for them; applying it leaves the panel's own keys as they were.\<close>

theorem patches_fit_their_keys:
  "plan_patch es = Inr ws \<Longrightarrow>
    (\<forall>k v. (k, Some v) \<in> set ws \<longrightarrow> one_line v \<and>
      (key_wire k \<in> set INTEGER \<longrightarrow> parse_i64 v \<noteq> None) \<and>
      (key_wire k \<in> set BOOLEAN \<longrightarrow> v \<in> {lit ''true'', lit ''false''}) \<and>
      (key_wire k = lit ''difficulty'' \<longrightarrow> v \<in> set DIFFICULTY) \<and>
      (key_wire k = lit ''gamemode'' \<longrightarrow> v \<in> set GAMEMODE)) \<and>
    map (\<lambda>w. Inr (fst w)) ws = map (\<lambda>e. resolve_key (fst e)) es \<and> map snd ws = map snd es \<and>
    (\<forall>k \<in> set PANEL_OWNED. props_get (apply_wanted ws p) k = props_get p k)"
proof (intro conjI)
  assume plan: "plan_patch es = Inr ws"
  show "\<forall>k v. (k, Some v) \<in> set ws \<longrightarrow> one_line v \<and>
      (key_wire k \<in> set INTEGER \<longrightarrow> parse_i64 v \<noteq> None) \<and>
      (key_wire k \<in> set BOOLEAN \<longrightarrow> v \<in> {lit ''true'', lit ''false''}) \<and>
      (key_wire k = lit ''difficulty'' \<longrightarrow> v \<in> set DIFFICULTY) \<and>
      (key_wire k = lit ''gamemode'' \<longrightarrow> v \<in> set GAMEMODE)"
    using planned_values [OF plan] by (simp add: check_value_ok)
  show "map (\<lambda>w. Inr (fst w)) ws = map (\<lambda>e. resolve_key (fst e)) es" "map snd ws = map snd es"
    using planned_entries [OF plan] by simp_all
  show "\<forall>k \<in> set PANEL_OWNED. props_get (apply_wanted ws p) k = props_get p k"
    using planned_keys [OF plan] by (auto simp: applied_map is_panel_owned_def intro!: fold_put_other)
qed

theorem patches_fit_their_keys_witness:
  "plan_patch [(lit ''max-players'', Some (lit ''20''))] =
      Inr [(\<lparr>key_file = lit ''max-players'', key_wire = lit ''max_players'', key_known = True\<rparr>, Some (lit ''20''))] \<and>
    parse_i64 (lit ''20'') \<noteq> None"
proof -
  have plan: "plan_patch [(lit ''max-players'', Some (lit ''20''))] =
      Inr [(\<lparr>key_file = lit ''max-players'', key_wire = lit ''max_players'', key_known = True\<rparr>, Some (lit ''20''))]"
    by (simp add: resolve_key_def replace_char_def property_letter_def lit_def KNOWN_PROPERTY_KEYS_def and_then_def
        is_panel_owned_def PANEL_OWNED_def check_value_def INTEGER_def BOOLEAN_def DIFFICULTY_def GAMEMODE_def
        parse_i64_def parse_magnitude_def Let_def)
  have "lit ''max_players'' \<in> set INTEGER" by (simp add: INTEGER_def)
  with patches_fit_their_keys [OF plan] plan show ?thesis by simp
qed

text \<open>C21: Settings queued while a server runs and written at its next start leave the file as if they had been
  written at once after everything queued before; afterwards nothing waits for that server and
  what waits for others is untouched. This is so where the file is missing or tame: no line of it keeps a
  carriage return once its line end is off, and the last one does not end in an odd number of
  backslashes (\<open>setting_lost_behind_a_backslash\<close> shows what happens to the file otherwise).\<close>

theorem queued_is_applied_later:
  assumes "overrides_ok t" "tame_file file"
  shows "props_get (read_file (snd (fst (replay_overrides server (queue_wanted now server ws t, file))))) =
      props_get (apply_wanted ws (read_file (snd (fst (replay_overrides server (t, file)))))) \<and>
    waiting (fst (fst (replay_overrides server (queue_wanted now server ws t, file)))) s =
      (if s = server then Map.empty else waiting t s)"
proof -
  note q = queued_waiting [OF assms(1), where now = now and server = server and ws = ws]
  have "overrides_ok (queue_wanted now server ws t)" using q by simp
  then show ?thesis
    using replayed_map [OF _ assms(2)] replayed_map [OF assms] q [of s]
    by (simp add: file_map_def applied_map overlay_fold replayed_waiting)
qed

theorem queued_is_applied_later_witness:
  "props_get (read_file (snd (fst (replay_overrides 1
      (queue_wanted 5 1 [(\<lparr>key_file = lit ''motd'', key_wire = lit ''motd'', key_known = True\<rparr>, Some (lit ''hi''))] [],
       Some (lit ''a=b'')))))) (lit ''motd'') = Some (lit ''hi'')"
proof -
  have "overrides_ok []" "tame_file (Some (lit ''a=b''))"
    by (simp_all add: overrides_ok_def tame_file_def tame_def split_physical_def lit_def plain_line_def continues_def backslashes_def)
  from queued_is_applied_later [OF this, of 1 5 "[(\<lparr>key_file = lit ''motd'', key_wire = lit ''motd'', key_known = True\<rparr>, Some (lit ''hi''))]"]
  show ?thesis by (simp add: apply_wanted_def get_apply_one)
qed

text \<open>Where the last line of the file ends in a backslash and nothing follows it, a setting written behind it is
  read back as its continuation: the key is lost.\<close>

theorem setting_lost_behind_a_backslash:
  "props_get (read_file (snd (fst (replay_overrides 2
      (queue_wanted 5 2 [(\<lparr>key_file = lit ''motd'', key_wire = lit ''motd'', key_known = True\<rparr>, Some (lit ''hi''))] [],
       Some (lit ''a=1'' @ [92])))))) (lit ''motd'') = None"
proof -
  have read: "props_parse (lit ''a=1'' @ [92]) = [Entry (lit ''a'') (lit ''1'' @ [92]) (Some (lit ''a=1'' @ [92]))]"
    by (simp add: lit_def props_parse_def split_physical_def is_blank_def starts_a_comment_def continues_def backslashes_def
      trim_def trim_start_def is_whitespace_def split_entry_def join_logical_def is_space_def)
  have pending: "pending_overrides (queue_wanted 5 2 [(\<lparr>key_file = lit ''motd'', key_wire = lit ''motd'', key_known = True\<rparr>, Some (lit ''hi''))] []) 2 =
      [(lit ''motd'', Some (lit ''hi''))]"
    by (simp add: queue_wanted_def queue_one_def pending_overrides_def order_by_def)
  have render: "props_render (props_set (lit ''motd'') (lit ''hi'') [Entry (lit ''a'') (lit ''1'' @ [92]) (Some (lit ''a=1'' @ [92]))]) =
      lit ''a=1'' @ 92 # 10 # lit ''motd=hi'' @ [10]"
    by (simp add: lit_def props_render_def props_set_def has_key_def render_line_def escape_def escape_letter_def)
  have again: "props_parse (lit ''a=1'' @ 92 # 10 # lit ''motd=hi'' @ [10]) = 
     [Entry (lit ''a'') (lit ''1motd=hi'') (Some (lit ''a=1'' @ [92, 10] @ lit ''motd=hi''))]"
    by (simp add: lit_def props_parse_def split_physical_def is_blank_def starts_a_comment_def continues_def backslashes_def
      trim_def trim_start_def is_whitespace_def split_entry_def join_logical_def is_space_def)
  show ?thesis 
    by (simp add: replay_overrides_def pending read_file_def read apply_one_def render again) (simp add: props_get_def has_key_def lit_def)
qed

text \<open>C22: The flags of an accepted command line are kept by the next save of the command the panel shows for them,
  and none of them starts with one of the four prefixes of a flag by which the panel sets the heap itself.\<close>

theorem shown_command_is_accepted:
  assumes "read_command command (launch_of loader) = Inr (flags, stripped)" "program_ok java"
  shows "read_command (Some (render_tokens (startup_argv java flags (launch_of loader)))) (launch_of loader) = Inr (flags, []) \<and>
    (\<forall>f \<in> set flags. \<not> is_panel_memory_flag f)"
  using accepted_flags [OF assms(1)] shown_accepted [OF _ assms(2), of flags loader] by (auto simp: flag_ok_def)

theorem shown_command_is_accepted_witness:
  "read_command (Some (render_tokens (startup_argv None [lit ''-server''] (launch_of None)))) (launch_of None) =
    Inr ([lit ''-server''], [])"
proof -
  have "read_command (Some (lit ''-server -Xmx4G'')) (launch_of None) = Inr ([lit ''-server''], [lit ''-Xmx4G''])"
    by (simp add: read_command_def one_line_def lit_def tokenise_def launch_of_def drop_program_def drop_trailing_def
        is_panel_memory_flag_def PANEL_MEMORY_FLAGS_def and_then_def Let_def)
  from shown_command_is_accepted [OF this, of None] show ?thesis by (simp add: program_ok_def)
qed

text \<open>C23: In every reachable state of servers and ports a port belongs to one server, a server has at most eight
  and exactly one of them is primary unless it is being deleted. Of the two searches for a free
  port, the one for further ports asks the machine whether another process holds a port (\<open>free\<close>) and
  the one for the first port of a server does not: where the first port found without asking is free both find it,
  and where the asking search finds a later one, the other hands out a port that another process holds.\<close>

theorem ports_in_order:
  "estate_reachable e \<Longrightarrow>
    distinct (map al_port (es_ports e)) \<and> al_server ` set (es_ports e) \<subseteq> srv_id ` set (es_servers e) \<and>
    (\<forall>s. length (ports_of (es_ports e) s) \<le> 8) \<and>
    (\<forall>r \<in> set (es_servers e). srv_status r \<noteq> ServerDeleting \<longrightarrow> primaries (es_ports e) (srv_id r) = 1) \<and>
    (\<forall>free p. next_free_port (es_ports e) (es_pool e) = Inr p \<and> free p \<longrightarrow>
      next_free free (es_ports e) (es_pool e) = Inr p) \<and>
    (\<forall>free q. next_free free (es_ports e) (es_pool e) = Inr q \<longrightarrow>
      (\<exists>p \<le> q. next_free_port (es_ports e) (es_pool e) = Inr p \<and> (p = q \<or> \<not> free p)))"
proof -
  assume "estate_reachable e"
  then have ok: "estate_ok e" by (rule reachable_estate)
  then have "distinct (map al_port (es_ports e))" by (simp add: estate_ok_def ports_ok_def)
  note searches = searches_compared [OF this, where pool = "es_pool e"]
  have "\<forall>free p. next_free_port (es_ports e) (es_pool e) = Inr p \<and> free p \<longrightarrow>
      next_free free (es_ports e) (es_pool e) = Inr p"
    using searches(1) by blast
  moreover have "\<forall>free q. next_free free (es_ports e) (es_pool e) = Inr q \<longrightarrow>
      (\<exists>p \<le> q. next_free_port (es_ports e) (es_pool e) = Inr p \<and> (p = q \<or> \<not> free p))"
    using searches(2) by blast
  moreover have "distinct (map al_port (es_ports e)) \<and> al_server ` set (es_ports e) \<subseteq> srv_id ` set (es_servers e) \<and>
      (\<forall>s. length (ports_of (es_ports e) s) \<le> 8) \<and>
      (\<forall>r \<in> set (es_servers e). srv_status r \<noteq> ServerDeleting \<longrightarrow> primaries (es_ports e) (srv_id r) = 1)"
    using ok by (auto simp: estate_ok_def ports_ok_def PER_SERVER_def)
  ultimately show ?thesis by (elim conjE) (intro conjI)
qed

definition sample_wish :: server_wish where
  "sample_wish = \<lparr>sw_name = lit ''survival'', sw_owner = 7, sw_memory = 2048, sw_port = None\<rparr>"

definition sample_estate :: estate where
  "sample_estate = \<lparr>es_servers = [], es_users = [sample_user], es_ports = [], es_tunnels = [], es_pool = (25565, 25567)\<rparr>"

definition sample_created :: "estate \<times> bool result" where
  "sample_created = server_create 9 1 False (Inr ()) (Inr ()) sample_wish sample_estate"

lemma sample_created_is:
  "sample_created = (sample_estate\<lparr>es_servers := [new_server_row 1 sample_wish],
     es_ports := [\<lparr>al_port = 25565, al_server = 1, al_name = lit ''primary'', al_primary = True, al_created_at = 9\<rparr>]\<rparr>, Inr False)"
  by (simp add: sample_created_def server_create_def sample_wish_def sample_estate_def sample_user_def sample_limits_def check_server_name_def lit_def
      is_control_def trim_def trim_start_def is_whitespace_def NAME_LIMIT_def MIN_MEMORY_MIB_def users_load_def users_find_def
      fetch_optional_def and_then_def allocated_mib_def exceeded_by_def has_room_for_def budget_memory_def
      saturating_add_def next_free_port_def taken_ports_def order_by_def Let_def new_server_row_def)

theorem ports_in_order_witness:
  "map al_port (es_ports (fst sample_created)) = [25565] \<and>
    next_free_port (es_ports (fst sample_created)) (25565, 25567) = Inr 25566 \<and>
    next_free (\<lambda>p. p \<noteq> 25566) (es_ports (fst sample_created)) (25565, 25567) = Inr 25567 \<and>
    next_free (\<lambda>p. p = 25566) (es_ports (fst sample_created)) (25565, 25567) = Inr 25566"
proof -
  have "estate_reachable (fst sample_created)"
    unfolding sample_created_def
    by (rule estate_reachable.Step [OF estate_reachable.Empty estate_step.Create [OF _ _ refl]])
      (simp_all add: sample_estate_def sample_wish_def)
  then have order: "next_free_port (es_ports (fst sample_created)) (es_pool (fst sample_created)) = Inr p \<Longrightarrow> free p \<Longrightarrow>
      next_free free (es_ports (fst sample_created)) (es_pool (fst sample_created)) = Inr p" for free p
    using ports_in_order by blast
  have pool: "es_pool (fst sample_created) = (25565, 25567)" by (simp add: sample_created_is sample_estate_def)
  have first: "next_free_port (es_ports (fst sample_created)) (25565, 25567) = Inr 25566"
    and asked: "next_free (\<lambda>p. p \<noteq> 25566) (es_ports (fst sample_created)) (25565, 25567) = Inr 25567"
    by (simp_all add: sample_created_is sample_estate_def next_free_port_def next_free_def taken_ports_def order_by_def upt_rec)
  have "next_free (\<lambda>p. p = 25566) (es_ports (fst sample_created)) (25565, 25567) = Inr 25566"
    using order [of 25566 "\<lambda>p. p = 25566"] first unfolding pool by blast
  with first asked show ?thesis by (simp add: sample_created_is)
qed

text \<open>C24: Whoever makes a server for an owner who is no administrator, the answer says that it overcommits exactly when
  the memory of all servers of the account is then above its limit, and only an administrator may do so.
  Where somebody else than an administrator gives a server more memory (or less), the memory of its owner's servers is
  within the limit afterwards. Both as long as the sums fit their 32 bits.\<close>

theorem memory_within_the_limit:
  assumes "users_load (es_users e) owner = Inr u" "u_role u = User" "u_id u = owner"
    and "owned_memory (es_servers e) owner < 2 ^ 32" "memory_mib (u_limits u) < 2 ^ 32 - 1"
    and "distinct (map srv_id (es_servers e))"
  shows "(\<forall>now server admin disk build w e' overcommitted.
      server_create now server admin disk build w e = (e', Inr overcommitted) \<and> sw_owner w = owner \<longrightarrow>
      (overcommitted \<longleftrightarrow> memory_mib (u_limits u) < memory_of (es_servers e') owner) \<and> (overcommitted \<longrightarrow> admin)) \<and>
    (\<forall>guarded planned row wanted e' m.
      startup_memory False guarded planned (srv_id row) (Some wanted) e = (e', Inr m) \<and>
      row \<in> set (es_servers e) \<and> srv_owner row = owner \<longrightarrow>
      m = wanted \<and> memory_of (es_servers e') owner \<le> memory_mib (u_limits u))"
proof -
  have less: "memory_of (es_servers e) owner < 2 ^ 32" using memory_of_le assms(4) by (rule le_less_trans)
  have "(overcommitted \<longleftrightarrow> memory_mib (u_limits u) < memory_of (es_servers e') owner) \<and> (overcommitted \<longrightarrow> admin)"
    if "server_create now server admin disk build w e = (e', Inr overcommitted) \<and> sw_owner w = owner"
    for now server admin disk build w e' overcommitted
    using created_budget [of now server admin disk build w e e' overcommitted u] that assms less by simp
  moreover have "m = wanted \<and> memory_of (es_servers e') owner \<le> memory_mib (u_limits u)"
    if "startup_memory False guarded planned (srv_id row) (Some wanted) e = (e', Inr m) \<and>
      row \<in> set (es_servers e) \<and> srv_owner row = owner" for guarded planned row wanted e' m
    using changed_budget [of guarded planned "srv_id row" wanted e e' m row u] that assms by simp
  ultimately show ?thesis by blast
qed

theorem memory_within_the_limit_witness:
  "memory_of (es_servers (fst sample_created)) 7 \<le> 4096 \<and>
    memory_of (es_servers (fst (startup_memory False (Inr ()) (Inr ()) 1 (Some 4096) (fst sample_created)))) 7 \<le> 4096"
proof
  note limit = memory_within_the_limit [THEN conjunct2, THEN spec, THEN spec, THEN spec, THEN spec, THEN spec, THEN spec,
      THEN mp, THEN conjunct2]
  have made: "server_create 9 1 False (Inr ()) (Inr ()) sample_wish sample_estate = (fst sample_created, Inr False)"
    using sample_created_is by (simp add: sample_created_def)
  have user: "users_load [sample_user] 7 = Inr sample_user" "u_role sample_user = User" "u_id sample_user = 7"
    by (simp_all add: users_load_def users_find_def fetch_optional_def sample_user_def)
  have estate: "es_users sample_estate = [sample_user]" "owned_memory (es_servers sample_estate) 7 = 0"
    "map srv_id (es_servers sample_estate) = []" "sw_owner sample_wish = 7" "memory_mib (u_limits sample_user) = 4096"
    by (simp_all add: sample_estate_def sample_wish_def owned_memory_def sample_user_def sample_limits_def)
  show "memory_of (es_servers (fst sample_created)) 7 \<le> 4096"
    using memory_within_the_limit [of sample_estate 7 sample_user] user made estate by fastforce
  let ?row = "new_server_row 1 sample_wish"
  have "snd (startup_memory False (Inr ()) (Inr ()) 1 (Some 4096) (fst sample_created)) = Inr 4096"
    by (simp add: startup_memory_def sample_created_is fetch_optional_def new_server_row_def check_memory_budget_def spoken_for_def
        user and_then_def sample_estate_def sample_wish_def budget_memory_def saturating_add_def MIN_MEMORY_MIB_def)
      (simp add: sample_user_def sample_limits_def)
  then have given: "startup_memory False (Inr ()) (Inr ()) (srv_id ?row) (Some 4096) (fst sample_created) =
      (fst (startup_memory False (Inr ()) (Inr ()) 1 (Some 4096) (fst sample_created)), Inr 4096)"
    by (simp add: new_server_row_def prod_eq_iff)
  have grown: "es_users (fst sample_created) = [sample_user]" "es_servers (fst sample_created) = [?row]" "srv_owner ?row = 7"
    "owned_memory [?row] 7 = 2048" "memory_mib (u_limits sample_user) = 4096"
    by (simp_all add: sample_created_is sample_estate_def new_server_row_def sample_wish_def owned_memory_def sample_user_def sample_limits_def)
  show "memory_of (es_servers (fst (startup_memory False (Inr ()) (Inr ()) 1 (Some 4096) (fst sample_created)))) 7 \<le> 4096"
    using limit [of "fst sample_created" 7 sample_user, OF _ _ _ _ _ _ conjI [OF given]] user grown by simp
qed

section \<open>Backups\<close>

definition sample_around :: around where
  "sample_around = \<lparr>ar_now = 1000, ar_target = None, ar_drive = Inr (), ar_space = Inr (), ar_running = False,
     ar_resumable = False\<rparr>"

definition sample_backups :: backups where
  "sample_backups = \<lparr>ba_ops = sample_empty, ba_rows = [], ba_schedules = [], ba_setting = 10\<rparr>"

definition sample_backup :: "id \<Rightarrow> bool \<Rightarrow> backup_row" where
  "sample_backup i automated = (new_backup i 1 (lit ''a'') automated Local (int i))\<lparr>bk_size := 5\<rparr>"

text \<open>Three automatic backups and one made by hand, and no operation.\<close>

definition sample_shelf :: backups where
  "sample_shelf = \<lparr>ba_ops = sample_empty\<lparr>ops_backups := [21, 22, 23, 24]\<rparr>,
     ba_rows = [sample_backup 21 False, sample_backup 22 True, sample_backup 23 True, sample_backup 24 True],
     ba_schedules = [], ba_setting = 4\<rparr>"

lemmas sample_backup_defs = sample_around_def sample_backups_def sample_backup_def sample_shelf_def sample_empty_def
  sample_server_def new_backup_def

lemma sample_shelf_ok: "backups_ok sample_shelf"
  by (simp add: backups_ok_def sample_backup_defs ops_ok_def running_on_def open_of_def count_backups_def count_where_def
      MAX_QUOTA_def)

definition sample_requested :: backups where
  "sample_requested = fst (request_backup sample_around 21 31 1 (lit ''a'') 7 sample_backups)"

lemma sample_requested_eq:
  "ba_rows sample_requested = [new_backup 21 1 (lit ''a'') False Local 1000]"
  "operations (ba_ops sample_requested) =
     [queued_row 31 1000 (backup_operation 1 OpBackupCreate (Some 7) 21 None)]"
  by (simp_all add: sample_requested_def request_backup_def sample_backup_defs check_backup_name_def lit_def trim_def
      trim_start_def is_whitespace_def is_control_def MAX_BACKUP_NAME_def relayed_def guard_write_def busy_reasons_def
      reasons_of_def check_quota_def backup_quota_def MAX_QUOTA_def count_backups_def count_where_def create_for_def
      insert_backup_def with_ops_def op_insert_def collides_def references_exist_def backup_operation_def Let_def
      op_fetch_def fetch_optional_def bump_revision_def queued_row_def)

text \<open>C25: In every state the panel can reach, no server has more than fifty backups, no two backups share their
  identifier, every run works on a backup that exists and belongs to the server the run is for, and the
  runs stand in order: at most one that makes a backup and one that restores one is open per server.\<close>

theorem backups_in_order:
  "backups_reachable b \<Longrightarrow>
    (\<forall>s. count_backups b s \<le> 50) \<and> distinct (map bk_id (ba_rows b)) \<and>
    (\<forall>q \<in> set (operations (ba_ops b)). \<forall>t. op_target q = Some t \<longrightarrow>
       (\<exists>r \<in> set (ba_rows b). bk_id r = t \<and> bk_server r = op_server q)) \<and>
    (\<forall>s. open_of (operations (ba_ops b)) s OpBackupCreate \<le> 1 \<and> open_of (operations (ba_ops b)) s OpBackupRestore \<le> 1)"
  using reachable_backups_ok [of b] by (simp add: backups_ok_def backs_def MAX_QUOTA_def ops_ok_def)

theorem backups_in_order_witness:
  "count_backups sample_requested 1 \<le> 50 \<and> count_backups sample_requested 1 = 1 \<and>
    (\<exists>q r. q \<in> set (operations (ba_ops sample_requested)) \<and> r \<in> set (ba_rows sample_requested) \<and>
       op_target q = Some (bk_id r) \<and> bk_server r = op_server q)"
proof -
  have "backups_reachable sample_requested"
    unfolding sample_requested_def
    by (rule backups_reachable.Step [OF backups_reachable.Empty backups_step.Request])
      (simp_all add: sample_backups_def sample_empty_def)
  from backups_in_order [OF this] show ?thesis
    by (simp add: sample_requested_eq count_backups_def count_where_def new_backup_def queued_row_def backup_operation_def)
qed

text \<open>C26: Deleting backups, one by one or many at once, and the pruning of a schedule leave every open run and
  the backup it works on in place.\<close>

theorem open_runs_keep_their_backup:
  "backups_ok b \<Longrightarrow> q \<in> set (operations (ba_ops b)) \<Longrightarrow> is_open (op_state q) \<Longrightarrow> op_target q = Some t \<Longrightarrow>
    b' \<in> {fst (delete_many server ids b), fst (delete_one_backup server i b), fst (prune server keep b)} \<Longrightarrow>
    q \<in> set (operations (ba_ops b')) \<and> (\<exists>r \<in> set (ba_rows b'). bk_id r = t \<and> bk_server r = op_server q)"
proof -
  assume ok: "backups_ok b" and q: "q \<in> set (operations (ba_ops b))" "is_open (op_state q)" and t: "op_target q = Some t"
    and b': "b' \<in> {fst (delete_many server ids b), fst (delete_one_backup server i b), fst (prune server keep b)}"
  have "backups_ok b'" using b' ok by (auto simp: ok_delete_many ok_delete_one prune_def ok_prune_all)
  moreover have "q \<in> set (operations (ba_ops b'))"
    using b' delete_many_spares [OF q] delete_one_spares [OF q] prune_all_spares [OF q] by (auto simp: prune_def)
  ultimately show ?thesis using backed_row [of b' q t] t by blast
qed

theorem open_runs_keep_their_backup_witness:
  "\<exists>r. r \<in> set (ba_rows (fst (delete_many 1 [21] sample_requested))) \<and> bk_id r = 21"
proof -
  have "backups_ok sample_requested"
    unfolding sample_requested_def
    by (rule ok_request) (simp add: backups_ok_def sample_backup_defs ops_ok_def running_on_def open_of_def
        count_backups_def count_where_def)
  from open_runs_keep_their_backup [OF this, of "queued_row 31 1000 (backup_operation 1 OpBackupCreate (Some 7) 21 None)" 21
      "fst (delete_many 1 [21] sample_requested)" 1 "[21]" 0 0]
  show ?thesis by (auto simp: sample_requested_eq queued_row_def backup_operation_def simp del: delete_many.simps)
qed

text \<open>C27: The pruning of a schedule takes exactly those automatic backups of its server that no open run works on and
  that have at least \<open>keep\<close> newer automatic ones; what was made by hand and what belongs to other servers stays.\<close>

theorem prune_keeps_the_newest:
  "distinct (map bk_id (ba_rows b)) \<Longrightarrow> r \<in> set (ba_rows b) \<Longrightarrow>
    r \<in> set (ba_rows (fst (prune server keep b))) \<longleftrightarrow>
      \<not> (bk_server r = server \<and> bk_automated r) \<or> is_busy b (bk_id r) \<or>
      card {x \<in> set (ba_rows b). bk_server x = bk_server r \<and> bk_automated x \<and>
        (bk_created_at r, bk_id r) < (bk_created_at x, bk_id x)} < keep"
  using prune_keeps [of b r server keep] by (simp add: automatic_def newer_automatic_def conj_assoc)

theorem prune_keeps_the_newest_witness:
  "sample_backup 22 True \<notin> set (ba_rows (fst (prune 1 2 sample_shelf))) \<and>
    sample_backup 23 True \<in> set (ba_rows (fst (prune 1 2 sample_shelf))) \<and>
    sample_backup 21 False \<in> set (ba_rows (fst (prune 1 2 sample_shelf)))"
proof -
  have ids: "distinct (map bk_id (ba_rows sample_shelf))" by (simp add: sample_backup_defs)
  have idle: "\<not> is_busy sample_shelf i" for i by (simp add: is_busy_def sample_backup_defs count_where_def)
  have newer: "{x \<in> set (ba_rows sample_shelf). bk_server x = 1 \<and> bk_automated x \<and> (int i, i) < (bk_created_at x, bk_id x)} =
      {x \<in> {sample_backup 22 True, sample_backup 23 True, sample_backup 24 True}. i < bk_id x}" for i
    by (auto simp: sample_backup_defs)
  have two: "{x \<in> {sample_backup 22 True, sample_backup 23 True, sample_backup 24 True}. 22 < bk_id x} =
      {sample_backup 23 True, sample_backup 24 True}"
    "{x \<in> {sample_backup 22 True, sample_backup 23 True, sample_backup 24 True}. 23 < bk_id x} = {sample_backup 24 True}"
    by (auto simp: sample_backup_defs)
  have cards: "card {sample_backup 23 True, sample_backup 24 True} = 2" "card {sample_backup 24 True} = 1"
    by (simp_all add: sample_backup_def new_backup_def)
  have mem: "sample_backup 21 False \<in> set (ba_rows sample_shelf)" "sample_backup 22 True \<in> set (ba_rows sample_shelf)"
    "sample_backup 23 True \<in> set (ba_rows sample_shelf)" by (simp_all add: sample_shelf_def)
  have keys: "bk_created_at (sample_backup i a) = int i" "bk_id (sample_backup i a) = i" "bk_server (sample_backup i a) = 1"
    "bk_automated (sample_backup i a) = a" for i a by (simp_all add: sample_backup_def new_backup_def)
  show ?thesis
    using prune_keeps_the_newest [OF ids mem(1), of 1 2] prune_keeps_the_newest [OF ids mem(2), of 1 2]
      prune_keeps_the_newest [OF ids mem(3), of 1 2]
    unfolding keys newer two cards by (simp add: idle)
qed

text \<open>The next run of a schedule lies ahead of the present, no further than one interval; with whole days it
  falls on the hour that was asked for.\<close>

theorem next_run_is_ahead:
  "check_schedule quota r = Inr () \<Longrightarrow>
    now < next_after now (rq_interval r) (rq_hour r) \<and>
    next_after now (rq_interval r) (rq_hour r) \<le> now + int (rq_interval r) * 3600 \<and>
    (rq_interval r mod 24 = 0 \<longrightarrow> next_after now (rq_interval r) (rq_hour r) mod 86400 = int (rq_hour r) * 3600)"
  using next_after_bounds [of "rq_interval r" now "rq_hour r"]
  by (auto simp: check_schedule_def MIN_INTERVAL_def DAY_def min_def split: if_splits)

theorem next_run_is_ahead_witness:
  "next_after 100000 24 4 mod 86400 = 14400 \<and> next_after 100000 24 4 \<le> 186400"
  using next_run_is_ahead [of 10 "\<lparr>rq_enabled = True, rq_interval = 24, rq_hour = 4, rq_keep = 5\<rparr>" 100000]
  by (simp add: check_schedule_def MIN_INTERVAL_def MAX_INTERVAL_def MAX_QUOTA_def)

text \<open>C28: A server that holds as many backups as it may is passed over by every tick of its schedule, however
  many follow: nothing is made and, whatever \<open>keep_last\<close> says, nothing is pruned to make room.\<close>

theorem full_schedule_stalls:
  "backup_quota b \<le> count_backups b server \<Longrightarrow>
    ba_rows (skipped_ticks ticks server b) = ba_rows b \<and>
    snd (scheduled_start w bi oi stamp survey server (skipped_ticks ticks server b)) = ScheduleSkipped SkippedLimit"
  using full_forever [of b server ticks] full_schedule(1) by blast

theorem full_schedule_stalls_witness:
  "ba_rows (skipped_ticks [(sample_around, 90, 91, [], Inr (Some 5))] 1 sample_shelf) = ba_rows sample_shelf"
  using full_schedule_stalls [of sample_shelf 1 "[(sample_around, 90, 91, [], Inr (Some 5))]"]
  by (simp add: backup_quota_def count_backups_def count_where_def sample_backup_defs MAX_QUOTA_def)

text \<open>C29: A refused request changes no backup and leaves no run behind: whichever check fails, and also when the second
  operation of a restore is refused after the first was written, the backups and the open runs are those
  from before.\<close>

theorem refused_requests_leave_nothing:
  "backups_ok b \<Longrightarrow> bi \<notin> set (ops_uploads (ba_ops b)) \<Longrightarrow>
    (snd (request_backup w bi oi server name who b) = Inl f \<longrightarrow>
      untouched b (fst (request_backup w bi oi server name who b))) \<and>
    (snd (restore_backup w ri bi oi server backup name who b) = Inl f \<longrightarrow>
      untouched b (fst (restore_backup w ri bi oi server backup name who b))) \<and>
    (snd (retry_backup w ri bi oi server backup who b) = Inl f \<longrightarrow>
      untouched b (fst (retry_backup w ri bi oi server backup who b)))"
  by (intro conjI impI request_refused restore_refused retry_refused)

theorem refused_requests_leave_nothing_witness:
  "untouched sample_shelf (fst (request_backup sample_around 21 31 1 (lit ''a'') 7 sample_shelf))"
proof -
  have "snd (request_backup sample_around 21 31 1 (lit ''a'') 7 sample_shelf) = Inl (conflict ''backup_limit_reached'')"
    by (simp add: request_backup_def sample_backup_defs check_backup_name_def lit_def trim_def
        trim_start_def is_whitespace_def is_control_def MAX_BACKUP_NAME_def relayed_def guard_write_def busy_reasons_def
        reasons_of_def check_quota_def backup_quota_def MAX_QUOTA_def count_backups_def count_where_def Let_def)
  with refused_requests_leave_nothing [OF sample_shelf_ok, of 21] show ?thesis
    by (simp add: sample_shelf_def sample_empty_def)
qed

text \<open>C30: A restore comes with a safety copy: an accepted one has queued a run that makes the copy as its child, and as
  long as that run is not done, the restore that reaches for its turn fails instead of starting.\<close>

theorem restore_needs_its_copy:
  "\<forall>q \<in> set (operations (ba_ops b)). op_parent q \<noteq> Some ri \<Longrightarrow>
    restore_backup w ri bi oi server backup name who b = (b', Inr (x, y)) \<Longrightarrow>
    x = ri \<and> y = Some (bi, oi) \<and>
    (\<exists>q. safety_run_of b' ri = Some q \<and> op_id q = oi \<and> op_state q = Queued) \<and>
    (\<forall>b'' q. safety_run_of b'' ri = Some q \<and> op_state q \<noteq> Done \<longrightarrow>
      snd (restore_waits now ri b'') = Some Gone \<and>
      (\<forall>r \<in> set (operations (ba_ops (fst (restore_waits now ri b'')))). op_id r = ri \<longrightarrow> op_state r = Failed))"
proof -
  assume fresh: "\<forall>q \<in> set (operations (ba_ops b)). op_parent q \<noteq> Some ri"
    and made: "restore_backup w ri bi oi server backup name who b = (b', Inr (x, y))"
  have failed: "op_state r = Failed"
    if r: "r \<in> set (update_where (\<lambda>r. op_id r = ri) (settled_row now Failed e) xs)" "op_id r = ri" for r e xs
  proof -
    obtain r0 where "r = (if op_id r0 = ri then settled_row now Failed e r0 else r0)"
      using r(1) unfolding in_update by blast
    with r(2) show ?thesis by (cases "op_id r0 = ri") (simp_all add: settled_row_def)
  qed
  have "snd (restore_waits now ri b'') = Some Gone \<and>
      (\<forall>r \<in> set (operations (ba_ops (fst (restore_waits now ri b'')))). op_id r = ri \<longrightarrow> op_state r = Failed)"
    if "safety_run_of b'' ri = Some q" "op_state q \<noteq> Done" for b'' q
    unfolding restore_without_copy [OF that] using failed by blast
  with restore_has_copy [OF fresh made] show ?thesis by (intro conjI allI impI) blast+
qed

theorem restore_needs_its_copy_witness:
  "snd (restore_waits 2000 40 (fst (restore_backup sample_around 40 41 42 1 21 (lit ''a'') 7
     (sample_shelf\<lparr>ba_setting := 10\<rparr>)))) = Some Gone"
proof -
  let ?b = "sample_shelf\<lparr>ba_setting := 10\<rparr>"
  let ?r = "restore_backup sample_around 40 41 42 1 21 (lit ''a'') 7 ?b"
  have "snd ?r = Inr (40, Some (41, 42))"
    by (simp add: restore_backup_def restore_checks_def mine_def find_backup_def fetch_optional_def one_backup_def
        backup_of_def backup_status_def runs_of_def runs_on_def newest_first_def order_by_desc_def restorable_def
        start_restore_def dismiss_run_def op_dismiss_def write_op_def
        sample_backup_defs check_backup_name_def lit_def trim_def
        trim_start_def is_whitespace_def is_control_def MAX_BACKUP_NAME_def relayed_def guard_write_def busy_reasons_def
        reasons_of_def check_quota_def backup_quota_def MAX_QUOTA_def count_backups_def count_where_def create_for_def
        insert_backup_def with_ops_def op_insert_def collides_def references_exist_def backup_operation_def Let_def
        op_fetch_def bump_revision_def update_where_def queued_row_def)
  then obtain b' where made: "?r = (b', Inr (40, Some (41, 42)))" by (cases ?r) simp
  have fresh: "\<forall>q \<in> set (operations (ba_ops ?b)). op_parent q \<noteq> Some 40"
    by (simp add: sample_shelf_def sample_empty_def)
  obtain q where q: "safety_run_of b' 40 = Some q" "op_state q = Queued"
    using restore_needs_its_copy [OF fresh made] by blast
  then have "op_state q \<noteq> Done" by simp
  with q(1) have "snd (restore_waits 2000 40 b') = Some Gone"
    using restore_needs_its_copy [OF fresh made] by blast
  then show ?thesis unfolding made by simp
qed

section \<open>Google Drive\<close>

text \<open>C31: Trying a call to Google again comes to an end: at most as many calls as the plan has tries are made, the
  pauses between them stay within its budget, every call but the last had failed in a way worth
  repeating, and the answer is the last call's unless the run was called off or may wait no longer.\<close>

theorem trying_again_ends:
  assumes "keep_trying w drawn calls run = (t, r)"
  shows "tr_calls t \<le> max 1 (bo_tries (wp_plan w)) \<and> sum_list (tr_pauses t) \<le> bo_budget (wp_plan w) \<and>
    (\<forall>n. n + 1 < tr_calls t \<longrightarrow> (\<exists>s. calls n = Inl s \<and> is_worth_repeating (sb_error s))) \<and>
    (case r of
       Inr v \<Rightarrow> calls (tr_calls t - 1) = Inr v
     | Inl e \<Rightarrow> e = CancelledD \<or> (\<exists>why. e = Throttled why) \<or> (\<exists>s. calls (tr_calls t - 1) = Inl s \<and> e = sb_error s))"
  using retries_end [OF assms] trying_on_calls [OF assms [unfolded keep_trying_def]] by (auto split: sum.splits)

definition sample_calls :: "nat \<Rightarrow> setback + nat" where
  "sample_calls n = (if n < 2 then Inl (setback_plain RateLimited) else Inr n)"

theorem trying_again_ends_witness:
  "tr_calls (fst (keep_trying \<lparr>wp_plan = BRIEF, wp_watch = None\<rparr> (\<lambda>_. 0) sample_calls None)) \<le> 3"
  using trying_again_ends [of "\<lparr>wp_plan = BRIEF, wp_watch = None\<rparr>" "\<lambda>_. 0" sample_calls None] by (simp add: BRIEF_def prod_eq_iff)

text \<open>C32: The budgets of the plans in use never cut a plan short: when nobody calls the run off and Google names no
  pause of its own, a call that succeeds within the tries of the plan is reached and its value
  returned.\<close>

theorem trying_again_persists:
  assumes "keep_trying \<lparr>wp_plan = plan, wp_watch = None\<rparr> drawn calls None = (t, r)"
    and "plan \<in> {BRIEF, PATIENT, HURRIED}" "k < bo_tries plan" "calls k = Inr v"
    and "\<And>n. n < k \<Longrightarrow> \<exists>e. calls n = Inl (setback_plain e) \<and> is_worth_repeating e"
  shows "r = Inr v"
  using assms by (rule retries_persist)

theorem trying_again_persists_witness:
  "snd (keep_trying \<lparr>wp_plan = BRIEF, wp_watch = None\<rparr> (\<lambda>_. 0) sample_calls None) = Inr 2"
  by (rule trying_again_persists [where k = 2 and plan = BRIEF and drawn = "\<lambda>_. 0", OF prod.collapse [symmetric]])
    (auto simp: BRIEF_def sample_calls_def is_worth_repeating_def intro!: exI [of _ RateLimited])

text \<open>C33: What Google confirmed is what was hashed: the digests of a sent archive are those of exactly the bytes
  it covers, never more than the archive has, the ledger holds the digest of every prefix that was
  offered, the progress counts the covered bytes, and the day of the account those that were sent now.\<close>

theorem sent_is_what_was_hashed:
  assumes "send h archive whole turns opened closing earlier st0 = (st, Inr sent)"
    and "earlier \<le> length archive" "sd_ours st0 = take earlier archive" "ta_added (sd_tally st0) < 2 ^ 64"
    and "sd_offered st0 = []" "sd_progress st0 = 0"
  shows "earlier \<le> sf_covered sent \<and> sf_covered sent \<le> whole \<and>
    sf_md5 sent = ha_md5 h (take (sf_covered sent) archive) \<and> sf_sha256 sent = ha_sha256 h (take (sf_covered sent) archive) \<and>
    sd_progress st = sf_covered sent \<and> sd_tally st = tally_took (sf_covered sent - earlier) (sd_tally st0) \<and>
    (\<forall>(reach, proven) \<in> set (sd_offered st). reach \<le> whole \<and> proven = ha_sha256 h (take reach archive))"
  using send_keeps [OF assms] by (simp add: sent_ok_def offers_ok_def)

definition sample_hashes :: hashes where
  "sample_hashes = \<lparr>ha_md5 = (\<lambda>b. b), ha_sha256 = (\<lambda>b. 0 # b)\<rparr>"

definition sample_uploaded :: uploaded where
  "sample_uploaded = \<lparr>ul_id = lit ''f1'', ul_size = None, ul_md5 = None, ul_sha256 = None\<rparr>"

definition sample_turn :: "nat \<Rightarrow> turn" where
  "sample_turn n = \<lparr>tu_cancelled = False, tu_token = None, tu_disk = None,
     tu_answer = (if n = 0 then Inr (ChunkMore 2 None) else Inr (ChunkDone sample_uploaded)),
     tu_renewal = None, tu_breathed = True\<rparr>"

definition sample_sending :: sending where
  "sample_sending = \<lparr>sd_turns = 0, sd_offset = 0, sd_fruitless = 0, sd_renewals = 0, sd_ours = [], sd_session = [],
     sd_progress = 0, sd_tally = tally_of 0, sd_offered = []\<rparr>"

definition sample_upload :: "sending \<times> (drive_error + sent_file)" where
  "sample_upload = send sample_hashes [7, 8, 9] 3 sample_turn None (None, Inl CancelledD) 0 sample_sending"

lemmas sample_turns = sample_sending_def send_turn_def sample_turn_def tally_full_def tally_room_def tally_today_def
  tally_of_def CEILING_def chunk_at_def CHUNK_def answered_def acknowledged_def tally_took_def Let_def

lemma sample_upload_is: "snd sample_upload = Inr (sent_of sample_hashes sample_uploaded [7, 8, 9] 3)"
proof -
  define st where "st = sample_sending\<lparr>sd_offset := 2, sd_ours := [7, 8], sd_progress := 2, sd_tally := tally_took 2 (tally_of 0),
    sd_offered := [(3, ha_sha256 sample_hashes [7, 8, 9])]\<rparr>"
  have first: "send_turn sample_hashes [7, 8, 9] 3 (sample_turn 0) sample_sending = (st, None)"
    by (simp add: st_def sample_turns)
  have second: "snd (send_turn sample_hashes [7, 8, 9] 3 (sample_turn 1) (st\<lparr>sd_turns := 1\<rparr>)) =
      Some (Inr (sent_of sample_hashes sample_uploaded [7, 8, 9] 3))"
    by (simp add: st_def sample_turns)
  have "sd_offset sample_sending = 0" "sd_turns sample_sending = 0" "sd_offset st = 2" "sd_turns st = 0"
    by (simp_all add: st_def sample_sending_def)
  with first second have "snd (send_loop sample_hashes [7, 8, 9] 3 sample_turn sample_sending) =
      Some (Inr (sent_of sample_hashes sample_uploaded [7, 8, 9] 3))"
    by (auto simp: send_loop.simps [of _ _ _ _ sample_sending] send_loop.simps [of _ _ _ _ "st\<lparr>sd_turns := Suc 0\<rparr>"]
        split: prod.splits option.splits)
  moreover have "sample_sending\<lparr>sd_offset := 0, sd_fruitless := 0, sd_renewals := 0, sd_progress := sd_progress sample_sending + 0\<rparr> = sample_sending"
    by (simp add: sample_sending_def)
  ultimately show ?thesis by (auto simp: sample_upload_def send_def Let_def split: prod.splits option.splits)
qed

theorem sent_is_what_was_hashed_witness:
  "sd_progress (fst sample_upload) = 3"
proof -
  have "sample_upload = (fst sample_upload, Inr (sent_of sample_hashes sample_uploaded [7, 8, 9] 3))"
    by (metis prod.collapse sample_upload_is)
  from sent_is_what_was_hashed [OF this [unfolded sample_upload_def]] show ?thesis
    by (simp add: sample_upload_def sample_sending_def sent_of_def tally_of_def)
qed

section \<open>Mail\<close>

text \<open>A mail without a link, two templates that say little, and the way of one mail through the service:
  queued, claimed, handed over to the directory of files.\<close>

definition sample_templates :: templates where
  "sample_templates = \<lparr>te_shell_html = [60, 98, 62] @ lit ''{{body}}'', te_shell_text = lit ''{{body}}'',
     te_manual = [], te_html = (\<lambda>_. [60, 105, 62] @ lit ''{{username}}''), te_text = (\<lambda>_. lit ''Hi {{username}}'')\<rparr>"

definition sample_mailing :: mail_settings where
  "sample_mailing = \<lparr>ms_from_address = lit ''p@q.r'', ms_from_name = [], ms_reply_to = None, ms_link_base = None,
     ms_daily_limit = 100, ms_key_set_at = None, ms_last_test_at = None, ms_last_error = None, ms_last_error_at = None\<rparr>"

definition sample_letter :: mail_message where
  "sample_letter = MailRejected \<lparr>rc_address = lit ''a@b.c'', rc_user = None\<rparr> (lit ''anna'')"

definition sample_mail :: mail_row where
  "sample_mail = new_mail 7 sample_letter
     (projr (render sample_templates (\<lambda>_. (2026, 2, 3)) sample_letter (sender_of sample_mailing) 1000)) MailQueued 1000"

definition sample_queued :: post where
  "sample_queued = (post_empty sample_mailing)\<lparr>po_box := \<lparr>ob_mails = [sample_mail], ob_settings = sample_mailing\<rparr>\<rparr>"

definition sample_claimed :: post where
  "sample_claimed = sample_queued\<lparr>po_box := fst (claim_due 1000 (po_box sample_queued)),
     po_worker := snd (claim_due 1000 (po_box sample_queued))\<rparr>"

definition sample_sent :: post where
  "sample_sent = sample_claimed\<lparr>po_box := delivered (the (po_worker sample_claimed))
     (hand_over (\<lambda>s. s) Files \<lparr>oc_stem = Some [120], oc_answer = None\<rparr>) 1000 (po_box sample_claimed), po_worker := None\<rparr>"

lemma sample_mail_runs:
  "post_reachable sample_templates (\<lambda>_. (2026, 2, 3)) (\<lambda>s. s) True sample_queued"
  "post_reachable sample_templates (\<lambda>_. (2026, 2, 3)) (\<lambda>s. s) True sample_claimed"
  "post_reachable sample_templates (\<lambda>_. (2026, 2, 3)) (\<lambda>s. s) True sample_sent"
proof -
  let ?reach = "post_reachable sample_templates (\<lambda>_. (2026, 2, 3)) (\<lambda>s. s) True"
  let ?step = "post_step sample_templates (\<lambda>_. (2026, 2, 3)) (\<lambda>s. s) True"
  obtain r where r: "render sample_templates (\<lambda>_. (2026, 2, 3)) sample_letter (sender_of sample_mailing) 1000 = Inr r"
    by (simp add: render_def message_values_def mail_slots_def sample_letter_def)
  then have row: "new_mail 7 sample_letter r MailQueued 1000 = sample_mail" by (simp add: sample_mail_def)
  let ?box = "\<lparr>ob_mails = [], ob_settings = sample_mailing\<rparr>"
  have "brake sample_letter 1000 ?box = Inr ()"
    by (simp add: brake_def recent_to_def spent_since_def count_where_def sample_mailing_def PER_ADDRESS_AND_KIND_def
        sample_letter_def Let_def)
  moreover have "insert_mail sample_mail ?box = Some \<lparr>ob_mails = [sample_mail], ob_settings = sample_mailing\<rparr>"
    by (simp add: insert_mail_def sample_mail_def new_mail_def)
  moreover have "po_box (post_empty sample_mailing) = ?box" "po_key (post_empty sample_mailing) = None"
    by (simp_all add: post_empty_def)
  ultimately have "enqueue sample_templates (\<lambda>_. (2026, 2, 3)) (provider True (po_key (post_empty sample_mailing))) 7
      sample_letter 1000 (po_box (post_empty sample_mailing)) = Inr (po_box sample_queued)"
    by (simp add: enqueue_def take_in_def provider_def sample_queued_def r row)
  then have "?step (post_empty sample_mailing) ((post_empty sample_mailing)\<lparr>po_box := po_box sample_queued\<rparr>)"
    by (intro post_step.queue) (simp_all add: post_empty_def flights_def)
  moreover have "(post_empty sample_mailing)\<lparr>po_box := po_box sample_queued\<rparr> = sample_queued"
    by (simp add: sample_queued_def)
  ultimately show 1: "?reach sample_queued" using post_reachable.begins post_reachable.goes_on by metis
  have "?step sample_queued sample_claimed"
    unfolding sample_claimed_def by (rule post_step.claim) (simp_all add: sample_queued_def post_empty_def)
  with 1 show 2: "?reach sample_claimed" by (rule post_reachable.goes_on)
  obtain q where q: "po_worker sample_claimed = Some q"
    by (auto simp: sample_claimed_def sample_queued_def claim_due_def mail_due_def order_by_def sample_mail_def new_mail_def as_queued_def)
  have "?step sample_claimed sample_sent"
    unfolding sample_sent_def q option.sel
    using post_step.deliver [OF q, of sample_templates "\<lambda>_. (2026, 2, 3)" "\<lambda>s. s" True "\<lparr>oc_stem = Some [120], oc_answer = None\<rparr>" 1000]
    by (simp add: provider_def)
  with 2 show "?reach sample_sent" by (rule post_reachable.goes_on)
qed

text \<open>C34: In every state the panel's mail service can reach, with restarts at any moment: the body of a
  mail (which holds a link that is a secret) is gone exactly when the mail was sent, a mail is being
  sent exactly when the worker or a test holds it, only a waiting mail has a time to wait for, and what
  the worker hands over is what the row says.\<close>

theorem outbox_in_order:
  "post_reachable te cal lower sink s \<Longrightarrow>
    distinct (map mr_id (ob_mails (po_box s))) \<and>
    (\<forall>r. r \<in> set (ob_mails (po_box s)) \<longrightarrow>
      (mr_html r = None \<longleftrightarrow> mr_state r = MailSent) \<and> (mr_text r = None \<longleftrightarrow> mr_state r = MailSent) \<and>
      (mr_sent_at r \<noteq> None \<longleftrightarrow> mr_state r = MailSent) \<and>
      (mr_state r = MailSending \<longleftrightarrow> mr_id r \<in> set (flights s)) \<and>
      (mr_next r \<noteq> None \<longrightarrow> mr_state r \<in> {MailQueued, MailSending}) \<and>
      (\<forall>q. po_worker s = Some q \<longrightarrow> qm_id q = mr_id r \<longrightarrow> as_queued r = Some q))"
  using post_reachable_ok [of te cal lower sink s] unfolding post_ok_def mail_ok_def by (intro conjI allI impI) auto

theorem outbox_in_order_witness:
  "\<exists>r. ob_mails (po_box sample_claimed) = [r] \<and> mr_state r = MailSending \<and> mr_id r \<in> set (flights sample_claimed)"
proof -
  have r: "ob_mails (po_box sample_claimed) = [sample_mail\<lparr>mr_state := MailSending\<rparr>]"
    by (simp add: sample_claimed_def sample_queued_def claim_due_def mail_due_def order_by_def sample_mail_def new_mail_def
        update_where_def)
  then show ?thesis using outbox_in_order [OF sample_mail_runs(2)] by simp
qed

text \<open>C35: Whatever is asked for, by whomever and at whatever times, no hour ever holds more than five mails
  of one kind to one address, nor more than ten test mails: a reset or sign-up form cannot be used to
  flood a mailbox. The mails of a deleted account go with it and are counted no longer.\<close>

theorem no_mailbox_is_flooded:
  "post_reachable te cal lower sink s \<Longrightarrow>
    count_where (\<lambda>r. mr_to r = address \<and> mr_kind r = kind \<and> until - 3600 < mr_created_at r \<and> mr_created_at r \<le> until)
      (ob_mails (po_box s)) \<le> 5 \<and>
    count_where (\<lambda>r. mr_kind r = KindTest \<and> until - 3600 < mr_created_at r \<and> mr_created_at r \<le> until)
      (ob_mails (po_box s)) \<le> 10"
  using reachable_brakes [of te cal lower sink s]
  unfolding kept_brakes_def MAIL_WINDOW_def PER_ADDRESS_AND_KIND_def TEST_MAILS_def by blast

theorem no_mailbox_is_flooded_witness:
  "count_where (\<lambda>r. mr_to r = lit ''a@b.c'' \<and> mr_kind r = KindRejected \<and> 1800 - 3600 < mr_created_at r \<and> mr_created_at r \<le> 1800)
      (ob_mails (po_box sample_queued)) \<le> 5"
  using no_mailbox_is_flooded [OF sample_mail_runs(1)] by blast

text \<open>C36: A mail that was sent is never sent again: no step changes its row, short of the purge or the
  deletion of its account that removes it, and neither the worker nor a test holds it.\<close>

theorem sent_mail_is_done:
  "post_reachable te cal lower sink s \<Longrightarrow> post_step te cal lower sink s s' \<Longrightarrow>
    r \<in> set (ob_mails (po_box s)) \<Longrightarrow> mr_state r = MailSent \<Longrightarrow>
    (r \<in> set (ob_mails (po_box s')) \<or> mr_id r \<notin> mr_id ` set (ob_mails (po_box s'))) \<and> mr_id r \<notin> set (flights s)"
proof -
  assume a: "post_reachable te cal lower sink s" "post_step te cal lower sink s s'" "r \<in> set (ob_mails (po_box s))"
    "mr_state r = MailSent"
  from a(1) have ok: "post_ok s" by (rule post_reachable_ok)
  with a flying_unsent [OF ok a(3)] sent_stays [OF a(2) ok a(3,4)] show ?thesis by auto
qed

theorem sent_mail_is_done_witness:
  "\<exists>r. ob_mails (po_box sample_sent) = [r] \<and> mr_state r = MailSent \<and>
    r \<in> set (ob_mails (po_box (sample_sent\<lparr>po_box := fst (retry_mail 7 (po_box sample_sent))\<rparr>)))"
proof -
  obtain r where r: "ob_mails (po_box sample_sent) = [r]" "mr_state r = MailSent"
    by (simp add: sample_sent_def sample_claimed_def sample_queued_def claim_due_def mail_due_def order_by_def sample_mail_def
        new_mail_def as_queued_def delivered_def hand_over_def mark_sent_def update_where_def)
  have "mr_id r \<in> mr_id ` set (ob_mails (fst (retry_mail 7 (po_box sample_sent))))"
    using r by (simp add: fst_retry update_where_def)
  with sent_mail_is_done [OF sample_mail_runs(3) post_step.again, of r 7] r show ?thesis by simp
qed

text \<open>C37: What a refused mail does: a used up daily quota puts it off to the next day of UTC, another
  passing error to the next of five waits of altogether two hours and forty minutes, and everything
  else, or a sixth refusal, fails it for good. Each refusal counts, the days of waiting too.\<close>

theorem refused_mail_waits_or_fails:
  "post_reachable te cal lower sink s \<Longrightarrow> po_worker s = Some q \<Longrightarrow> r \<in> set (ob_mails (po_box s)) \<Longrightarrow>
    mr_id r = qm_id q \<Longrightarrow>
    (\<exists>r'. r' \<in> set (ob_mails (delivered q (Inl e) now (po_box s))) \<and> mr_id r' = mr_id r \<and> mr_html r' = mr_html r \<and>
      mr_attempts r' = mr_attempts r + 1 \<and>
      (mr_state r', mr_next r') =
        (if until_tomorrow e then (MailQueued, Some (next_utc_day now))
         else if transient e \<and> mr_attempts r < 5 then (MailQueued, Some (now + [30, 120, 480, 1800, 7200] ! mr_attempts r))
         else (MailFailed, None))) \<and>
    now < next_utc_day now \<and> next_utc_day now \<le> now + 86400 \<and>
    until_tomorrow (QuotaReached DAILY_TEXT) \<and> \<not> until_tomorrow (QuotaReached MONTHLY_TEXT)"
proof -
  assume a: "post_reachable te cal lower sink s" "po_worker s = Some q" "r \<in> set (ob_mails (po_box s))" "mr_id r = qm_id q"
  have texts: "until_tomorrow (QuotaReached DAILY_TEXT)" "\<not> until_tomorrow (QuotaReached MONTHLY_TEXT)"
    by code_simp+
  have day: "now < next_utc_day now" "next_utc_day now \<le> now + 86400"
    unfolding next_utc_day_def by presburger+
  from refused_row [OF post_reachable_ok [OF a(1)] a(2-4), of e now] texts day show ?thesis
    by (auto simp: BACKOFF_def)
qed

theorem refused_mail_waits_or_fails_witness:
  "\<exists>r. r \<in> set (ob_mails (delivered (the (po_worker sample_claimed)) (Inl Upstream) 2000 (po_box sample_claimed))) \<and>
    mr_state r = MailQueued \<and> mr_next r = Some 2030"
proof -
  have r: "ob_mails (po_box sample_claimed) = [sample_mail\<lparr>mr_state := MailSending\<rparr>]" "mr_attempts sample_mail = 0"
    by (simp_all add: sample_claimed_def sample_queued_def claim_due_def mail_due_def order_by_def sample_mail_def new_mail_def
        update_where_def)
  obtain q where q: "po_worker sample_claimed = Some q" "qm_id q = 7" "mr_id sample_mail = 7"
    by (simp add: sample_claimed_def sample_queued_def claim_due_def mail_due_def order_by_def sample_mail_def new_mail_def
        as_queued_def)
  have "transient Upstream" "\<not> until_tomorrow Upstream" by (simp_all add: transient_def until_tomorrow_def)
  with refused_mail_waits_or_fails [OF sample_mail_runs(2) q(1), of "sample_mail\<lparr>mr_state := MailSending\<rparr>" Upstream 2000] r q
  show ?thesis by auto
qed

text \<open>C38: No value can forge a mail: two mails of one kind have the same markup (angle brackets and quotes,
  in their order), whatever the names, addresses, tokens and settings that were put into them.\<close>

theorem values_forge_no_markup:
  "render te cal m s now = Inr r \<Longrightarrow> render te cal' m' s' now' = Inr r' \<Longrightarrow> kind_of m = kind_of m' \<Longrightarrow>
    filter (\<lambda>c. c \<in> {60, 62, 34, 39}) (re_html r) = filter (\<lambda>c. c \<in> {60, 62, 34, 39}) (re_html r')"
proof -
  assume a: "render te cal m s now = Inr r" "render te cal' m' s' now' = Inr r'" "kind_of m = kind_of m'"
  then obtain v v' where v: "message_values cal m s now = Inr v" "message_values cal' m' s' now' = Inr v'"
    "r = assemble te (kind_of m) v" "r' = assemble te (kind_of m) v'" by (auto simp: render_def and_then_Inr)
  have "tags (re_html (assemble te (kind_of m) v)) = tags (re_html (assemble te (kind_of m) v'))"
    by (rule assemble_alike) (rule values_alike [OF v(1,2) a(3)])+
  then show ?thesis unfolding v(3,4) tags_def markup_def .
qed

theorem values_forge_no_markup_witness:
  "\<exists>r r'. render sample_templates (\<lambda>_. (2026, 2, 3)) (MailRejected \<lparr>rc_address = [], rc_user = None\<rparr> [60, 34]) (sender_of sample_mailing) 0 = Inr r \<and>
    render sample_templates (\<lambda>_. (2026, 2, 3)) sample_letter (sender_of sample_mailing) 1000 = Inr r' \<and>
    filter (\<lambda>c. c \<in> {60, 62, 34, 39}) (re_html r) = filter (\<lambda>c. c \<in> {60, 62, 34, 39}) (re_html r')"
proof -
  obtain r r' where r:
    "render sample_templates (\<lambda>_. (2026, 2, 3)) (MailRejected \<lparr>rc_address = [], rc_user = None\<rparr> [60, 34]) (sender_of sample_mailing) 0 = Inr r"
    "render sample_templates (\<lambda>_. (2026, 2, 3)) sample_letter (sender_of sample_mailing) 1000 = Inr r'"
    by (simp add: render_def message_values_def mail_slots_def sample_letter_def)
  with values_forge_no_markup [OF r] show ?thesis by (simp add: sample_letter_def)
qed

text \<open>C39: The link of a confirmation carries its token whole: behind the hash stand only unreserved
  characters and percent signs, and decoding them gives the bytes of the token, whatever it is made of.\<close>

theorem links_carry_their_token:
  "message_values cal (MailVerify recipient name token valid) s now = Inr v \<Longrightarrow> (\<And>c. c \<in> set token \<Longrightarrow> c < 1114112) \<Longrightarrow>
    \<exists>base. se_link_base s = Some base \<and>
      va_action v = Some (base @ lit ''/verify-email#'' @ encode_token token) \<and>
      percent_decode (encode_token token) = utf8_bytes token \<and>
      set (encode_token token) \<subseteq> {c. is_unreserved c \<or> c = 37}"
proof -
  assume a: "message_values cal (MailVerify recipient name token valid) s now = Inr v" "\<And>c. c \<in> set token \<Longrightarrow> c < 1114112"
  then have "percent_decode (encode_token token) = utf8_bytes token" "set (encode_token token) \<subseteq> {c. is_unreserved c \<or> c = 37}"
    using token_back encode_token_plain by blast+
  with a(1) show ?thesis
    by (auto simp: message_values_def mail_slots_def link_base_of_def and_then_Inr Let_def split: option.splits)
qed

theorem links_carry_their_token_witness:
  "percent_decode (encode_token [233, 35, 97]) = [195, 169, 35, 97]"
proof -
  let ?s = "\<lparr>se_name = [], se_address = [], se_reply_to = None, se_link_base = Some [120]\<rparr>"
  have "\<exists>v. message_values (\<lambda>_. (2026, 2, 3)) (MailVerify \<lparr>rc_address = [], rc_user = None\<rparr> [] [233, 35, 97] 60) ?s 0 = Inr v"
    by (simp add: message_values_def mail_slots_def link_base_of_def Let_def)
  then obtain v where "message_values (\<lambda>_. (2026, 2, 3)) (MailVerify \<lparr>rc_address = [], rc_user = None\<rparr> [] [233, 35, 97] 60) ?s 0 = Inr v" ..
  moreover have "c < 1114112" if "c \<in> set [233, 35, 97]" for c :: nat using that by auto
  ultimately have "percent_decode (encode_token [233, 35, 97]) = utf8_bytes [233, 35, 97]"
    using links_carry_their_token by blast
  then show ?thesis by (simp add: utf8_bytes_def utf8_def)
qed

section \<open>Names and paths\<close>

text \<open>C40: A path that was accepted never leaves its root: none of its segments is empty, a dot, two
  dots or holds a separator or a null, it is at most 64 segments deep, and sending it over the
  wire and reading it again gives the same path.\<close>

theorem paths_stay_inside:
  "parse raw = Inr p \<Longrightarrow>
    (\<forall>s. s \<in> set p \<longrightarrow> is_valid_step s) \<and> length p \<le> 64 \<and> parse (on_the_wire p) = Inr p"
  using parse_valid [of raw p] parse_on_the_wire [of p] by (auto simp: valid_path_def MAX_DEPTH_def)

theorem paths_stay_inside_witness:
  "parse (lit ''/a/./b//'') = Inr [lit ''a'', lit ''b''] \<and> parse (on_the_wire [lit ''a'', lit ''b'']) = Inr [lit ''a'', lit ''b'']"
proof -
  have "parse (lit ''/a/./b//'') = Inr [lit ''a'', lit ''b'']"
    by (simp add: parse_def lit_def MAX_PATH_BYTES_def MAX_SEGMENT_BYTES_def MAX_DEPTH_def
        utf8_len_def joined_len_def)
  with paths_stay_inside [OF this] show ?thesis by blast
qed

text \<open>Different accounts get different system users, and the name of one fits the 32 characters
  Linux allows.\<close>

theorem system_users_differ:
  "is_valid_user_id i \<Longrightarrow> is_valid_user_id j \<Longrightarrow>
    (system_username i = system_username j \<longleftrightarrow> i = j) \<and> byte_len (system_username i) = 32 \<and>
    is_valid_step (system_username i)"
proof -
  assume a: "is_valid_user_id i" "is_valid_user_id j"
  have "is_valid_step (system_username i)"
    using system_username_length [OF a(1)] lowercase_ascii [of i] a(1)
    by (auto simp: is_valid_step_def system_username_def lit_def is_valid_user_id_def
        ascii_digit_def ascii_lower_def)
  with a system_username_inj system_username_length show ?thesis by blast
qed

theorem system_users_differ_witness:
  "system_username (lit ''01ARZ3NDEKTSV4RRFFQ69G5FAV'') \<noteq> system_username (lit ''01ARZ3NDEKTSV4RRFFQ69G5FAW'')"
proof -
  have "is_valid_user_id (lit ''01ARZ3NDEKTSV4RRFFQ69G5FAV'')" "is_valid_user_id (lit ''01ARZ3NDEKTSV4RRFFQ69G5FAW'')"
    by (simp_all add: is_valid_user_id_def lit_def utf8_len_def ascii_digit_def ascii_upper_def)
  from system_users_differ [OF this] show ?thesis by (simp add: lit_def)
qed

end
